(* ===== verification/Prelude.thy ===== *)
theory Prelude
  imports Main
begin

text \<open>
  Shared vocabulary of the development: the result type of fallible Python code, the
  named characters the tools test for, the slice and position lemmas on lists that every
  component uses, and the collections \<open>bounds\<close> (facts that bound an offset) and
  \<open>res_simps\<close> (how errors propagate).
\<close>

named_theorems bounds \<open>facts that bound the offsets the scanners return\<close>
named_theorems res_simps \<open>propagation of errors through the result type\<close>
named_theorems shift_simps \<open>how an operation commutes with a prefix before the text\<close>


section \<open>Results of fallible code\<close>

text \<open>
  Code that may raise returns \<open>'e + 'a\<close>: \<open>Inl\<close> the exception, \<open>Inr\<close> the value. Each
  component has its own type of exceptions; \<open>bindE\<close> is the sequence of two statements.
\<close>

fun bindE :: "'e + 'a \<Rightarrow> ('a \<Rightarrow> 'e + 'b) \<Rightarrow> 'e + 'b" where
  "bindE (Inl e) f = Inl e"
| "bindE (Inr x) f = f x"

lemma bindE_Inr_iff [res_simps]: "bindE m f = Inr y \<longleftrightarrow> (\<exists>x. m = Inr x \<and> f x = Inr y)"
  by (cases m) auto

lemma bindE_Inl_iff [res_simps]:
  "bindE m f = Inl e \<longleftrightarrow> m = Inl e \<or> (\<exists>x. m = Inr x \<and> f x = Inl e)"
  by (cases m) auto

lemma bindE_cong [fundef_cong]:
  "m = m' \<Longrightarrow> (\<And>x. m' = Inr x \<Longrightarrow> f x = g x) \<Longrightarrow> bindE m f = bindE m' g"
  by (cases m') auto

text \<open>A list comprehension over a fallible function stops at the first error.\<close>

fun mapE :: "('a \<Rightarrow> 'e + 'b) \<Rightarrow> 'a list \<Rightarrow> 'e + 'b list" where
  "mapE f [] = Inr []"
| "mapE f (x # xs) = bindE (f x) (\<lambda>y. bindE (mapE f xs) (\<lambda>ys. Inr (y # ys)))"

lemma mapE_Inr_iff: "mapE f xs = Inr ys \<longleftrightarrow> list_all2 (\<lambda>x y. f x = Inr y) xs ys"
  by (induction xs arbitrary: ys) (auto simp: res_simps list_all2_Cons1)

lemma mapE_length [bounds]: "mapE f xs = Inr ys \<Longrightarrow> length ys = length xs"
  by (auto simp: mapE_Inr_iff dest: list_all2_lengthD)


section \<open>Characters\<close>

text \<open>
  A Python \<^verbatim>\<open>str\<close> is a \<^typ>\<open>string\<close>: its characters are the code
  points U+0000 to U+00FF. Characters the source writes with an escape get a name.
\<close>

abbreviation TAB :: char where "TAB \<equiv> CHR 0x09"
abbreviation LF :: char where "LF \<equiv> CHR 0x0A"
abbreviation VT :: char where "VT \<equiv> CHR 0x0B"
abbreviation FF :: char where "FF \<equiv> CHR 0x0C"
abbreviation CR :: char where "CR \<equiv> CHR 0x0D"
abbreviation SP :: char where "SP \<equiv> CHR 0x20"
abbreviation DQ :: char where "DQ \<equiv> CHR 0x22"
abbreviation HASH :: char where "HASH \<equiv> CHR 0x23"
abbreviation SQ :: char where "SQ \<equiv> CHR 0x27"
abbreviation BSL :: char where "BSL \<equiv> CHR 0x5C"


section \<open>Slices\<close>

text \<open>\<^verbatim>\<open>s[a:b]\<close> for non-negative bounds: clipped to the list, empty when \<open>b \<le> a\<close>.\<close>

definition slice :: "'a list \<Rightarrow> nat \<Rightarrow> nat \<Rightarrow> 'a list" where
  "slice s a b = take (b - a) (drop a s)"

lemma length_slice: "length (slice s a b) = min (b - a) (length s - a)"
  by (simp add: slice_def)

lemma length_slice_le [simp]: "b \<le> length s \<Longrightarrow> length (slice s a b) = b - a"
  by (simp add: length_slice)

lemma nth_slice [simp]: "a + k < b \<Longrightarrow> b \<le> length s \<Longrightarrow> slice s a b ! k = s ! (a + k)"
  by (simp add: slice_def)

lemma slice_Nil [simp]: "b \<le> a \<Longrightarrow> slice s a b = []"
  by (simp add: slice_def)

lemma slice_full [simp]: "slice s 0 (length s) = s"
  by (simp add: slice_def)

lemma slice_append_slice: "a \<le> b \<Longrightarrow> b \<le> c \<Longrightarrow> slice s a b @ slice s b c = slice s a c"
proof -
  assume "a \<le> b" "b \<le> c"
  then have "take (c - a) (drop a s) = take ((b - a) + (c - b)) (drop a s)" by simp
  also have "\<dots> = take (b - a) (drop a s) @ take (c - b) (drop (b - a) (drop a s))"
    by (simp only: take_add)
  finally show ?thesis using \<open>a \<le> b\<close> by (simp add: slice_def)
qed

lemma slice_Suc: "i < length s \<Longrightarrow> slice s i (Suc i) = [s ! i]"
  by (simp add: slice_def Cons_nth_drop_Suc [symmetric])

lemma slice_shift [shift_simps]: "slice (p @ s) (length p + a) (length p + b) = slice s a b"
  by (simp add: slice_def)

lemma set_slice_subset: "set (slice s a b) \<subseteq> set s"
  unfolding slice_def by (meson order_trans set_drop_subset set_take_subset)

lemma list_all2_slice: "list_all2 P xs ys \<Longrightarrow> list_all2 P (slice xs a b) (slice ys a b)"
  by (simp add: slice_def list_all2_takeI list_all2_dropI)

lemma nth_append_shift [shift_simps]: "(p @ s) ! (length p + i) = s ! i"
  by (simp add: nth_append)


section \<open>Searching a list\<close>

lemma find_SomeD: "List.find P xs = Some x \<Longrightarrow> x \<in> set xs \<and> P x"
  by (induction xs) (auto split: if_splits)

lemma find_map_unique:
  assumes "x \<in> set xs" "P x" and unique: "\<And>y. y \<in> set xs \<Longrightarrow> P y \<Longrightarrow> f y = f x"
  shows "map_option f (List.find P xs) = Some (f x)"
proof (cases "List.find P xs")
  case None
  with assms(1,2) show ?thesis by (auto simp: find_None_iff)
next
  case (Some y)
  from unique [of y] find_SomeD [OF Some] Some show ?thesis by simp
qed

end
