(* ===== verification/PyStr.thy ===== *)
theory PyStr
  imports Prelude
begin

text \<open>
  The methods of Python's \<^verbatim>\<open>str\<close> the tools call, on the code points
  U+0000 to U+00FF: character classes, \<^verbatim>\<open>startswith\<close>,
  \<^verbatim>\<open>find\<close>, \<^verbatim>\<open>count\<close>, \<^verbatim>\<open>strip\<close>,
  \<^verbatim>\<open>split\<close>, \<^verbatim>\<open>splitlines\<close> and
  \<^verbatim>\<open>replace\<close>. A search that returns \<^verbatim>\<open>-1\<close> in Python
  returns \<^const>\<open>None\<close> here.
\<close>


section \<open>Character classes\<close>

abbreviation DIGITS :: string where "DIGITS \<equiv> ''0123456789''"
abbreviation LOWER :: string where "LOWER \<equiv> ''abcdefghijklmnopqrstuvwxyz''"
abbreviation UPPER :: string where "UPPER \<equiv> ''ABCDEFGHIJKLMNOPQRSTUVWXYZ''"

definition is_digit09 :: "char \<Rightarrow> bool" where "is_digit09 c \<longleftrightarrow> c \<in> set DIGITS"
definition is_lower :: "char \<Rightarrow> bool" where "is_lower c \<longleftrightarrow> c \<in> set LOWER"
definition is_upper :: "char \<Rightarrow> bool" where "is_upper c \<longleftrightarrow> c \<in> set UPPER"

text \<open>\<^verbatim>\<open>str.isspace\<close>, and \<^verbatim>\<open>\s\<close> of \<^verbatim>\<open>re\<close>:
  TAB to CR, FS to US, blank, NEL and NBSP.\<close>

definition is_space :: "char \<Rightarrow> bool" where
  "is_space c \<longleftrightarrow> c \<in> {SP, LF, TAB, CR, VT, FF, CHR 0x1C, CHR 0x1D, CHR 0x1E, CHR 0x1F, CHR 0x85, CHR 0xA0}"

text \<open>\<^verbatim>\<open>str.isdigit\<close>: the decimal digits and the superscripts 1, 2, 3.\<close>

definition is_digit :: "char \<Rightarrow> bool" where
  "is_digit c \<longleftrightarrow> is_digit09 c \<or> c \<in> {CHR 0xB2, CHR 0xB3, CHR 0xB9}"

text \<open>The letters of the upper half: feminine and masculine ordinal, micro sign, and U+00C0
  to U+00FF without the multiplication and division signs.\<close>

definition is_latin_letter :: "char \<Rightarrow> bool" where
  "is_latin_letter c \<longleftrightarrow> c \<in> {CHR 0xAA, CHR 0xB5, CHR 0xBA} \<or>
     (192 \<le> (of_char c :: nat) \<and> c \<noteq> CHR 0xD7 \<and> c \<noteq> CHR 0xF7)"

text \<open>\<^verbatim>\<open>str.isalnum\<close>: letters, digits, and the vulgar fractions.\<close>

definition is_alnum :: "char \<Rightarrow> bool" where
  "is_alnum c \<longleftrightarrow> is_lower c \<or> is_upper c \<or> is_digit c \<or> c \<in> {CHR 0xBC, CHR 0xBD, CHR 0xBE} \<or> is_latin_letter c"

text \<open>The class \<^verbatim>\<open>[A-Za-z0-9_]\<close> and its start \<^verbatim>\<open>[A-Za-z_]\<close>.\<close>

definition ident_start :: "char \<Rightarrow> bool" where
  "ident_start c \<longleftrightarrow> is_lower c \<or> is_upper c \<or> c = CHR ''_''"

definition ident_char :: "char \<Rightarrow> bool" where
  "ident_char c \<longleftrightarrow> ident_start c \<or> is_digit09 c"

text \<open>\<^verbatim>\<open>\w\<close> of \<^verbatim>\<open>re\<close> on \<^verbatim>\<open>str\<close> patterns.\<close>

definition word_char :: "char \<Rightarrow> bool" where
  "word_char c \<longleftrightarrow> is_alnum c \<or> c = CHR ''_''"

definition blank_char :: "char \<Rightarrow> bool" where
  "blank_char c \<longleftrightarrow> c = SP \<or> c = TAB"

text \<open>The classes on the bits of a character, for evaluation.\<close>

lemma char_class_codes [code]:
  "is_digit09 (Char b0 b1 b2 b3 b4 b5 b6 b7) \<longleftrightarrow> \<not> b7 \<and> \<not> b6 \<and> b5 \<and> b4 \<and> (\<not> b3 \<or> \<not> b2 \<and> \<not> b1)"
  "is_lower (Char b0 b1 b2 b3 b4 b5 b6 b7) \<longleftrightarrow> \<not> b7 \<and> b6 \<and> b5 \<and> (b4 \<or> b3 \<or> b2 \<or> b1 \<or> b0) \<and> (\<not> b4 \<or> \<not> b3 \<or> \<not> b2 \<and> \<not> (b1 \<and> b0))"
  "is_upper (Char b0 b1 b2 b3 b4 b5 b6 b7) \<longleftrightarrow> \<not> b7 \<and> b6 \<and> \<not> b5 \<and> (b4 \<or> b3 \<or> b2 \<or> b1 \<or> b0) \<and> (\<not> b4 \<or> \<not> b3 \<or> \<not> b2 \<and> \<not> (b1 \<and> b0))"
  by (cases b7; cases b6; cases b5; cases b4; cases b3; cases b2; cases b1; cases b0;
      simp add: is_digit09_def is_lower_def is_upper_def)+

lemma space_codes [code]:
  "is_space (Char b0 b1 b2 b3 b4 b5 b6 b7) \<longleftrightarrow> \<not> b6 \<and>
     (if b7 then b5 \<and> \<not> b4 \<and> \<not> b3 \<and> \<not> b2 \<and> \<not> b1 \<and> \<not> b0 \<or> \<not> b5 \<and> \<not> b4 \<and> \<not> b3 \<and> b2 \<and> \<not> b1 \<and> b0
      else if b5 then \<not> b4 \<and> \<not> b3 \<and> \<not> b2 \<and> \<not> b1 \<and> \<not> b0
      else b3 \<and> (if b4 then b2 else if b2 then \<not> b1 else b1 \<or> b0))"
  by (cases b7; cases b6; cases b5; cases b4; cases b3; cases b2; cases b1; cases b0; simp add: is_space_def)

lemma alnum_codes [code]:
  "is_alnum (Char b0 b1 b2 b3 b4 b5 b6 b7) \<longleftrightarrow>
     (let c = Char b0 b1 b2 b3 b4 b5 b6 b7 in
      if b7 then c \<in> {CHR 0xB2, CHR 0xB3, CHR 0xB9, CHR 0xBC, CHR 0xBD, CHR 0xBE} \<or> is_latin_letter c
      else is_lower c \<or> is_upper c \<or> is_digit09 c)"
  by (cases b7; simp add: is_alnum_def is_digit_def char_class_codes is_latin_letter_def Let_def)

lemmas char_class_defs = is_digit09_def is_lower_def is_upper_def is_space_def ident_start_def
  ident_char_def blank_char_def

lemma ident_start_ident_char [simp]: "ident_start c \<Longrightarrow> ident_char c"
  by (simp add: ident_char_def)

lemma space_not_ident [simp]: "is_space c \<Longrightarrow> \<not> ident_char c"
  unfolding char_class_defs by (elim insertE emptyE) simp_all

lemma blank_is_space: "blank_char c \<Longrightarrow> is_space c"
  by (auto simp: blank_char_def is_space_def)


section \<open>startswith\<close>

text \<open>\<^verbatim>\<open>s.startswith(p, i)\<close> for a non-empty \<open>p\<close>.\<close>

definition startswith_at :: "string \<Rightarrow> string \<Rightarrow> nat \<Rightarrow> bool" where
  "startswith_at s p i \<longleftrightarrow> take (length p) (drop i s) = p"

lemma startswith_at_single: "startswith_at s [c] i \<longleftrightarrow> i < length s \<and> s ! i = c"
  by (cases "i < length s") (auto simp: startswith_at_def take_Suc hd_drop_conv_nth)

lemma startswith_at_nth: "startswith_at s p i \<Longrightarrow> k < length p \<Longrightarrow> s ! (i + k) = p ! k"
proof -
  assume h: "startswith_at s p i" "k < length p"
  then have len: "i + length p \<le> length s"
    by (metis startswith_at_def length_drop length_take min.cobounded1 min_def le_diff_conv2
        add.commute nat_le_linear not_less diff_is_0_eq le_zero_eq)
  from h have "take (length p) (drop i s) ! k = p ! k" by (simp add: startswith_at_def)
  then show ?thesis using h(2) len by simp
qed

lemma startswith_at_length [bounds]: "startswith_at s p i \<Longrightarrow> p \<noteq> [] \<Longrightarrow> i + length p \<le> length s"
proof -
  assume h: "startswith_at s p i" "p \<noteq> []"
  have "length p = min (length p) (length s - i)"
    using h(1) unfolding startswith_at_def by (metis length_drop length_take min.commute)
  with h(2) show ?thesis by (cases "i \<le> length s") auto
qed

lemma startswith_at_conv:
  "startswith_at s p i \<longleftrightarrow> (p = [] \<or> i + length p \<le> length s \<and> (\<forall>k < length p. s ! (i + k) = p ! k))"
proof (cases "p = []")
  case False
  have "i + length p \<le> length s \<Longrightarrow> (\<forall>k < length p. s ! (i + k) = p ! k) \<Longrightarrow> startswith_at s p i"
    unfolding startswith_at_def by (rule nth_equalityI) auto
  with False show ?thesis using startswith_at_length startswith_at_nth by blast
qed (simp add: startswith_at_def)

lemma startswith_at_shift [shift_simps]:
  "startswith_at (q @ s) p (length q + i) = startswith_at s p i"
  by (simp add: startswith_at_def)

lemma startswith_at_slice: "startswith_at s p i \<Longrightarrow> slice s i (i + length p) = p"
  by (simp add: startswith_at_def slice_def)

definition starts_with :: "string \<Rightarrow> string \<Rightarrow> bool" where
  "starts_with s p \<longleftrightarrow> take (length p) s = p"

definition ends_with :: "string \<Rightarrow> string \<Rightarrow> bool" where
  "ends_with s p \<longleftrightarrow> length p \<le> length s \<and> drop (length s - length p) s = p"

lemma starts_with_iff: "starts_with s p \<longleftrightarrow> (\<exists>t. s = p @ t)"
  unfolding starts_with_def by (metis append_eq_conv_conj append_take_drop_id)

lemma ends_with_iff: "ends_with s p \<longleftrightarrow> (\<exists>t. s = t @ p)"
proof
  assume "ends_with s p"
  then have "drop (length s - length p) s = p" by (simp add: ends_with_def)
  then show "\<exists>t. s = t @ p" by (metis append_take_drop_id)
qed (auto simp: ends_with_def)


section \<open>find\<close>

text \<open>\<^verbatim>\<open>s.find(p, i, n)\<close>: the least \<open>k \<ge> i\<close> where \<open>p\<close> occurs with its end at
  most \<open>n\<close>.\<close>

function find_in :: "string \<Rightarrow> string \<Rightarrow> nat \<Rightarrow> nat \<Rightarrow> nat option" where
  "find_in s p i n =
     (if n < i + length p then None
      else if startswith_at s p i then Some i
      else find_in s p (Suc i) n)"
  by pat_completeness auto
termination by (relation "measure (\<lambda>(s, p, i, n). Suc n - i)") auto

declare find_in.simps [simp del]

definition find_at :: "string \<Rightarrow> string \<Rightarrow> nat \<Rightarrow> nat option" where
  "find_at s p i = find_in s p i (length s)"

lemma find_in_Some:
  "find_in s p i n = Some k \<Longrightarrow>
     i \<le> k \<and> k + length p \<le> n \<and> startswith_at s p k \<and> (\<forall>j. i \<le> j \<and> j < k \<longrightarrow> \<not> startswith_at s p j)"
proof (induction s p i n rule: find_in.induct)
  case (1 s p i n)
  from "1.prems" consider (here) "n \<ge> i + length p" "startswith_at s p i" "k = i"
    | (later) "n \<ge> i + length p" "\<not> startswith_at s p i" "find_in s p (Suc i) n = Some k"
    by (subst (asm) find_in.simps) (auto split: if_splits)
  then show ?case
  proof cases
    case later
    then have "Suc i \<le> k \<and> k + length p \<le> n \<and> startswith_at s p k \<and>
        (\<forall>j. Suc i \<le> j \<and> j < k \<longrightarrow> \<not> startswith_at s p j)"
      using "1.IH" by simp
    with later(2) show ?thesis by (metis Suc_leD le_antisym not_less_eq_eq)
  qed auto
qed

lemma find_in_None:
  "find_in s p i n = None \<Longrightarrow> i \<le> j \<Longrightarrow> j + length p \<le> n \<Longrightarrow> \<not> startswith_at s p j"
proof (induction s p i n rule: find_in.induct)
  case (1 s p i n)
  from "1.prems"(2,3) have "\<not> n < i + length p" by simp
  with "1.prems"(1) have "\<not> startswith_at s p i" "find_in s p (Suc i) n = None"
    by (subst (asm) find_in.simps, simp split: if_splits)+
  with "1.IH" "1.prems" \<open>\<not> n < i + length p\<close> show ?case
    by (metis le_antisym not_less_eq_eq)
qed

lemma find_in_eq_SomeI:
  "i \<le> k \<Longrightarrow> k + length p \<le> n \<Longrightarrow> startswith_at s p k \<Longrightarrow>
     (\<And>j. i \<le> j \<Longrightarrow> j < k \<Longrightarrow> \<not> startswith_at s p j) \<Longrightarrow> find_in s p i n = Some k"
  by (metis find_in_None find_in_Some linorder_less_linear option.exhaust)

lemma find_in_eq_NoneI:
  "(\<And>j. i \<le> j \<Longrightarrow> j + length p \<le> n \<Longrightarrow> \<not> startswith_at s p j) \<Longrightarrow> find_in s p i n = None"
  by (metis find_in_Some not_None_eq)

lemma find_in_bounds [bounds]: "find_in s p i n = Some k \<Longrightarrow> i \<le> k" "find_in s p i n = Some k \<Longrightarrow> k + length p \<le> n"
  by (auto dest: find_in_Some)

lemma find_in_char:
  "find_in s [c] i n = Some k \<Longrightarrow> i \<le> k \<and> k < n \<and> k < length s \<and> s ! k = c \<and> (\<forall>j. i \<le> j \<and> j < k \<longrightarrow> s ! j \<noteq> c)"
  by (drule find_in_Some) (auto simp: startswith_at_single)

lemma find_in_shift [shift_simps]:
  "find_in (q @ s) p (length q + i) (length q + n) = map_option ((+) (length q)) (find_in s p i n)"
proof (induction s p i n rule: find_in.induct)
  case (1 s p i n)
  then show ?case
    by (subst find_in.simps, subst (2) find_in.simps) (simp add: shift_simps)
qed

lemma find_at_shift [shift_simps]:
  "find_at (q @ s) p (length q + i) = map_option ((+) (length q)) (find_at s p i)"
  by (simp add: find_at_def shift_simps)

text \<open>The search on the rest of the text, for evaluation.\<close>

fun find_from :: "string \<Rightarrow> string \<Rightarrow> nat \<Rightarrow> nat \<Rightarrow> nat option" where
  "find_from t p i n =
     (if n < i + length p then None
      else if starts_with t p then Some i
      else case t of [] \<Rightarrow> None | _ # t' \<Rightarrow> find_from t' p (Suc i) n)"

declare find_from.simps [simp del]

lemma find_in_code [code]: "find_in s p i n = find_from (drop i s) p i n"
proof (induction s p i n rule: find_in.induct)
  case (1 s p i n)
  have here: "startswith_at s p i \<longleftrightarrow> starts_with (drop i s) p" by (simp add: startswith_at_def starts_with_def)
  show ?case
  proof (cases "n < i + length p \<or> startswith_at s p i")
    case True
    then show ?thesis by (subst find_in.simps, subst find_from.simps) (auto simp: here)
  next
    case False
    show ?thesis
    proof (cases "drop i s")
      case Nil
      then have "\<not> startswith_at s p k" if "i \<le> k" for k
        using False that by (auto simp: startswith_at_def)
      then have "find_in s p i n = None" by (intro find_in_eq_NoneI) simp
      with False Nil show ?thesis by (subst find_from.simps) (simp add: here)
    next
      case (Cons c t)
      then have "drop (Suc i) s = t" by (metis drop_Suc list.sel(3) tl_drop)
      with False Cons 1 show ?thesis by (subst find_in.simps, subst find_from.simps) (simp add: here)
    qed
  qed
qed

text \<open>\<^verbatim>\<open>e = s.find("\n", i, n); e = n if e < 0 else e\<close>: the end of the line at \<open>i\<close>.\<close>

definition line_end :: "string \<Rightarrow> nat \<Rightarrow> nat \<Rightarrow> nat" where
  "line_end s i n = (case find_in s [LF] i n of None \<Rightarrow> n | Some e \<Rightarrow> e)"

lemma line_end_le [bounds]: "line_end s i n \<le> n"
  by (auto simp: line_end_def split: option.splits dest: find_in_char)

lemma line_end_ge [bounds]: "i \<le> n \<Longrightarrow> i \<le> line_end s i n"
  by (auto simp: line_end_def split: option.splits dest: find_in_char)

lemma line_end_no_LF: "i \<le> j \<Longrightarrow> j < line_end s i n \<Longrightarrow> j < length s \<Longrightarrow> s ! j \<noteq> LF"
  by (auto simp: line_end_def startswith_at_single split: option.splits dest: find_in_char find_in_None [of _ _ _ _ j])

lemma line_end_at: "line_end s i n < n \<Longrightarrow> line_end s i n < length s \<and> s ! line_end s i n = LF"
  by (auto simp: line_end_def split: option.splits dest: find_in_char)

lemma line_end_gt [bounds]: "i < n \<Longrightarrow> s ! i \<noteq> LF \<Longrightarrow> i < line_end s i n"
  by (auto simp: line_end_def split: option.splits dest!: find_in_char intro: le_neq_trans)

lemma line_end_shift [shift_simps]:
  "line_end (q @ s) (length q + i) (length q + n) = length q + line_end s i n"
  by (simp add: line_end_def shift_simps split: option.split)


section \<open>count and line numbers\<close>

text \<open>\<^verbatim>\<open>src.count("\n", 0, pos) + 1\<close>: the line a position is on.\<close>

definition line_at :: "string \<Rightarrow> nat \<Rightarrow> nat" where
  "line_at s pos = count_list (take pos s) LF + 1"

lemma line_at_pos [bounds]: "1 \<le> line_at s pos"
  by (simp add: line_at_def)

lemma line_at_mono: "i \<le> j \<Longrightarrow> line_at s i \<le> line_at s j"
  unfolding line_at_def
  by (metis add_le_mono1 count_list_append le_add1 le_add_diff_inverse take_add)


section \<open>strip, split, splitlines, replace\<close>

definition strip_ws :: "string \<Rightarrow> string" where
  "strip_ws s = rev (dropWhile is_space (rev (dropWhile is_space s)))"

definition lstrip_ws :: "string \<Rightarrow> string" where
  "lstrip_ws s = dropWhile is_space s"

lemma strip_ws_Nil_iff: "strip_ws s = [] \<longleftrightarrow> (\<forall>c \<in> set s. is_space c)"
  unfolding strip_ws_def
  by (simp add: dropWhile_eq_Nil_conv) (metis UnCI set_append set_dropWhileD set_takeWhileD takeWhile_dropWhile_id Un_iff)

text \<open>Cutting at every character that satisfies a predicate; \<^verbatim>\<open>s.split(d)\<close>
  for a one-character separator, and \<^verbatim>\<open>s.split()\<close>.\<close>

fun split_by :: "(char \<Rightarrow> bool) \<Rightarrow> string \<Rightarrow> string list" where
  "split_by P [] = [[]]"
| "split_by P (c # cs) =
     (if P c then [] # split_by P cs
      else case split_by P cs of [] \<Rightarrow> [[c]] | w # ws \<Rightarrow> (c # w) # ws)"

definition split_char :: "char \<Rightarrow> string \<Rightarrow> string list" where
  "split_char d = split_by ((=) d)"

definition split_ws :: "string \<Rightarrow> string list" where
  "split_ws s = filter (\<lambda>w. w \<noteq> []) (split_by is_space s)"

lemma split_by_not_Nil [simp]: "split_by P s \<noteq> []"
  by (cases s) (auto split: list.splits)

lemma split_by_Cons: "split_by P s = hd (split_by P s) # tl (split_by P s)"
  by simp

lemma hd_split_by: "hd (split_by P s) = takeWhile (\<lambda>c. \<not> P c) s"
  by (induction s) (auto split: list.splits)

lemma split_by_all_clean: "\<forall>w \<in> set (split_by P s). \<forall>c \<in> set w. \<not> P c"
proof (induction s)
  case (Cons a s)
  then show ?case by (cases "split_by P s") auto
qed simp

lemma split_by_clean: "w \<in> set (split_by P s) \<Longrightarrow> c \<in> set w \<Longrightarrow> \<not> P c"
  using split_by_all_clean by blast

lemma split_by_no_sep: "(\<forall>c \<in> set s. \<not> P c) \<Longrightarrow> split_by P s = [s]"
  by (induction s) auto

lemma split_by_append_sep: "P d \<Longrightarrow> (\<forall>c \<in> set w. \<not> P c) \<Longrightarrow> split_by P (w @ d # s) = w # split_by P s"
  by (induction w) auto

lemma split_ws_clean: "w \<in> set (split_ws s) \<Longrightarrow> w \<noteq> [] \<and> (\<forall>c \<in> set w. \<not> is_space c)"
  by (auto simp: split_ws_def dest: split_by_clean)

text \<open>\<^verbatim>\<open>str.splitlines\<close>: LF, CR, CRLF, VT, FF, FS, GS, RS and NEL end a
  line, and a final line end opens no empty line.\<close>

definition line_break :: "char \<Rightarrow> bool" where
  "line_break c \<longleftrightarrow> c \<in> {LF, CR, VT, FF, CHR 0x1C, CHR 0x1D, CHR 0x1E, CHR 0x85}"

fun splitlines :: "string \<Rightarrow> string list" where
  "splitlines [] = []"
| "splitlines (c # cs) =
     (if c = CR then (case cs of [] \<Rightarrow> [[]] | d # ds \<Rightarrow> [] # (if d = LF then splitlines ds else splitlines cs))
      else if line_break c then [] # splitlines cs
      else case splitlines cs of [] \<Rightarrow> [[c]] | w # ws \<Rightarrow> (c # w) # ws)"

lemma splitlines_eqs:
  "splitlines [CR] = [[]]"
  "splitlines (CR # LF # ds) = [] # splitlines ds"
  "d \<noteq> LF \<Longrightarrow> splitlines (CR # d # ds) = [] # splitlines (d # ds)"
  "c \<noteq> CR \<Longrightarrow> line_break c \<Longrightarrow> splitlines (c # cs) = [] # splitlines cs"
  "\<not> line_break c \<Longrightarrow> splitlines (c # cs) =
     (case splitlines cs of [] \<Rightarrow> [[c]] | w # ws \<Rightarrow> (c # w) # ws)"
  by (auto simp: line_break_def)

declare splitlines.simps(2) [simp del]

lemma splitlines_all_clean: "\<forall>w \<in> set (splitlines s). \<forall>c \<in> set w. \<not> line_break c"
proof (induction s rule: length_induct)
  case (1 s)
  then have IH: "length t < length s \<Longrightarrow> \<forall>w \<in> set (splitlines t). \<forall>c \<in> set w. \<not> line_break c" for t
    by blast
  show ?case
  proof (cases s)
    case s: (Cons c cs)
    consider (eof) "s = [CR]" | (crlf) ds where "s = CR # LF # ds"
      | (cr) d ds where "s = CR # d # ds" "d \<noteq> LF"
      | (brk) "c \<noteq> CR" "line_break c" | (other) "\<not> line_break c"
      using s by (cases cs) (auto simp: line_break_def)
    then show ?thesis
    proof cases
      case other
      then show ?thesis using IH [of cs] s by (cases "splitlines cs") (auto simp: splitlines_eqs)
    next
      case (crlf ds)
      then show ?thesis using IH [of ds] by (simp add: splitlines_eqs)
    next
      case (cr d ds)
      then show ?thesis using IH [of "d # ds"] by (simp add: splitlines_eqs)
    qed (use IH [of cs] s in \<open>simp_all add: splitlines_eqs\<close>)
  qed simp
qed

lemma splitlines_clean: "w \<in> set (splitlines s) \<Longrightarrow> c \<in> set w \<Longrightarrow> \<not> line_break c"
  using splitlines_all_clean by blast

text \<open>\<^verbatim>\<open>s.replace(old, new)\<close> for a non-empty \<open>old\<close>: leftmost occurrences first, no overlap.\<close>

function replace_str :: "string \<Rightarrow> string \<Rightarrow> string \<Rightarrow> string" where
  "replace_str old new s =
     (case s of [] \<Rightarrow> []
      | c # cs \<Rightarrow>
          if old \<noteq> [] \<and> take (length old) s = old then new @ replace_str old new (drop (length old) s)
          else c # replace_str old new cs)"
  by pat_completeness auto
termination by (relation "measure (\<lambda>(old, new, s). length s)") auto

declare replace_str.simps [simp del]

lemma replace_str_simps [simp]:
  "replace_str old new [] = []"
  "replace_str [d] new (c # cs) = (if c = d then new @ replace_str [d] new cs else c # replace_str [d] new cs)"
  by (subst replace_str.simps, simp)+

lemma replace_str_char_absent: "d \<notin> set new \<Longrightarrow> d \<notin> set (replace_str [d] new s)"
  by (induction s) auto

text \<open>\<^verbatim>\<open>sep.join(parts)\<close>.\<close>

fun join_with :: "string \<Rightarrow> string list \<Rightarrow> string" where
  "join_with sep [] = []"
| "join_with sep [w] = w"
| "join_with sep (w # ws) = w @ sep @ join_with sep ws"

section \<open>Decimal numbers and paths\<close>

text \<open>\<^verbatim>\<open>str(n)\<close> of a non-negative integer.\<close>

definition digit_char :: "nat \<Rightarrow> char" where
  "digit_char d = DIGITS ! d"

fun dec_nat :: "nat \<Rightarrow> string" where
  "dec_nat n = (if n < 10 then [digit_char n] else dec_nat (n div 10) @ [digit_char (n mod 10)])"

declare dec_nat.simps [simp del]

lemma digit_char_digit: "d < 10 \<Longrightarrow> is_digit09 (digit_char d)"
  by (simp add: digit_char_def is_digit09_def less_Suc_eq numeral_eq_Suc) (elim disjE; simp)

lemma dec_nat_digits: "\<forall>c \<in> set (dec_nat n). is_digit09 c"
proof (induction n rule: dec_nat.induct)
  case (1 n)
  then show ?case by (subst dec_nat.simps) (auto intro: digit_char_digit)
qed

lemma dec_nat_not_Nil [simp]: "dec_nat n \<noteq> []"
  by (subst dec_nat.simps) simp

text \<open>The value a string of decimal digits spells.\<close>

definition digit_value :: "char \<Rightarrow> nat" where
  "digit_value c = of_char c - 48"

definition dec_value :: "string \<Rightarrow> nat" where
  "dec_value s = foldl (\<lambda>n c. 10 * n + digit_value c) 0 s"

lemma digit_value_char: "d < 10 \<Longrightarrow> digit_value (digit_char d) = d"
  by (simp add: digit_char_def digit_value_def less_Suc_eq numeral_eq_Suc) (elim disjE; simp)

lemma dec_value_dec_nat: "dec_value (dec_nat n) = n"
proof (induction n rule: dec_nat.induct)
  case (1 n)
  then show ?case
    by (subst dec_nat.simps) (auto simp: dec_value_def digit_value_char)
qed

lemma dec_nat_inj: "dec_nat m = dec_nat n \<Longrightarrow> m = n"
  by (metis dec_value_dec_nat)

text \<open>\<^verbatim>\<open>os.path.join(a, b)\<close> on POSIX.\<close>

definition path_join :: "string \<Rightarrow> string \<Rightarrow> string" where
  "path_join a b =
     (if starts_with b ''/'' then b
      else if a = [] \<or> ends_with a ''/'' then a @ b
      else a @ ''/'' @ b)"

section \<open>Texts taken apart again\<close>

lemma line_break_is_space: "line_break c \<Longrightarrow> is_space c"
  by (auto simp: line_break_def is_space_def)

lemma splitlines_append_LF:
  "(\<forall>c \<in> set w. \<not> line_break c) \<Longrightarrow> splitlines (w @ LF # s) = w # splitlines s"
  by (induction w) (simp_all add: splitlines_eqs line_break_def)

lemma splitlines_unlines:
  "(\<And>w. w \<in> set ws \<Longrightarrow> \<forall>c \<in> set w. \<not> line_break c) \<Longrightarrow>
     splitlines (concat (map (\<lambda>w. w @ [LF]) ws)) = ws"
proof (induction ws)
  case (Cons w ws)
  then have "\<forall>c \<in> set w. \<not> line_break c" "splitlines (concat (map (\<lambda>w. w @ [LF]) ws)) = ws" by auto
  then show ?case by (simp add: splitlines_append_LF)
qed simp

lemma strip_ws_id: "s \<noteq> [] \<Longrightarrow> \<not> is_space (hd s) \<Longrightarrow> \<not> is_space (last s) \<Longrightarrow> strip_ws s = s"
proof -
  assume s: "s \<noteq> []" "\<not> is_space (hd s)" "\<not> is_space (last s)"
  have id: "\<not> is_space (hd xs) \<Longrightarrow> dropWhile is_space xs = xs" for xs by (cases xs) auto
  from s show "strip_ws s = s" by (simp add: strip_ws_def id hd_rev)
qed

lemma split_ws_single: "w \<noteq> [] \<Longrightarrow> (\<forall>c \<in> set w. \<not> is_space c) \<Longrightarrow> split_ws w = [w]"
  by (simp add: split_ws_def split_by_no_sep)

lemma split_ws_Cons:
  "w \<noteq> [] \<Longrightarrow> (\<forall>c \<in> set w. \<not> is_space c) \<Longrightarrow> is_space d \<Longrightarrow> split_ws (w @ d # s) = w # split_ws s"
  by (simp add: split_ws_def split_by_append_sep)


section \<open>Text beyond the first 256 code points\<close>

text \<open>Values a tool computes from escapes or UTF-8 are lists of code points.\<close>

type_synonym codepoints = "nat list"

definition ascii :: "string \<Rightarrow> codepoints" where
  "ascii s = map of_char s"

fun split_on :: "'a \<Rightarrow> 'a list \<Rightarrow> 'a list list" where
  "split_on d [] = [[]]"
| "split_on d (c # cs) =
     (if c = d then [] # split_on d cs
      else case split_on d cs of [] \<Rightarrow> [[c]] | w # ws \<Rightarrow> (c # w) # ws)"

fun join_on :: "'a \<Rightarrow> 'a list list \<Rightarrow> 'a list" where
  "join_on d [] = []"
| "join_on d [w] = w"
| "join_on d (w # ws) = w @ d # join_on d ws"

lemma split_on_not_Nil [simp]: "split_on d s \<noteq> []"
  by (cases s) (auto split: list.splits)

lemma split_on_append: "d \<notin> set w \<Longrightarrow> split_on d (w @ d # s) = w # split_on d s"
  by (induction w) auto

lemma split_on_no_sep: "d \<notin> set w \<Longrightarrow> split_on d w = [w]"
  by (induction w) auto

lemma split_on_clean: "w \<in> set (split_on d s) \<Longrightarrow> d \<notin> set w"
proof (induction s arbitrary: w)
  case (Cons a s)
  then show ?case by (cases "split_on d s") (auto split: if_splits)
qed simp

lemma join_on_Cons: "ws \<noteq> [] \<Longrightarrow> join_on d (w # ws) = w @ d # join_on d ws"
  by (cases ws) auto

lemma split_join_on: "ws \<noteq> [] \<Longrightarrow> (\<forall>w \<in> set ws. d \<notin> set w) \<Longrightarrow> split_on d (join_on d ws) = ws"
proof (induction ws)
  case (Cons w ws)
  then show ?case by (cases "ws = []") (auto simp: join_on_Cons split_on_append split_on_no_sep)
qed simp

text \<open>\<^verbatim>\<open>int(s, base)\<close> of digits, and \<^verbatim>\<open>s.replace("_", "")\<close>.\<close>

definition HEX :: string where "HEX = ''0123456789abcdefABCDEF''"

definition hexit :: "char \<Rightarrow> nat" where
  "hexit c = (if is_digit09 c then of_char c - 48 else if is_lower c then of_char c - 87 else of_char c - 55)"

definition int_base :: "nat \<Rightarrow> string \<Rightarrow> nat" where
  "int_base b s = foldl (\<lambda>n c. b * n + hexit c) 0 s"

end
