(* ===== verification/PyRe.thy ===== *)
theory PyRe
  imports PyStr
begin

text \<open>
  The part of Python's \<^verbatim>\<open>re\<close> the tools use: the pattern constructs of their
  regular expressions as a datatype, the backtracking matcher as the list of all ways to
  match in the engine's order of preference (so its head is what the engine returns), and
  \<^verbatim>\<open>match\<close>, \<^verbatim>\<open>search\<close>, \<^verbatim>\<open>fullmatch\<close>,
  \<^verbatim>\<open>finditer\<close> and \<^verbatim>\<open>findall\<close> over it.
\<close>


section \<open>Patterns\<close>

text \<open>
  \<open>Cls P\<close> is one character of a class; \<open>Star\<close> is greedy and \<open>LStar\<close> lazy; \<open>Grp k\<close> captures
  group \<open>k\<close>; \<open>Behind b P\<close> asks whether the character before the position exists and is in \<open>P\<close>
  (\<open>b\<close> true: \<^verbatim>\<open>(?<=..)\<close>, false: \<^verbatim>\<open>(?<!..)\<close>); \<open>Ahead b r\<close> is
  the lookahead on a pattern; \<open>Bol\<close> and \<open>Eol\<close> are \<^verbatim>\<open>^\<close> and \<^verbatim>\<open>$\<close>
  under \<^verbatim>\<open>re.M\<close>; \<open>End\<close> is \<^verbatim>\<open>$\<close> without it.
\<close>

datatype rx =
    Eps
  | Cls "char \<Rightarrow> bool"
  | Seq rx rx
  | Alt rx rx
  | Star rx
  | LStar rx
  | Grp nat rx
  | Behind bool "char \<Rightarrow> bool"
  | Ahead bool rx
  | Bol
  | Eol
  | End

type_synonym groups = "(nat \<times> nat \<times> nat) list"

text \<open>One more round of a greedy (or lazy) repetition: each way to match the body that moved
  forward is continued, and stopping here is the last (first) resort.\<close>

fun star_m :: "bool \<Rightarrow> nat \<Rightarrow> (nat \<Rightarrow> groups \<Rightarrow> (nat \<times> groups) list) \<Rightarrow> nat \<Rightarrow> groups \<Rightarrow> (nat \<times> groups) list" where
  "star_m greedy 0 f i g = [(i, g)]"
| "star_m greedy (Suc k) f i g =
     (let more = concat (map (\<lambda>(j, h). if i < j then star_m greedy k f j h else []) (f i g))
      in if greedy then more @ [(i, g)] else (i, g) # more)"

text \<open>
  \<open>rx_m r s n i g\<close>: all ways \<open>r\<close> matches \<open>s\<close> at \<open>i\<close> with the text cut at \<open>n\<close>
  (\<^verbatim>\<open>endpos\<close>), each with its end and groups, in the engine's order.
\<close>

primrec rx_m :: "rx \<Rightarrow> string \<Rightarrow> nat \<Rightarrow> nat \<Rightarrow> groups \<Rightarrow> (nat \<times> groups) list" where
  "rx_m Eps s n i g = [(i, g)]"
| "rx_m (Cls P) s n i g = (if i < n \<and> P (s ! i) then [(Suc i, g)] else [])"
| "rx_m (Seq a b) s n i g = concat (map (\<lambda>(j, h). rx_m b s n j h) (rx_m a s n i g))"
| "rx_m (Alt a b) s n i g = rx_m a s n i g @ rx_m b s n i g"
| "rx_m (Star r) s n i g = star_m True (n - i) (rx_m r s n) i g"
| "rx_m (LStar r) s n i g = star_m False (n - i) (rx_m r s n) i g"
| "rx_m (Grp k r) s n i g = map (\<lambda>(j, h). (j, (k, i, j) # h)) (rx_m r s n i g)"
| "rx_m (Behind b P) s n i g = (if (0 < i \<and> P (s ! (i - 1))) = b then [(i, g)] else [])"
| "rx_m (Ahead b r) s n i g = (if (rx_m r s n i g \<noteq> []) = b then [(i, g)] else [])"
| "rx_m Bol s n i g = (if i = 0 \<or> s ! (i - 1) = LF then [(i, g)] else [])"
| "rx_m Eol s n i g = (if n \<le> i \<or> s ! i = LF then [(i, g)] else [])"
| "rx_m End s n i g = (if n \<le> i \<or> Suc i = n \<and> s ! i = LF then [(i, g)] else [])"

text \<open>Derived forms: literals, concatenations, \<^verbatim>\<open>r+\<close>, \<^verbatim>\<open>r?\<close> (greedy),
  alternations of words, \<^verbatim>\<open>\b\<close>.\<close>

definition Chr :: "char \<Rightarrow> rx" where "Chr c = Cls ((=) c)"

fun Seqs :: "rx list \<Rightarrow> rx" where
  "Seqs [] = Eps"
| "Seqs [r] = r"
| "Seqs (r # rs) = Seq r (Seqs rs)"

fun Alts :: "rx list \<Rightarrow> rx" where
  "Alts [] = Ahead False Eps"
| "Alts [r] = r"
| "Alts (r # rs) = Alt r (Alts rs)"

definition Lit :: "string \<Rightarrow> rx" where "Lit w = Seqs (map Chr w)"
definition Plus :: "rx \<Rightarrow> rx" where "Plus r = Seq r (Star r)"
definition Opt :: "rx \<Rightarrow> rx" where "Opt r = Alt r Eps"
definition Words :: "string list \<Rightarrow> rx" where "Words ws = Alts (map Lit ws)"

definition WordB :: rx where
  "WordB = Alt (Seq (Behind True word_char) (Ahead False (Cls word_char)))
               (Seq (Behind False word_char) (Ahead True (Cls word_char)))"


section \<open>match, search, finditer\<close>

record rmatch =
  m_start :: nat
  m_end :: nat
  m_groups :: groups

text \<open>The span of a group, and its text (\<^const>\<open>None\<close> for a group that took no part); the
  latest capture of a group is the one that counts.\<close>

definition group_span :: "rmatch \<Rightarrow> nat \<Rightarrow> (nat \<times> nat) option" where
  "group_span m k = map_of (m_groups m) k"

definition group_text :: "string \<Rightarrow> rmatch \<Rightarrow> nat \<Rightarrow> string option" where
  "group_text s m k = map_option (\<lambda>(a, b). slice s a b) (group_span m k)"

definition group_or_empty :: "string \<Rightarrow> rmatch \<Rightarrow> nat \<Rightarrow> string" where
  "group_or_empty s m k = (case group_text s m k of None \<Rightarrow> [] | Some t \<Rightarrow> t)"

definition as_match :: "nat \<Rightarrow> nat \<times> groups \<Rightarrow> rmatch" where
  "as_match i r = \<lparr>m_start = i, m_end = fst r, m_groups = snd r\<rparr>"

text \<open>\<^verbatim>\<open>pattern.match(s, i, n)\<close> and \<^verbatim>\<open>pattern.fullmatch(s)\<close>.\<close>

definition match_in :: "rx \<Rightarrow> string \<Rightarrow> nat \<Rightarrow> nat \<Rightarrow> rmatch option" where
  "match_in r s i n = (case rx_m r s n i [] of [] \<Rightarrow> None | x # _ \<Rightarrow> Some (as_match i x))"

definition fullmatch :: "rx \<Rightarrow> string \<Rightarrow> rmatch option" where
  "fullmatch r s =
     (case filter (\<lambda>x. fst x = length s) (rx_m r s (length s) 0 []) of
        [] \<Rightarrow> None | x # _ \<Rightarrow> Some (as_match 0 x))"

text \<open>
  The leftmost position from \<open>i\<close> on with a match. Where \<open>adv\<close> is \<open>Some i\<close> an empty match at
  \<open>i\<close> is not accepted: the engine takes its next preference there, or moves on.
\<close>

function search_adv :: "rx \<Rightarrow> string \<Rightarrow> nat option \<Rightarrow> nat \<Rightarrow> nat \<Rightarrow> rmatch option" where
  "search_adv r s adv i n =
     (if n < i then None
      else case filter (\<lambda>x. adv \<noteq> Some i \<or> i < fst x) (rx_m r s n i []) of
             x # _ \<Rightarrow> Some (as_match i x)
           | [] \<Rightarrow> search_adv r s adv (Suc i) n)"
  by pat_completeness auto
termination by (relation "measure (\<lambda>(r, s, adv, i, n). Suc n - i)") auto

declare search_adv.simps [simp del]

definition search_in :: "rx \<Rightarrow> string \<Rightarrow> nat \<Rightarrow> nat \<Rightarrow> rmatch option" where
  "search_in r s i n = search_adv r s None i n"

definition re_search :: "rx \<Rightarrow> string \<Rightarrow> rmatch option" where
  "re_search r s = search_in r s 0 (length s)"


text \<open>For evaluation the character is computed once, before the class is applied to it.\<close>

definition apply_class :: "(char \<Rightarrow> bool) \<Rightarrow> char \<Rightarrow> bool" where "apply_class P c = P c"

declare rx_m.simps(1,3-7,9-) [code]

lemma rx_m_Cls_code [code]: "rx_m (Cls P) s n i g = (if i < n \<and> apply_class P (s ! i) then [(Suc i, g)] else [])"
  by (simp add: apply_class_def)

lemma rx_m_Behind_code [code]: "rx_m (Behind b P) s n i g = (if (0 < i \<and> apply_class P (s ! (i - 1))) = b then [(i, g)] else [])"
  by (simp add: apply_class_def)


section \<open>Bounds of the matcher\<close>

lemma star_m_bounds:
  assumes "(j, h) \<in> set (star_m b k f i g)" and "\<And>i g j h. (j, h) \<in> set (f i g) \<Longrightarrow> i \<le> n \<Longrightarrow> j \<le> n"
    and "i \<le> n"
  shows "i \<le> j \<and> j \<le> n"
  using assms(1,3)
proof (induction k arbitrary: i g)
  case (Suc k)
  from Suc.prems(1) consider "j = i" | i' g' where "(i', g') \<in> set (f i g)" "i < i'" "(j, h) \<in> set (star_m b k f i' g')"
    by (auto simp: Let_def split: if_splits)
  then show ?case
  proof cases
    case 2
    with Suc.IH [of i' g'] assms(2) Suc.prems(2) show ?thesis by fastforce
  qed (use Suc.prems in simp)
qed simp

lemma rx_m_bounds: "(j, h) \<in> set (rx_m r s n i g) \<Longrightarrow> i \<le> n \<Longrightarrow> i \<le> j \<and> j \<le> n"
proof (induction r arbitrary: i g j h)
  case (Seq a b)
  then obtain k g' where "(k, g') \<in> set (rx_m a s n i g)" "(j, h) \<in> set (rx_m b s n k g')" by auto
  with Seq.IH Seq.prems(2) show ?case by (meson le_trans)
next
  case (Star r)
  from Star.prems(1) have "(j, h) \<in> set (star_m True (n - i) (rx_m r s n) i g)" by simp
  from star_m_bounds [OF this _ Star.prems(2)] Star.IH show ?case by blast
next
  case (LStar r)
  from LStar.prems(1) have "(j, h) \<in> set (star_m False (n - i) (rx_m r s n) i g)" by simp
  from star_m_bounds [OF this _ LStar.prems(2)] LStar.IH show ?case by blast
qed (auto split: if_splits)

lemma match_in_start [simp]: "match_in r s i n = Some m \<Longrightarrow> m_start m = i"
  by (auto simp: match_in_def as_match_def split: list.splits)

lemma match_in_mem: "match_in r s i n = Some m \<Longrightarrow> (m_end m, m_groups m) \<in> set (rx_m r s n i [])"
  by (cases "rx_m r s n i []") (auto simp: match_in_def as_match_def)

lemma match_in_bounds [bounds]: "match_in r s i n = Some m \<Longrightarrow> i \<le> n \<Longrightarrow> i \<le> m_end m"
  "match_in r s i n = Some m \<Longrightarrow> i \<le> n \<Longrightarrow> m_end m \<le> n"
  by (auto dest!: match_in_mem rx_m_bounds)

lemma search_adv_Some:
  "search_adv r s adv i n = Some m \<Longrightarrow>
     i \<le> m_start m \<and> m_start m \<le> n \<and> (m_end m, m_groups m) \<in> set (rx_m r s n (m_start m) []) \<and>
     (adv = Some (m_start m) \<longrightarrow> m_start m < m_end m) \<and>
     (\<forall>k. i \<le> k \<and> k < m_start m \<and> adv \<noteq> Some k \<longrightarrow> rx_m r s n k [] = [])"
proof (induction r s adv i n rule: search_adv.induct)
  case (1 r s adv i n)
  let ?l = "filter (\<lambda>x. adv \<noteq> Some i \<or> i < fst x) (rx_m r s n i [])"
  from "1.prems" have n: "\<not> n < i" by (subst (asm) search_adv.simps) (auto split: if_splits)
  show ?case
  proof (cases ?l)
    case Nil
    then have "search_adv r s adv (Suc i) n = Some m"
      using "1.prems" n by (subst (asm) search_adv.simps) simp
    note IH = "1.IH" [OF n Nil this]
    have "adv \<noteq> Some i \<longrightarrow> rx_m r s n i [] = []" using Nil by (auto simp: filter_empty_conv) (metis list.set_intros(1) neq_Nil_conv surj_pair)
    with IH show ?thesis by (metis Suc_leD le_antisym not_less_eq_eq)
  next
    case (Cons x xs)
    then have m: "m = as_match i x" using "1.prems" n by (subst (asm) search_adv.simps) simp
    have "x \<in> set ?l" using Cons by simp
    with m n show ?thesis by (auto simp: as_match_def)
  qed
qed

lemma search_adv_None:
  "search_adv r s adv i n = None \<Longrightarrow> i \<le> k \<Longrightarrow> k \<le> n \<Longrightarrow> adv \<noteq> Some k \<Longrightarrow> rx_m r s n k [] = []"
proof (induction r s adv i n rule: search_adv.induct)
  case (1 r s adv i n)
  from "1.prems"(2,3) have n: "\<not> n < i" by simp
  have nil: "filter (\<lambda>x. adv \<noteq> Some i \<or> i < fst x) (rx_m r s n i []) = []"
    and rest: "search_adv r s adv (Suc i) n = None"
    using "1.prems"(1) n by (subst (asm) search_adv.simps, simp split: list.splits)+
  show ?case
  proof (cases "k = i")
    case True
    with nil "1.prems"(4) show ?thesis by (auto simp: filter_empty_conv) (metis list.set_intros(1) neq_Nil_conv surj_pair)
  next
    case False
    with "1.IH" [OF n nil rest] "1.prems" show ?thesis by simp
  qed
qed

lemma search_adv_bounds [bounds]:
  "search_adv r s adv i n = Some m \<Longrightarrow> i \<le> m_start m"
  "search_adv r s adv i n = Some m \<Longrightarrow> m_start m \<le> n"
  "search_adv r s adv i n = Some m \<Longrightarrow> m_start m \<le> m_end m"
  "search_adv r s adv i n = Some m \<Longrightarrow> m_end m \<le> n"
  using search_adv_Some [of r s adv i n m] rx_m_bounds [of "m_end m" "m_groups m" r s n "m_start m" "[]"]
  by auto


text \<open>
  \<^verbatim>\<open>finditer\<close>: the scan goes on at the end of each match; after an empty match the
  next one must advance.
\<close>

function iter_from :: "rx \<Rightarrow> string \<Rightarrow> nat option \<Rightarrow> nat \<Rightarrow> nat \<Rightarrow> rmatch list" where
  "iter_from r s adv i n =
     (case search_adv r s adv i n of
        None \<Rightarrow> []
      | Some m \<Rightarrow> m # iter_from r s (if m_start m = m_end m then Some (m_end m) else None) (m_end m) n)"
  by pat_completeness auto

termination
proof (relation "measures [\<lambda>(r, s, adv, i, n). Suc n - i, \<lambda>(r, s, adv, i, n). if adv = Some i then 0 else 1]", goal_cases)
  case (2 r s adv i n m)
  from search_adv_Some [OF 2] have "adv = Some (m_start m) \<longrightarrow> m_start m < m_end m" by blast
  with search_adv_bounds [OF 2] show ?case
    by (cases "i < m_end m") auto
qed simp

declare iter_from.simps [simp del]

definition finditer :: "rx \<Rightarrow> string \<Rightarrow> rmatch list" where
  "finditer r s = iter_from r s None 0 (length s)"

text \<open>\<^verbatim>\<open>findall\<close> of a pattern with no group, and the one with exactly one group.\<close>

definition findall :: "rx \<Rightarrow> string \<Rightarrow> string list" where
  "findall r s = map (\<lambda>m. slice s (m_start m) (m_end m)) (finditer r s)"

definition findall1 :: "rx \<Rightarrow> string \<Rightarrow> string list" where
  "findall1 r s = map (\<lambda>m. group_or_empty s m 1) (finditer r s)"


section \<open>What finditer reports\<close>

text \<open>Every reported match is a match of the pattern; matches come in order and do not overlap.\<close>

lemma iter_from_mem:
  "m \<in> set (iter_from r s adv i n) \<Longrightarrow>
     i \<le> m_start m \<and> m_start m \<le> m_end m \<and> m_end m \<le> n \<and> (m_end m, m_groups m) \<in> set (rx_m r s n (m_start m) [])"
proof (induction r s adv i n rule: iter_from.induct)
  case (1 r s adv i n)
  have "search_adv r s adv i n = None \<Longrightarrow> iter_from r s adv i n = []"
    by (subst iter_from.simps) simp
  with "1.prems" have "search_adv r s adv i n \<noteq> None" by (metis empty_iff list.set(1))
  then obtain m' where m': "search_adv r s adv i n = Some m'" by blast
  note b = search_adv_bounds [OF m'] and a = search_adv_Some [OF m']
  from "1.prems" m' consider "m = m'"
    | "m \<in> set (iter_from r s (if m_start m' = m_end m' then Some (m_end m') else None) (m_end m') n)"
    by (subst (asm) iter_from.simps) auto
  then show ?case
  proof cases
    case 2
    from "1.IH" [OF m' 2] b show ?thesis by simp
  qed (use a b in auto)
qed

lemma finditer_mem:
  "m \<in> set (finditer r s) \<Longrightarrow>
     m_start m \<le> m_end m \<and> m_end m \<le> length s \<and> (m_end m, m_groups m) \<in> set (rx_m r s (length s) (m_start m) [])"
  using iter_from_mem unfolding finditer_def by blast

lemma iter_from_sorted: "sorted_wrt (\<lambda>a b. m_end a \<le> m_start b) (iter_from r s adv i n)"
proof (induction r s adv i n rule: iter_from.induct)
  case (1 r s adv i n)
  then show ?case
    by (subst iter_from.simps) (auto split: option.splits dest: iter_from_mem)
qed

lemma finditer_sorted: "sorted_wrt (\<lambda>a b. m_end a \<le> m_start b) (finditer r s)"
  by (simp add: finditer_def iter_from_sorted)

text \<open>
  A pattern whose matches are never empty is found wherever it matches outside the matches
  already reported: a position with a match lies inside a reported match.
\<close>

lemma iter_from_covers:
  assumes "\<And>k j h. (j, h) \<in> set (rx_m r s n k []) \<Longrightarrow> k < j"
  shows "i \<le> k \<Longrightarrow> k \<le> n \<Longrightarrow> rx_m r s n k [] \<noteq> [] \<Longrightarrow>
     \<exists>m \<in> set (iter_from r s None i n). m_start m \<le> k \<and> k < m_end m"
proof (induction "Suc n - i" arbitrary: i rule: less_induct)
  case less
  show ?case
  proof (cases "search_adv r s None i n")
    case None
    with less.prems show ?thesis by (auto dest: search_adv_None)
  next
    case (Some m)
    note b = search_adv_bounds [OF Some] and a = search_adv_Some [OF Some]
    from a assms have ne: "m_start m < m_end m" by blast
    then have unfold: "iter_from r s None i n = m # iter_from r s None (m_end m) n"
      by (subst iter_from.simps) (simp add: Some)
    from a less.prems have "m_start m \<le> k" by (metis linorder_not_less option.distinct(1))
    show ?thesis
    proof (cases "k < m_end m")
      case True
      with \<open>m_start m \<le> k\<close> show ?thesis by (auto simp: unfold)
    next
      case False
      with less.hyps [of "m_end m"] less.prems b ne show ?thesis by (auto simp: unfold)
    qed
  qed
qed

lemmas finditer_covers = iter_from_covers [where i = 0 and n = "length s" for s, folded finditer_def]


section \<open>Membership of matches, construct by construct\<close>

text \<open>The shape of a match read off its pattern; these rewrite a membership in \<^const>\<open>rx_m\<close>
  into facts about the text.\<close>

named_theorems rx_mem \<open>membership of a match, per construct\<close>

lemma rx_m_basic_mem [rx_mem]:
  "(j, h) \<in> set (rx_m Eps s n i g) \<longleftrightarrow> j = i \<and> h = g"
  "(j, h) \<in> set (rx_m (Cls P) s n i g) \<longleftrightarrow> j = Suc i \<and> h = g \<and> i < n \<and> P (s ! i)"
  "(j, h) \<in> set (rx_m (Seq a b) s n i g) \<longleftrightarrow>
     (\<exists>k g'. (k, g') \<in> set (rx_m a s n i g) \<and> (j, h) \<in> set (rx_m b s n k g'))"
  "(j, h) \<in> set (rx_m (Alt a b) s n i g) \<longleftrightarrow> (j, h) \<in> set (rx_m a s n i g) \<or> (j, h) \<in> set (rx_m b s n i g)"
  "(j, h) \<in> set (rx_m (Grp k r) s n i g) \<longleftrightarrow> (\<exists>h'. (j, h') \<in> set (rx_m r s n i g) \<and> h = (k, i, j) # h')"
  "(j, h) \<in> set (rx_m (Behind bb P) s n i g) \<longleftrightarrow> j = i \<and> h = g \<and> (0 < i \<and> P (s ! (i - 1))) = bb"
  "(j, h) \<in> set (rx_m (Ahead bb r) s n i g) \<longleftrightarrow> j = i \<and> h = g \<and> (rx_m r s n i g \<noteq> []) = bb"
  "(j, h) \<in> set (rx_m (Opt r) s n i g) \<longleftrightarrow> (j, h) \<in> set (rx_m r s n i g) \<or> j = i \<and> h = g"
  "(j, h) \<in> set (rx_m (Chr c) s n i g) \<longleftrightarrow> j = Suc i \<and> h = g \<and> i < n \<and> s ! i = c"
  by (auto simp: Opt_def Chr_def split: if_splits)

lemma rx_m_anchor_mem [rx_mem]:
  "(j, h) \<in> set (rx_m Bol s n i g) \<longleftrightarrow> j = i \<and> h = g \<and> (i = 0 \<or> s ! (i - 1) = LF)"
  "(j, h) \<in> set (rx_m Eol s n i g) \<longleftrightarrow> j = i \<and> h = g \<and> (n \<le> i \<or> s ! i = LF)"
  "(j, h) \<in> set (rx_m End s n i g) \<longleftrightarrow> j = i \<and> h = g \<and> (n \<le> i \<or> Suc i = n \<and> s ! i = LF)"
  by auto

lemma rx_m_Nil_iff: "rx_m r s n i g = [] \<longleftrightarrow> (\<forall>j h. (j, h) \<notin> set (rx_m r s n i g))"
  by (metis list.set_intros(1) neq_Nil_conv old.prod.exhaust empty_iff list.set(1))

lemma ahead_class: "(rx_m (Cls P) s n i g \<noteq> []) = (i < n \<and> P (s ! i))"
  by simp

lemma star_class_aux:
  "n \<le> i + k \<Longrightarrow> (j, h) \<in> set (star_m True k (rx_m (Cls P) s n) i g) \<longleftrightarrow>
     h = g \<and> i \<le> j \<and> (\<forall>t. i \<le> t \<and> t < j \<longrightarrow> t < n \<and> P (s ! t))"
proof (induction k arbitrary: i)
  case 0
  show ?case
  proof
    assume r: "h = g \<and> i \<le> j \<and> (\<forall>t. i \<le> t \<and> t < j \<longrightarrow> t < n \<and> P (s ! t))"
    with 0 have "\<not> i < j" by (metis add.right_neutral le_refl not_less)
    with r show "(j, h) \<in> set (star_m True 0 (rx_m (Cls P) s n) i g)" by simp
  qed auto
next
  case (Suc k)
  from Suc.prems have "n \<le> Suc i + k" by simp
  note IH = Suc.IH [OF this]
  have step: "(j, h) \<in> set (star_m True (Suc k) (rx_m (Cls P) s n) i g) \<longleftrightarrow>
     (i < n \<and> P (s ! i) \<and> (j, h) \<in> set (star_m True k (rx_m (Cls P) s n) (Suc i) g)) \<or> j = i \<and> h = g"
    by (auto simp: Let_def simp del: rx_m.simps(2)) (auto split: if_splits)
  show ?case unfolding step IH
    by (metis Suc_leD Suc_leI le_antisym le_eq_less_or_eq not_less_eq_eq order_refl)
qed

lemma rx_m_Star_class_mem [rx_mem]:
  "(j, h) \<in> set (rx_m (Star (Cls P)) s n i g) \<longleftrightarrow>
     h = g \<and> i \<le> j \<and> (\<forall>t. i \<le> t \<and> t < j \<longrightarrow> t < n \<and> P (s ! t))"
  using star_class_aux [of n i "n - i" j h P s g] by simp

lemma rx_m_Plus_class_mem [rx_mem]:
  "(j, h) \<in> set (rx_m (Plus (Cls P)) s n i g) \<longleftrightarrow>
     h = g \<and> i < j \<and> (\<forall>t. i \<le> t \<and> t < j \<longrightarrow> t < n \<and> P (s ! t))"
  unfolding Plus_def rx_m_basic_mem rx_m_Star_class_mem
  by (metis Suc_leI Suc_le_lessD le_antisym le_eq_less_or_eq not_less_eq_eq order_refl)

lemma rx_m_Lit_mem [rx_mem]:
  "(j, h) \<in> set (rx_m (Lit w) s n i g) \<longleftrightarrow>
     h = g \<and> j = i + length w \<and> (w \<noteq> [] \<longrightarrow> i + length w \<le> n) \<and> (\<forall>t < length w. s ! (i + t) = w ! t)"
proof (induction w arbitrary: i)
  case (Cons c w)
  show ?case
  proof (cases w)
    case Nil
    then show ?thesis by (auto simp: Lit_def Chr_def)
  next
    case (Cons d v)
    have "rx_m (Lit (c # w)) s n i g = rx_m (Seq (Chr c) (Lit w)) s n i g" by (simp add: Lit_def Cons)
    then have "(j, h) \<in> set (rx_m (Lit (c # w)) s n i g) \<longleftrightarrow>
        i < n \<and> s ! i = c \<and> (j, h) \<in> set (rx_m (Lit w) s n (Suc i) g)"
      by (auto simp: Chr_def)
    then show ?thesis unfolding Cons.IH
      by (auto simp: All_less_Suc2 Cons)
  qed
qed (auto simp: Lit_def)


lemma rx_m_Words_mem [rx_mem]:
  "(j, h) \<in> set (rx_m (Words ws) s n i g) \<longleftrightarrow> (\<exists>w \<in> set ws. (j, h) \<in> set (rx_m (Lit w) s n i g))"
  by (induction ws rule: induct_list012) (auto simp: Words_def)

end
