(* ===== verification/CyrLex.thy ===== *)
theory CyrLex
  imports PyRe
begin

text \<open>
  The lexical half of \<^verbatim>\<open>tools/cyr_scan.py\<close>: how one walk over a Cyrius or C
  source blanks comments and literals and records the directives, string literals and
  hazards it met. Definitions follow the file from \<^verbatim>\<open>_blank\<close> to
  \<^verbatim>\<open>hazards\<close>; offsets are indices into the source, as in the code.
\<close>


section \<open>Constants\<close>

datatype lang = Cyr | C

definition rx_IDENT :: rx where
  "rx_IDENT = Seq (Cls ident_start) (Star (Cls ident_char))"

definition DIRECTIVE :: rx where
  "DIRECTIVE = Seq rx_IDENT (Star (Seq (Chr CHR ''-'') (Plus (Cls (\<lambda>c. is_lower c \<or> is_upper c \<or> is_digit09 c)))))"

definition ATTR_WORDS :: "(string \<times> bool) list" where
  "ATTR_WORDS = [(''assert'', True), (''regalloc'', False), (''deprecated'', True), (''must_use'', False),
     (''pure'', False), (''io'', False), (''alloc'', False), (''naked'', False),
     (''inline'', False), (''pe_import'', True)]"

definition RAW_PREFIX :: rx where
  "RAW_PREFIX = Seqs [Opt (Words [''u8'', ''u'', ''U'', ''L'']), Chr CHR ''R'', End]"

definition HEADER :: rx where
  "HEADER = Seqs [Star (Cls blank_char), Chr HASH, Star (Cls blank_char),
     Words [''include'', ''include_next'', ''import''], Star (Cls blank_char), Chr CHR ''<'']"


section \<open>Blanking\<close>

definition blank :: "string \<Rightarrow> string" where
  "blank s = map (\<lambda>c. if c = LF then LF else SP) s"

lemma length_blank [simp]: "length (blank s) = length s"
  by (simp add: blank_def)


section \<open>Loops over characters\<close>

text \<open>\<^verbatim>\<open>while j < n and P(s[j]): j += 1\<close>, and the same backwards from \<open>i - 1\<close>
  (the result is one past the last index that failed).\<close>

function skip_while :: "(char \<Rightarrow> bool) \<Rightarrow> string \<Rightarrow> nat \<Rightarrow> nat \<Rightarrow> nat" where
  "skip_while P s j n = (if j < n \<and> P (s ! j) then skip_while P s (Suc j) n else j)"
  by pat_completeness auto
termination by (relation "measure (\<lambda>(P, s, j, n). n - j)") auto

declare skip_while.simps [simp del]

fun back_while :: "(char \<Rightarrow> bool) \<Rightarrow> string \<Rightarrow> nat \<Rightarrow> nat" where
  "back_while P s 0 = 0"
| "back_while P s (Suc k) = (if P (s ! k) then back_while P s k else Suc k)"

lemma skip_while_ge [bounds]: "j \<le> skip_while P s j n"
proof (induction P s j n rule: skip_while.induct)
  case (1 P s j n)
  then show ?case by (subst skip_while.simps) (auto dest: Suc_leD)
qed

lemma skip_while_le [bounds]: "j \<le> n \<Longrightarrow> skip_while P s j n \<le> n"
proof (induction P s j n rule: skip_while.induct)
  case (1 P s j n)
  then show ?case by (subst skip_while.simps) auto
qed

lemma skip_while_all: "j \<le> k \<Longrightarrow> k < skip_while P s j n \<Longrightarrow> P (s ! k)"
proof (induction P s j n rule: skip_while.induct)
  case (1 P s j n)
  then show ?case
    by (cases "k = j"; subst (asm) (2) skip_while.simps) (auto split: if_splits)
qed

lemma skip_while_shift [shift_simps]:
  "skip_while P (q @ s) (length q + j) (length q + n) = length q + skip_while P s j n"
proof (induction P s j n rule: skip_while.induct)
  case (1 P s j n)
  then show ?case by (subst skip_while.simps, subst (2) skip_while.simps) (simp add: shift_simps)
qed

lemma back_while_le [bounds]: "back_while P s i \<le> i"
  by (induction i) (auto intro: le_SucI)


section \<open>Attribute words and macro bodies\<close>

definition attr_bound :: "string \<Rightarrow> nat \<Rightarrow> bool \<Rightarrow> nat \<Rightarrow> bool" where
  "attr_bound src e ap n \<longleftrightarrow>
     n \<le> e \<or> src ! e \<in> {SP, TAB, CR, LF} \<or> (ap \<and> src ! e = CHR ''('')"

definition attr_word :: "string \<Rightarrow> nat \<Rightarrow> nat \<Rightarrow> string option" where
  "attr_word src q n =
     (if n \<le> q + 2 \<or> \<not> is_lower (src ! (q + 1)) then None
      else map_option fst
             (List.find (\<lambda>(w, ap). let e = q + 1 + length w in
                e \<le> n \<and> startswith_at src w (q + 1) \<and> attr_bound src e ap n) ATTR_WORDS))"

definition macro_body :: "string \<Rightarrow> nat \<Rightarrow> nat \<Rightarrow> nat \<Rightarrow> nat option" where
  "macro_body src i eol n =
     (if \<not> startswith_at src ''#define'' i \<or> n \<le> i + 8 \<or> \<not> blank_char (src ! (i + 7)) then None
      else
        let j = skip_while blank_char src (i + 8) eol;
            k = skip_while (\<lambda>c. c \<noteq> CHR ''('' \<and> \<not> blank_char c) src j eol
        in if eol \<le> k \<or> src ! k \<noteq> CHR ''('' then None
           else Some (case find_in src '')'' k eol of None \<Rightarrow> eol | Some e \<Rightarrow> e + 1))"


section \<open>C translation phases 1 and 2\<close>

definition splice_blank :: "char \<Rightarrow> bool" where
  "splice_blank c \<longleftrightarrow> c \<in> {SP, TAB, FF, VT}"

text \<open>The end of the backslash-newline splice at \<open>i\<close>, if there is one.\<close>

definition splice_end :: "string \<Rightarrow> nat \<Rightarrow> nat option" where
  "splice_end s i =
     (if s ! i = BSL then
        let j = skip_while splice_blank s (i + 1) (length s)
        in if j < length s \<and> s ! j = LF then Some (j + 1) else None
      else None)"

lemma splice_end_gt [bounds]: "splice_end s i = Some j \<Longrightarrow> i < j"
  using skip_while_ge [of "i + 1" splice_blank s "length s"]
  by (auto simp: splice_end_def Let_def split: if_splits)

text \<open>The loop of \<open>normalize_c\<close> from \<open>i\<close> with \<open>pending\<close> newlines owed.\<close>

function norm_loop :: "string \<Rightarrow> nat \<Rightarrow> nat \<Rightarrow> string" where
  "norm_loop s i pending =
     (if i < length s then
        case splice_end s i of
          Some j \<Rightarrow> norm_loop s j (pending + 1)
        | None \<Rightarrow>
            if s ! i = LF \<and> 0 < pending then LF # replicate pending LF @ norm_loop s (i + 1) 0
            else s ! i # norm_loop s (i + 1) pending
      else replicate pending LF)"
  by pat_completeness auto
termination
  by (relation "measure (\<lambda>(s, i, pending). length s - i)") (auto dest: splice_end_gt)

declare norm_loop.simps [simp del]

definition cr_to_lf :: "string \<Rightarrow> string" where
  "cr_to_lf src = replace_str [CR] [LF] (replace_str [CR, LF] [LF] src)"

definition normalize_c :: "string \<Rightarrow> string" where
  "normalize_c src = norm_loop (cr_to_lf src) 0 0"


section \<open>Literals\<close>

text \<open>The loop of \<open>_cyr_char_end\<close>: the preprocessor's reading of a quote.\<close>

function char_scan :: "string \<Rightarrow> nat \<Rightarrow> nat \<Rightarrow> nat" where
  "char_scan src n j =
     (if j < n then
        if src ! j = LF then j
        else if src ! j = BSL then
          (if j + 1 < n \<and> src ! (j + 1) = LF then j + 1 else char_scan src n (j + 2))
        else if src ! j = SQ then j + 1
        else char_scan src n (j + 1)
      else n)"
  by pat_completeness auto
termination by (relation "measure (\<lambda>(src, n, j). n - j)") auto

declare char_scan.simps [simp del]

definition cyr_char_end :: "string \<Rightarrow> nat \<Rightarrow> nat \<Rightarrow> nat \<times> bool" where
  "cyr_char_end src i n =
     (if i + 2 < n \<and> src ! (i + 1) \<noteq> BSL \<and> src ! (i + 2) = SQ
      then (i + 3, src ! (i + 1) = SQ \<or> src ! (i + 1) = LF)
      else if i + 3 < n \<and> src ! (i + 1) = BSL \<and> src ! (i + 2) \<noteq> LF \<and> src ! (i + 3) = SQ
      then (i + 4, False)
      else (char_scan src n (i + 1), False))"

text \<open>The loop of \<open>_string_end\<close> for the quote \<open>q\<close>: the index past the literal, and whether
  its closing quote was found.\<close>

function str_scan :: "string \<Rightarrow> char \<Rightarrow> lang \<Rightarrow> nat \<Rightarrow> nat \<Rightarrow> nat \<times> bool" where
  "str_scan src q lang n j =
     (if j < n \<and> src ! j \<noteq> q then
        if src ! j = BSL then str_scan src q lang n (j + 2)
        else if src ! j = LF \<and> lang = C then (j, False)
        else str_scan src q lang n (j + 1)
      else if j < n then (j + 1, True) else (n, False))"
  by pat_completeness auto
termination by (relation "measure (\<lambda>(src, q, lang, n, j). n - j)") auto

declare str_scan.simps [simp del]

definition string_end :: "string \<Rightarrow> nat \<Rightarrow> lang \<Rightarrow> nat \<Rightarrow> nat \<times> bool" where
  "string_end src i lang n = str_scan src (src ! i) lang n (i + 1)"

definition c_digit_sep :: "string \<Rightarrow> nat \<Rightarrow> bool" where
  "c_digit_sep src i =
     (if length src \<le> i + 1 \<or> \<not> (is_alnum (src ! (i + 1)) \<or> src ! (i + 1) = CHR ''_'') then False
      else
        let start = back_while (\<lambda>c. is_alnum c \<or> c \<in> {CHR ''_'', CHR ''.'', SQ}) src i
        in if i \<le> start then False
           else is_digit (src ! start) \<or>
                (src ! start = CHR ''.'' \<and> start + 1 < i \<and> is_digit (src ! (start + 1))))"

definition c_raw_end :: "string \<Rightarrow> nat \<Rightarrow> nat option" where
  "c_raw_end src i =
     (case search_in RAW_PREFIX src (i - 3) i of
        None \<Rightarrow> None
      | Some m \<Rightarrow>
          if 0 < m_start m \<and> (is_alnum (src ! (m_start m - 1)) \<or> src ! (m_start m - 1) = CHR ''_'') then None
          else case find_in src ''('' (i + 1) (i + 18) of
                 None \<Rightarrow> None
               | Some k \<Rightarrow>
                   let delim = slice src (i + 1) k
                   in if list_ex (\<lambda>c. c \<in> {SP, BSL, CHR '')'', TAB, LF, DQ}) delim then None
                      else map_option (\<lambda>e. e + length delim + 2)
                             (find_at src ('')'' @ delim @ [DQ]) (k + 1)))"


section \<open>What a walk records\<close>

text \<open>
  The reasons a source is refused, one constructor per message: the hazards of the walk,
  and the extra refusals of \<open>bundle_problems\<close> (their texts are in \<open>CyrDecl\<close>).
\<close>

datatype why =
    IncludeOpen        \<comment> \<open>an include whose file name does not close on its line\<close>
  | CharTwoWays        \<comment> \<open>a char literal the preprocessor and the lexer read differently\<close>
  | StringOpenFile     \<comment> \<open>a string literal still open at the end of its file\<close>
  | StringOpenDefine   \<comment> \<open>a string literal still open at the end of its \#define line\<close>
  | DeriveLine
  | DefineLine
  | EnumToken

record scan_rec =
  found :: "(nat \<times> string) list"
  strings :: "(nat \<times> nat \<times> bool) list"
  hazards_at :: "(nat \<times> why) list"

definition empty_rec :: scan_rec where
  "empty_rec = \<lparr>found = [], strings = [], hazards_at = []\<rparr>"

definition add_found :: "nat \<Rightarrow> string \<Rightarrow> scan_rec \<Rightarrow> scan_rec" where
  "add_found i w rc = rc\<lparr>found := found rc @ [(i, w)]\<rparr>"

definition add_string :: "nat \<Rightarrow> nat \<Rightarrow> bool \<Rightarrow> scan_rec \<Rightarrow> scan_rec" where
  "add_string a b raw rc = rc\<lparr>strings := strings rc @ [(a, b, raw)]\<rparr>"

definition add_hazard :: "nat \<Rightarrow> why \<Rightarrow> scan_rec \<Rightarrow> scan_rec" where
  "add_hazard i y rc = rc\<lparr>hazards_at := hazards_at rc @ [(i, y)]\<rparr>"


section \<open>The walk\<close>

text \<open>
  One turn of the loop of \<open>_walk\<close> at \<open>i\<close> either emits a piece of output and goes on at
  \<open>i'\<close> with the flag \<open>bol\<close>, or meets a function-like \<^verbatim>\<open>#define\<close> whose body,
  from \<open>b\<close> to the end of the line \<open>e\<close>, is walked on its own. \<open>whole\<close> is
  \<^verbatim>\<open>hi is None\<close>; \<open>n\<close> is the end of the walk.
\<close>

datatype turn = Emit string nat bool scan_rec | Macro string nat nat scan_rec

definition step_hash :: "string \<Rightarrow> bool \<Rightarrow> nat \<Rightarrow> nat \<Rightarrow> bool \<Rightarrow> scan_rec \<Rightarrow> turn" where
  "step_hash src whole n i bol rc =
     (let eol = line_end src i n in
      case attr_word src i n of
        Some w \<Rightarrow>
          Emit (blank (slice src i (i + 1 + length w))) (i + 1 + length w) False (add_found i w rc)
      | None \<Rightarrow>
          let rc' = (case match_in DIRECTIVE src (i + 1) eol of
                       None \<Rightarrow> rc
                     | Some m \<Rightarrow> add_found i (slice src (m_start m) (m_end m)) rc)
          in case (if bol \<and> whole then macro_body src i eol n else None) of
               Some body \<Rightarrow> Macro (blank (slice src i body)) body eol rc'
             | None \<Rightarrow> Emit (blank (slice src i eol)) eol bol rc')"

definition step_include :: "bool \<Rightarrow> string \<Rightarrow> nat \<Rightarrow> nat \<Rightarrow> bool \<Rightarrow> scan_rec \<Rightarrow> turn" where
  "step_include keep src n i bol rc =
     (let eol = line_end src i n;
          refuse = Emit (blank (slice src i eol)) eol bol (add_hazard i IncludeOpen rc)
      in case find_at src [DQ] (i + 9) of
           None \<Rightarrow> refuse
         | Some q \<Rightarrow>
             if eol < q then refuse
             else
               let lit = (if keep then slice src (i + 8) (q + 1) else [DQ] @ blank (slice src (i + 9) q) @ [DQ])
               in Emit (''include '' @ lit @ blank (slice src (q + 1) eol)) eol bol
                    (add_string (i + 8) (q + 1) True rc))"

definition step_header :: "bool \<Rightarrow> string \<Rightarrow> nat \<Rightarrow> nat \<Rightarrow> rmatch \<Rightarrow> scan_rec \<Rightarrow> turn" where
  "step_header keep src n i h rc =
     (let e = line_end src i n;
          k = (case find_in src ''>'' (m_end h) e of None \<Rightarrow> e | Some k \<Rightarrow> k + 1);
          inner = (if slice src (k - 1) k = ''>'' then slice src (m_end h) (k - 1) else slice src (m_end h) k)
      in Emit (slice src i (m_end h) @ (if keep then inner else blank inner) @
               slice src (m_end h + length inner) k) k False rc)"

definition step_char :: "bool \<Rightarrow> string \<Rightarrow> nat \<Rightarrow> nat \<Rightarrow> scan_rec \<Rightarrow> turn" where
  "step_char keep src n i rc =
     (let (j, hz) = cyr_char_end src i n;
          rc' = (if hz then add_hazard i CharTwoWays rc else rc)
      in Emit (if keep then slice src i j else blank (slice src i j)) j False rc')"

definition step_string :: "lang \<Rightarrow> bool \<Rightarrow> string \<Rightarrow> bool \<Rightarrow> nat \<Rightarrow> nat \<Rightarrow> scan_rec \<Rightarrow> turn" where
  "step_string lang keep src whole n i rc =
     (let c = src ! i;
          raw_end = (if lang = C \<and> c = DQ then c_raw_end src i else None);
          raw = (raw_end \<noteq> None);
          (j, closed) = (case raw_end of Some j \<Rightarrow> (j, True) | None \<Rightarrow> string_end src i lang n);
          rc1 = (if c = DQ then add_string i j raw rc else rc);
          rc2 = (if c = DQ \<and> lang = Cyr \<and> \<not> closed
                 then add_hazard i (if whole then StringOpenFile else StringOpenDefine) rc1 else rc1)
      in Emit (if keep then slice src i j
               else c # blank (slice src (i + 1) (if closed then j - 1 else j)) @ (if closed then [c] else []))
           j False rc2)"

definition step_c :: "bool \<Rightarrow> string \<Rightarrow> nat \<Rightarrow> nat \<Rightarrow> bool \<Rightarrow> scan_rec \<Rightarrow> turn option" where
  "step_c keep src n i bol rc =
     (case (if bol then match_in HEADER src i n else None) of
        Some h \<Rightarrow> Some (step_header keep src n i h rc)
      | None \<Rightarrow>
          if startswith_at src ''//'' i then
            (let j = line_end src i n in Some (Emit (blank (slice src i j)) j bol rc))
          else if startswith_at src ''/*'' i then
            (let j = (case find_at src ''*/'' (i + 2) of None \<Rightarrow> n | Some j \<Rightarrow> j + 2)
             in Some (Emit (blank (slice src i j)) j bol rc))
          else None)"

definition is_include_line :: "string \<Rightarrow> bool \<Rightarrow> nat \<Rightarrow> bool" where
  "is_include_line src whole i \<longleftrightarrow>
     src ! i = CHR ''i'' \<and> whole \<and> (i = 0 \<or> src ! (i - 1) = LF) \<and> startswith_at src (''include '' @ [DQ]) i"

definition walk_step :: "lang \<Rightarrow> bool \<Rightarrow> string \<Rightarrow> bool \<Rightarrow> nat \<Rightarrow> nat \<Rightarrow> bool \<Rightarrow> scan_rec \<Rightarrow> turn" where
  "walk_step lang keep src whole n i bol rc =
     (let c = src ! i;
          ordinary =
            (if lang = Cyr \<and> c = SQ then step_char keep src n i rc
             else if c = DQ \<or> (c = SQ \<and> lang = C \<and> \<not> c_digit_sep src i) then step_string lang keep src whole n i rc
             else Emit [c] (i + 1) (if c = LF then True else if \<not> blank_char c then False else bol) rc)
      in if lang = Cyr \<and> c = HASH then step_hash src whole n i bol rc
         else if lang = Cyr \<and> is_include_line src whole i then step_include keep src n i bol rc
         else if lang = C then
           (case step_c keep src n i bol rc of Some t \<Rightarrow> t | None \<Rightarrow> ordinary)
         else ordinary)"

text \<open>For evaluation: the character, the end of the line and the attribute word are computed once,
  and the tests are nested.\<close>

definition step_hash_at :: "nat \<Rightarrow> string option \<Rightarrow> string \<Rightarrow> bool \<Rightarrow> nat \<Rightarrow> nat \<Rightarrow> bool \<Rightarrow> scan_rec \<Rightarrow> turn" where
  "step_hash_at eol w src whole n i bol rc =
     (case w of
        Some w \<Rightarrow>
          Emit (blank (slice src i (i + 1 + length w))) (i + 1 + length w) False (add_found i w rc)
      | None \<Rightarrow>
          let rc' = (case match_in DIRECTIVE src (i + 1) eol of
                       None \<Rightarrow> rc
                     | Some m \<Rightarrow> add_found i (slice src (m_start m) (m_end m)) rc)
          in case (if bol \<and> whole then macro_body src i eol n else None) of
               Some body \<Rightarrow> Macro (blank (slice src i body)) body eol rc'
             | None \<Rightarrow> Emit (blank (slice src i eol)) eol bol rc')"

lemma step_hash_code [code]: "step_hash src whole n i bol rc = step_hash_at (line_end src i n) (attr_word src i n) src whole n i bol rc"
  by (simp only: step_hash_def step_hash_at_def Let_def)

definition walk_step_at :: "char \<Rightarrow> lang \<Rightarrow> bool \<Rightarrow> string \<Rightarrow> bool \<Rightarrow> nat \<Rightarrow> nat \<Rightarrow> bool \<Rightarrow> scan_rec \<Rightarrow> turn" where
  "walk_step_at c lang keep src whole n i bol rc =
     (let emit = Emit [c] (i + 1) (if c = LF then True else if blank_char c then bol else False) rc
      in case lang of
           Cyr \<Rightarrow>
             if c = HASH then step_hash src whole n i bol rc
             else if c = SQ then step_char keep src n i rc
             else if c = DQ then step_string lang keep src whole n i rc
             else if c = CHR ''i'' then (if is_include_line src whole i then step_include keep src n i bol rc else emit)
             else emit
         | C \<Rightarrow>
             (case step_c keep src n i bol rc of
                Some t \<Rightarrow> t
              | None \<Rightarrow>
                  if c = DQ then step_string lang keep src whole n i rc
                  else if c = SQ then (if c_digit_sep src i then emit else step_string lang keep src whole n i rc)
                  else emit))"

lemma walk_step_code [code]: "walk_step lang keep src whole n i bol rc = walk_step_at (src ! i) lang keep src whole n i bol rc"
proof -
  have "is_include_line src whole i \<Longrightarrow> src ! i = CHR ''i''" by (simp add: is_include_line_def)
  then show ?thesis by (cases lang) (auto simp: walk_step_def walk_step_at_def Let_def split: option.split)
qed

definition at_line_start :: "string \<Rightarrow> nat \<Rightarrow> bool" where
  "at_line_start src lo \<longleftrightarrow> lo = 0 \<or> src ! (lo - 1) = LF"


section \<open>Bounds of the literal scanners\<close>

lemma char_scan_bounds [bounds]: "char_scan src n j \<le> n" "min j n \<le> char_scan src n j"
proof (induction src n j rule: char_scan.induct)
  case (1 src n j)
  { case 1 then show ?case using "1.IH" by (subst char_scan.simps) auto }
  { case 2 then show ?case using "1.IH" by (subst char_scan.simps) auto }
qed

lemma cyr_char_end_bounds [bounds]:
  "cyr_char_end src i n = (j, hz) \<Longrightarrow> i < n \<Longrightarrow> i < j" "cyr_char_end src i n = (j, hz) \<Longrightarrow> i < n \<Longrightarrow> j \<le> n"
  using char_scan_bounds [where src = src and n = n and j = "i + 1"]
  by (auto simp: cyr_char_end_def min_def split: if_splits)

lemma str_scan_bounds: "min j n \<le> fst (str_scan src q lang n j)" "fst (str_scan src q lang n j) \<le> n"
proof (induction src q lang n j rule: str_scan.induct)
  case (1 src q lang n j)
  { case 1 then show ?case using "1.IH" by (subst str_scan.simps) auto }
  { case 2 then show ?case using "1.IH" by (subst str_scan.simps) auto }
qed

text \<open>A closed literal ends right after its quote.\<close>

lemma str_scan_closed:
  "str_scan src q lang n j = (k, True) \<Longrightarrow> j < k \<and> k \<le> n \<and> src ! (k - 1) = q"
proof (induction src q lang n j rule: str_scan.induct)
  case (1 src q lang n j)
  show ?case
  proof (cases "j < n \<and> src ! j \<noteq> q")
    case True
    note IH = "1.IH" [OF True]
    from "1.prems" True show ?thesis
      by (subst (asm) str_scan.simps) (use IH in \<open>fastforce split: if_splits\<close>)
  next
    case False
    with "1.prems" show ?thesis by (subst (asm) str_scan.simps) (auto split: if_splits)
  qed
qed

lemma string_end_bounds [bounds]:
  "string_end src i lang n = (j, closed) \<Longrightarrow> i < n \<Longrightarrow> i < j"
  "string_end src i lang n = (j, closed) \<Longrightarrow> i < n \<Longrightarrow> j \<le> n"
  using str_scan_bounds [where src = src and n = n and j = "i + 1" and q = "src ! i" and lang = lang]
  by (auto simp: string_end_def)

lemma string_end_closed:
  "string_end src i lang n = (j, True) \<Longrightarrow> i + 1 < j \<and> j \<le> n \<and> src ! (j - 1) = src ! i"
  unfolding string_end_def by (drule str_scan_closed) simp

lemma c_raw_end_Some:
  assumes "c_raw_end src i = Some j"
  shows "i + 1 < j \<and> j \<le> length src \<and> src ! (j - 1) = DQ"
proof -
  from assms obtain k delim e where k: "find_in src ''('' (i + 1) (i + 18) = Some k"
    and e: "find_at src ('')'' @ delim @ [DQ]) (k + 1) = Some e" and j: "j = e + length delim + 2"
    by (auto simp: c_raw_end_def Let_def split: option.splits if_splits)
  from e have "k + 1 \<le> e" and sw: "startswith_at src ('')'' @ delim @ [DQ]) e"
    by (auto simp: find_at_def dest: find_in_Some)
  from sw have "e + length ('')'' @ delim @ [DQ]) \<le> length src" by (rule startswith_at_length) simp
  moreover from startswith_at_nth [OF sw, of "length delim + 1"] have "src ! (e + length delim + 1) = DQ" by simp
  moreover from k have "i + 1 \<le> k" by (auto dest: find_in_Some)
  ultimately show ?thesis using \<open>k + 1 \<le> e\<close> j by (simp add: add.assoc)
qed

lemma attr_word_SomeD:
  assumes "attr_word src q n = Some w"
  obtains ap where "(w, ap) \<in> set ATTR_WORDS" "q + 2 < n" "is_lower (src ! (q + 1))" "q + 1 + length w \<le> n"
    "startswith_at src w (q + 1)" "attr_bound src (q + 1 + length w) ap n"
proof -
  from assms obtain p where p: "List.find (\<lambda>(w, ap). let e = q + 1 + length w in
        e \<le> n \<and> startswith_at src w (q + 1) \<and> attr_bound src e ap n) ATTR_WORDS = Some p"
    and "w = fst p" "q + 2 < n" "is_lower (src ! (q + 1))"
    by (auto simp: attr_word_def split: if_splits)
  from find_SomeD [OF p] that [of "snd p"] \<open>w = fst p\<close> \<open>q + 2 < n\<close> \<open>is_lower (src ! (q + 1))\<close>
  show ?thesis by (cases p) (simp add: Let_def)
qed

lemma attr_word_bounds [bounds]: "attr_word src q n = Some w \<Longrightarrow> q + 1 + length w \<le> n"
  by (erule attr_word_SomeD)

lemma macro_body_bounds [bounds]:
  assumes "macro_body src i eol n = Some b" "i < eol"
  shows "i < b" "b \<le> eol"
  using assms skip_while_ge [of "i + 8" blank_char src eol]
    skip_while_ge [of "skip_while blank_char src (i + 8) eol" "\<lambda>c. c \<noteq> CHR ''('' \<and> \<not> blank_char c" src eol]
  by (auto simp: macro_body_def Let_def split: if_splits option.splits dest: find_in_char)

lemma HEADER_mem:
  assumes "match_in HEADER src i n = Some h"
  shows "i + 1 < m_end h \<and> m_end h \<le> n \<and> (\<forall>t. i \<le> t \<and> t < m_end h \<longrightarrow> src ! t \<noteq> LF)"
proof -
  have words: "(j, h') \<in> set (rx_m (Words [''include'', ''include_next'', ''import'']) src n k g) \<Longrightarrow>
      k < j \<and> (\<forall>t. k \<le> t \<and> t < j \<longrightarrow> src ! t \<noteq> LF)" for j h' k g
  proof -
    assume "(j, h') \<in> set (rx_m (Words [''include'', ''include_next'', ''import'']) src n k g)"
    then obtain w where "w \<in> {''include'', ''include_next'', ''import''}" "j = k + length w"
      "\<forall>t < length w. src ! (k + t) = w ! t"
      unfolding rx_mem by fastforce
    moreover from this(1) have "w \<noteq> []" "LF \<notin> set w" by auto
    moreover have "src ! t \<noteq> LF" if "k \<le> t" "t < j" for t
    proof -
      from that \<open>j = k + length w\<close> have "t - k < length w" "t = k + (t - k)" by auto
      with \<open>\<forall>t < length w. src ! (k + t) = w ! t\<close> have "src ! t \<in> set w" by (metis nth_mem)
      with \<open>LF \<notin> set w\<close> show ?thesis by metis
    qed
    ultimately show ?thesis by simp
  qed
  from match_in_mem [OF assms] obtain a b c d e g where
    1: "\<forall>t. i \<le> t \<and> t < a \<longrightarrow> t < n \<and> blank_char (src ! t)" "i \<le> a"
    and 2: "b = Suc a" "a < n" "src ! a = HASH"
    and 3: "b \<le> c" "\<forall>t. b \<le> t \<and> t < c \<longrightarrow> t < n \<and> blank_char (src ! t)"
    and 4: "(d, g) \<in> set (rx_m (Words [''include'', ''include_next'', ''import'']) src n c [])"
    and 5: "d \<le> e" "\<forall>t. d \<le> t \<and> t < e \<longrightarrow> t < n \<and> blank_char (src ! t)"
    and 6: "m_end h = Suc e" "e < n" "src ! e = CHR ''<''"
    unfolding HEADER_def Seqs.simps rx_m_basic_mem rx_m_Star_class_mem by blast
  from words [OF 4] have w: "c < d" "\<forall>t. c \<le> t \<and> t < d \<longrightarrow> src ! t \<noteq> LF" by auto
  have nb: "blank_char x \<Longrightarrow> x \<noteq> LF" for x by (auto simp: blank_char_def)
  have "src ! t \<noteq> LF" if "i \<le> t" "t < m_end h" for t
  proof -
    from that consider "t < a" | "t = a" | "b \<le> t" "t < c" | "c \<le> t" "t < d" | "d \<le> t" "t < e" | "t = e"
      using 2(1) 6(1) by linarith
    then show ?thesis using 1 2 3 5 6 w nb that(1) by cases auto
  qed
  with 1 2 3 5 6 w show ?thesis by auto
qed


lemma startswith_at_appendD: "startswith_at s (p @ q) i \<Longrightarrow> startswith_at s p i"
  unfolding startswith_at_def by (metis append_eq_append_conv2 append_eq_conv_conj min.absorb1 take_take length_append le_add1)

lemma line_end_geI: "i \<le> m \<Longrightarrow> m \<le> n \<Longrightarrow> (\<And>t. i \<le> t \<Longrightarrow> t < m \<Longrightarrow> s ! t \<noteq> LF) \<Longrightarrow> m \<le> line_end s i n"
  by (metis le_trans line_end_at line_end_ge linorder_not_le order_less_le_trans)


section \<open>Every turn covers what it consumes\<close>

text \<open>
  A piece of output covers a stretch of source when it has its length and differs from it
  only by blanks that replaced something other than a newline.
\<close>

definition blanked :: "char \<Rightarrow> char \<Rightarrow> bool" where
  "blanked o' c \<longleftrightarrow> o' = c \<or> (o' = SP \<and> c \<noteq> LF)"

definition covers :: "string \<Rightarrow> string \<Rightarrow> nat \<Rightarrow> nat \<Rightarrow> bool" where
  "covers p src a b \<longleftrightarrow> list_all2 blanked p (slice src a b)"

lemma blanked_refl [simp]: "blanked c c"
  by (simp add: blanked_def)

lemma blanked_LF [simp]: "blanked o' c \<Longrightarrow> o' = LF \<longleftrightarrow> c = LF"
  by (auto simp: blanked_def)

lemma list_all2_blanked_blank: "list_all2 blanked (blank s) s"
  by (simp add: blank_def list_all2_map1 list.rel_refl_strong blanked_def list_all2_same)

lemma covers_blank [intro]: "covers (blank (slice src a b)) src a b"
  by (simp add: covers_def list_all2_blanked_blank)

lemma covers_self [intro]: "covers (slice src a b) src a b"
  by (simp add: covers_def list_all2_same)

lemma covers_char: "a < length src \<Longrightarrow> c = src ! a \<Longrightarrow> covers [c] src a (Suc a)"
  by (simp add: covers_def slice_Suc)

lemma covers_append: "covers p src a b \<Longrightarrow> covers q src b c \<Longrightarrow> a \<le> b \<Longrightarrow> b \<le> c \<Longrightarrow> covers (p @ q) src a c"
  unfolding covers_def by (metis list_all2_appendI slice_append_slice)

lemma covers_Cons:
  "c = src ! a \<Longrightarrow> a < length src \<Longrightarrow> covers q src (Suc a) b \<Longrightarrow> Suc a \<le> b \<Longrightarrow> covers (c # q) src a b"
  using covers_append [OF covers_char [of a src c]] by force

lemma covers_Nil [simp]: "covers [] src a a"
  by (simp add: covers_def)

lemma covers_length: "covers p src a b \<Longrightarrow> b \<le> length src \<Longrightarrow> length p = b - a"
  by (auto simp: covers_def dest: list_all2_lengthD)

text \<open>What each kind of turn owes the walk.\<close>

definition turn_ok :: "string \<Rightarrow> nat \<Rightarrow> nat \<Rightarrow> turn \<Rightarrow> bool" where
  "turn_ok src n i t =
     (case t of
        Emit p j b r \<Rightarrow> i < j \<and> j \<le> n \<and> (n \<le> length src \<longrightarrow> covers p src i j)
      | Macro p b e r \<Rightarrow> i < b \<and> b \<le> e \<and> e \<le> n \<and> (n \<le> length src \<longrightarrow> covers p src i b))"

lemma turn_ok_hash: "i < n \<Longrightarrow> src ! i = HASH \<Longrightarrow> turn_ok src n i (step_hash src whole n i bol rc)"
  using line_end_gt [of i n src] line_end_le [of src i n]
  by (auto simp: step_hash_def turn_ok_def Let_def split: option.splits if_splits dest: attr_word_bounds macro_body_bounds)

lemma turn_ok_include:
  assumes "i < n" "is_include_line src whole i" "n = length src"
  shows "turn_ok src n i (step_include keep src n i bol rc)"
proof -
  have sw: "startswith_at src (''include '' @ [DQ]) i" and ci: "src ! i = CHR ''i''"
    using assms by (auto simp: is_include_line_def)
  have len9: "i + 9 \<le> n" using startswith_at_length [OF sw] assms(3) by simp
  have noLF: "src ! t \<noteq> LF" if "i \<le> t" "t < i + 9" for t
  proof -
    from that have "t = i + (t - i)" "t - i < 9" by auto
    with startswith_at_nth [OF sw, of "t - i"] have "src ! t = (''include '' @ [DQ]) ! (t - i)" by simp
    moreover have "(''include '' @ [DQ]) ! (t - i) \<in> set (''include '' @ [DQ])" using \<open>t - i < 9\<close> by (intro nth_mem) simp
    moreover have "LF \<notin> set (''include '' @ [DQ])" by simp
    ultimately show ?thesis by metis
  qed
  have eol: "i + 9 \<le> line_end src i n" "line_end src i n \<le> n"
    using line_end_geI [of i "i + 9" n src] len9 noLF line_end_le by auto
  have "slice src i (i + 8) = ''include ''"
    using startswith_at_slice [OF startswith_at_appendD [OF sw]] by (simp add: eval_nat_numeral)
  with covers_self [of src i "i + 8"] have pre: "covers ''include '' src i (i + 8)" by metis
  have dq: "src ! (i + 8) = DQ" using startswith_at_nth [OF sw, of 8] by simp
  show ?thesis
  proof (cases "find_at src [DQ] (i + 9)")
    case None
    with eol assms show ?thesis by (auto simp: step_include_def turn_ok_def Let_def)
  next
    case (Some q)
    then have q: "i + 9 \<le> q" "q < length src" "src ! q = DQ"
      by (auto simp: find_at_def dest: find_in_char)
    have "covers ([DQ] @ blank (slice src (i + 9) q) @ [DQ]) src (i + 8) (q + 1)"
      using q dq len9 assms(3)
      by (auto intro!: covers_Cons covers_append [of _ _ _ q] covers_blank covers_char simp: eval_nat_numeral)
    then have lit: "covers (if keep then slice src (i + 8) (q + 1) else [DQ] @ blank (slice src (i + 9) q) @ [DQ]) src (i + 8) (q + 1)"
      by auto
    have "line_end src i n \<noteq> q"
    proof
      assume eq: "line_end src i n = q"
      with q(2) assms(3) have "line_end src i n < n" by simp
      from line_end_at [OF this] eq q(3) show False by simp
    qed
    then have "\<not> line_end src i n < q \<Longrightarrow> q + 1 \<le> line_end src i n" by simp
    moreover have "covers (''include '' @ (if keep then slice src (i + 8) (q + 1) else [DQ] @ blank (slice src (i + 9) q) @ [DQ]) @
        blank (slice src (q + 1) (line_end src i n))) src i (line_end src i n)" if "q + 1 \<le> line_end src i n"
      by (rule covers_append [OF pre covers_append [OF lit covers_blank]]) (use that q in auto)
    ultimately show ?thesis using Some eol
      by (auto simp: step_include_def turn_ok_def Let_def simp del: append.simps split: if_splits)
  qed
qed

lemma turn_ok_header:
  assumes "i < n" "n = length src" "match_in HEADER src i n = Some h"
  shows "turn_ok src n i (step_header keep src n i h rc)"
proof -
  from HEADER_mem [OF assms(3)] have h: "i + 1 < m_end h" "m_end h \<le> n"
    and noLF: "\<And>t. i \<le> t \<Longrightarrow> t < m_end h \<Longrightarrow> src ! t \<noteq> LF" by auto
  have e: "m_end h \<le> line_end src i n" "line_end src i n \<le> n"
    using line_end_geI [of i "m_end h" n src] h noLF line_end_le by auto
  define k where "k = (case find_in src ''>'' (m_end h) (line_end src i n) of None \<Rightarrow> line_end src i n | Some k \<Rightarrow> k + 1)"
  have k: "m_end h \<le> k" "k \<le> n"
    using e by (auto simp: k_def split: option.splits dest: find_in_char)
  define inner where "inner = (if slice src (k - 1) k = ''>'' then slice src (m_end h) (k - 1) else slice src (m_end h) k)"
  obtain b where b: "inner = slice src (m_end h) b" "m_end h \<le> b \<or> inner = []" "b \<le> k"
    unfolding inner_def using k by (metis diff_le_self le_refl nat_le_linear slice_Nil)
  have "covers (slice src i (m_end h) @ (if keep then inner else blank inner) @ slice src (m_end h + length inner) k) src i k"
  proof (cases "m_end h \<le> b")
    case True
    then have "length inner = b - m_end h" using b k assms(2) by simp
    have "covers (if keep then inner else blank inner) src (m_end h) b" using b by auto
    from covers_append [OF covers_self covers_append [OF this covers_self]] show ?thesis
      using True b k h \<open>length inner = b - m_end h\<close> by simp
  next
    case False
    with b have "inner = []" by auto
    with k h show ?thesis by (auto intro!: covers_append [where b = "m_end h"] simp: blank_def)
  qed
  with k h show ?thesis
    unfolding step_header_def Let_def k_def [symmetric] inner_def [symmetric] by (simp add: turn_ok_def)
qed

lemma turn_ok_char: "i < n \<Longrightarrow> turn_ok src n i (step_char keep src n i rc)"
  by (auto simp: step_char_def turn_ok_def Let_def split: prod.splits dest: cyr_char_end_bounds)

text \<open>The output of a string turn, over a literal that runs from \<open>i\<close> to \<open>j\<close>.\<close>

lemma covers_literal:
  assumes "i < j" "j \<le> length src" "closed \<Longrightarrow> i + 1 < j \<and> src ! (j - 1) = src ! i"
  shows "covers (src ! i # blank (slice src (i + 1) (if closed then j - 1 else j)) @ (if closed then [src ! i] else [])) src i j"
proof (cases closed)
  case True
  from assms(2) assms(3) [OF True] have "j - 1 < length src" "Suc (j - 1) = j" "src ! i = src ! (j - 1)" by auto
  then have "covers [src ! i] src (j - 1) j" by (metis covers_char)
  from covers_append [OF covers_blank [of src "i + 1" "j - 1"] this] True assms show ?thesis
    by (auto intro!: covers_Cons)
next
  case False
  with assms show ?thesis by (auto intro!: covers_Cons)
qed

lemma turn_ok_string:
  assumes "i < n" "lang = C \<longrightarrow> n = length src"
  shows "turn_ok src n i (step_string lang keep src whole n i rc)"
proof -
  define re where "re = (if lang = C \<and> src ! i = DQ then c_raw_end src i else None)"
  obtain j closed where jc: "(case re of Some j \<Rightarrow> (j, True) | None \<Rightarrow> string_end src i lang n) = (j, closed)"
    by (metis surj_pair)
  have j: "i < j" "j \<le> n" "closed \<Longrightarrow> i + 1 < j \<and> src ! (j - 1) = src ! i"
  proof -
    consider (raw) "re = Some j" "closed" | (plain) "string_end src i lang n = (j, closed)"
      using jc by (cases re) auto
    then have "i < j \<and> j \<le> n \<and> (closed \<longrightarrow> i + 1 < j \<and> src ! (j - 1) = src ! i)"
    proof cases
      case raw
      then show ?thesis using c_raw_end_Some [of src i j] assms(2) by (auto simp: re_def split: if_splits)
    next
      case plain
      then show ?thesis using string_end_bounds [OF plain assms(1)] string_end_closed [of src i lang n j] by auto
    qed
    then show "i < j" "j \<le> n" "closed \<Longrightarrow> i + 1 < j \<and> src ! (j - 1) = src ! i" by auto
  qed
  have "n \<le> length src \<Longrightarrow> covers (if keep then slice src i j else src ! i #
     blank (slice src (i + 1) (if closed then j - 1 else j)) @ (if closed then [src ! i] else [])) src i j"
    using covers_literal [of i j src closed] j by auto
  with j show ?thesis
    unfolding step_string_def Let_def re_def [symmetric] jc by (simp add: turn_ok_def)
qed

lemma turn_ok_c:
  assumes "i < n" "n = length src" "step_c keep src n i bol rc = Some t"
  shows "turn_ok src n i t"
proof (cases "if bol then match_in HEADER src i n else None")
  case (Some h)
  with assms turn_ok_header [OF assms(1,2)] show ?thesis by (auto simp: step_c_def split: if_splits)
next
  case None
  with assms(3) consider (line) "startswith_at src ''//'' i" "t = Emit (blank (slice src i (line_end src i n))) (line_end src i n) bol rc"
    | (block) j where "startswith_at src ''/*'' i" "j = (case find_at src ''*/'' (i + 2) of None \<Rightarrow> n | Some j \<Rightarrow> j + 2)"
        "t = Emit (blank (slice src i j)) j bol rc"
    by (auto simp: step_c_def Let_def split: if_splits)
  then show ?thesis
  proof cases
    case line
    from startswith_at_nth [OF line(1), of 0] have "src ! i \<noteq> LF" by simp
    with line assms(1) line_end_gt [of i n src] line_end_le [of src i n] show ?thesis by (simp add: turn_ok_def covers_blank)
  next
    case block
    then have "i < j \<and> j \<le> n" using assms by (auto split: option.splits simp: find_at_def dest: find_in_Some)
    with block show ?thesis by (simp add: turn_ok_def covers_blank)
  qed
qed

lemma turn_ok_step:
  assumes "i < n" "lang = C \<or> whole \<Longrightarrow> n = length src"
  shows "turn_ok src n i (walk_step lang keep src whole n i bol rc)"
proof -
  have plain: "src ! i = c \<Longrightarrow> turn_ok src n i (Emit [c] (Suc i) b r)" for b r c
    using assms(1) by (auto simp: turn_ok_def covers_char)
  have inc: "is_include_line src whole i \<Longrightarrow> turn_ok src n i (step_include keep src n i bol rc)"
    using turn_ok_include [of i n src whole] assms by (auto simp: is_include_line_def)
  have cc: "lang = C \<Longrightarrow> step_c keep src n i bol rc = Some t \<Longrightarrow> turn_ok src n i t" for t
    using turn_ok_c assms by blast
  have str: "turn_ok src n i (step_string lang keep src whole n i rc)"
    using turn_ok_string assms by blast
  show ?thesis
    using plain inc cc str turn_ok_hash [OF assms(1)] turn_ok_char [OF assms(1)]
    unfolding walk_step_def Let_def by (cases lang) (simp_all split: option.split)
qed


section \<open>The loop\<close>

text \<open>Whatever the bounds, a turn moves forward; this is what makes the walk stop.\<close>

lemma walk_step_progress:
  assumes "i < n"
  shows "walk_step lang keep src whole n i bol rc = Emit p j b r \<Longrightarrow> i < j"
    and "walk_step lang keep src whole n i bol rc = Macro p b' e r \<Longrightarrow> i < b' \<and> b' \<le> e \<and> e \<le> n"
proof -
  have inc: "is_include_line src whole i \<Longrightarrow> step_include keep src n i bol rc = Emit p j b r \<Longrightarrow> i < j" for p j b r
    using line_end_gt [OF assms, of src]
    by (auto simp: step_include_def is_include_line_def Let_def split: option.splits if_splits)
  have hdr: "match_in HEADER src i n = Some h \<Longrightarrow> step_header keep src n i h rc = Emit p j b r \<Longrightarrow> i < j" for h p j b r
    using HEADER_mem [of src i n h] line_end_gt [OF assms, of src]
    by (auto simp: step_header_def Let_def split: option.splits dest!: find_in_char)
  have str: "step_string lang keep src whole n i rc = Emit p j b r \<Longrightarrow> i < j" for p j b r
    using c_raw_end_Some [of src i] string_end_bounds(1) [OF _ assms]
    by (auto simp: step_string_def Let_def split: option.splits prod.splits if_splits dest: Suc_lessD)
  have cc: "step_c keep src n i bol rc = Some (Emit p j b r) \<Longrightarrow> i < j" for p j b r
    using hdr line_end_gt [OF assms, of src] assms startswith_at_nth [of src "''//''" i 0]
    by (auto simp: step_c_def Let_def find_at_def split: option.splits if_splits dest!: find_in_Some)
  have macro: "walk_step lang keep src whole n i bol rc = Macro p b' e r \<Longrightarrow>
      src ! i = HASH \<and> step_hash src whole n i bol rc = Macro p b' e r" for p b' e r
    by (auto simp: walk_step_def Let_def step_include_def step_char_def step_string_def step_c_def step_header_def
        split: option.splits if_splits prod.splits)
  show "walk_step lang keep src whole n i bol rc = Macro p b' e r \<Longrightarrow> i < b' \<and> b' \<le> e \<and> e \<le> n"
    using turn_ok_hash [OF assms, of src whole bol rc] macro by (auto simp: turn_ok_def)
  show "walk_step lang keep src whole n i bol rc = Emit p j b r \<Longrightarrow> i < j"
    using inc str cc turn_ok_hash [OF assms, of src whole bol rc] turn_ok_char [OF assms, of src keep rc]
    by (auto simp: walk_step_def Let_def turn_ok_def split: if_splits option.splits)
qed

definition walk_end :: "string \<Rightarrow> nat option \<Rightarrow> nat" where
  "walk_end src hi = (case hi of None \<Rightarrow> length src | Some h \<Rightarrow> h)"

lemma walk_end_simps [simp]: "walk_end src None = length src" "walk_end src (Some h) = h"
  by (simp_all add: walk_end_def)

text \<open>
  \<open>_walk(src, lang, keep_strings, rec, lo, hi)\<close> from the turn at \<open>i\<close> with the flag \<open>bol\<close>:
  the text it returns and the record it leaves. A macro body is walked with its own flag
  and its own end, and the outer walk goes on at the end of the line.
\<close>

function walk :: "lang \<Rightarrow> bool \<Rightarrow> string \<Rightarrow> nat option \<Rightarrow> nat \<Rightarrow> bool \<Rightarrow> scan_rec \<Rightarrow> string \<times> scan_rec" where
  "walk lang keep src hi i bol rc =
     (if i < walk_end src hi then
        case walk_step lang keep src (hi = None) (walk_end src hi) i bol rc of
          Emit p j b r \<Rightarrow> (let (t, r') = walk lang keep src hi j b r in (p @ t, r'))
        | Macro p b e r \<Rightarrow>
            (let (t1, r1) = walk lang keep src (Some e) b (at_line_start src b) r;
                 (t2, r2) = walk lang keep src hi e bol r1
             in (p @ t1 @ t2, r2))
      else ([], rc))"
  by pat_completeness auto
termination
proof (relation "measure (\<lambda>(lang, keep, src, hi, i, bol, rc). walk_end src hi - i)", goal_cases)
  case (2 lang keep src hi i bol rc p j b r)
  with walk_step_progress(1) [OF 2] show ?case by simp
next
  case (3 lang keep src hi i bol rc p b e r)
  with walk_step_progress(2) [OF 3] show ?case by auto
next
  case (4 lang keep src hi i bol rc p b e r)
  with walk_step_progress(2) [OF 4(1,2)] show ?case by auto
qed simp

declare walk.simps [simp del]

text \<open>\<open>_rec\<close>, \<open>strip\<close>, \<open>literals\<close>, \<open>directives\<close> and \<open>hazards\<close>.\<close>

definition scan_src :: "lang \<Rightarrow> string \<Rightarrow> string" where
  "scan_src lang src = (if lang = C then normalize_c src else src)"

definition rec_of :: "string \<Rightarrow> lang \<Rightarrow> bool \<Rightarrow> string \<times> scan_rec" where
  "rec_of src lang keep = walk lang keep (scan_src lang src) None 0 True empty_rec"

definition strip :: "string \<Rightarrow> lang \<Rightarrow> bool \<Rightarrow> string" where
  "strip src lang keep = fst (rec_of src lang keep)"

definition literals :: "string \<Rightarrow> lang \<Rightarrow> (nat \<times> nat \<times> bool) list" where
  "literals src lang = strings (snd (rec_of src lang True))"

definition directives :: "string \<Rightarrow> (nat \<times> string) list" where
  "directives src = map (\<lambda>(pos, name). (line_at src pos, name)) (found (snd (rec_of src Cyr False)))"

definition hazards :: "string \<Rightarrow> (nat \<times> why) list" where
  "hazards src = map (\<lambda>(pos, y). (line_at src pos, y)) (hazards_at (snd (rec_of src Cyr False)))"


section \<open>Reasoning about the walk\<close>

text \<open>One equation per kind of turn, and the induction that follows the turns.\<close>

lemma walk_eqs:
  "\<not> i < walk_end src hi \<Longrightarrow> walk lang keep src hi i bol rc = ([], rc)"
  "i < walk_end src hi \<Longrightarrow> walk_step lang keep src (hi = None) (walk_end src hi) i bol rc = Emit p j b r \<Longrightarrow>
     walk lang keep src hi i bol rc = (p @ fst (walk lang keep src hi j b r), snd (walk lang keep src hi j b r))"
  "i < walk_end src hi \<Longrightarrow> walk_step lang keep src (hi = None) (walk_end src hi) i bol rc = Macro p b' e r \<Longrightarrow>
     w1 = walk lang keep src (Some e) b' (at_line_start src b') r \<Longrightarrow> w2 = walk lang keep src hi e bol (snd w1) \<Longrightarrow>
     walk lang keep src hi i bol rc = (p @ fst w1 @ fst w2, snd w2)"
  by (subst walk.simps, simp split: prod.split)+

lemma walk_induct [case_names finish emit macro]:
  assumes finish: "\<And>hi i bol rc. \<not> i < walk_end src hi \<Longrightarrow> P hi i bol rc"
    and emit: "\<And>hi i bol rc p j b r. i < walk_end src hi \<Longrightarrow>
      walk_step lang keep src (hi = None) (walk_end src hi) i bol rc = Emit p j b r \<Longrightarrow> P hi j b r \<Longrightarrow> P hi i bol rc"
    and macro: "\<And>hi i bol rc p b e r. i < walk_end src hi \<Longrightarrow>
      walk_step lang keep src (hi = None) (walk_end src hi) i bol rc = Macro p b e r \<Longrightarrow>
      P (Some e) b (at_line_start src b) r \<Longrightarrow>
      P hi e bol (snd (walk lang keep src (Some e) b (at_line_start src b) r)) \<Longrightarrow> P hi i bol rc"
  shows "P hi i bol rc"
proof (induction "walk_end src hi - i" arbitrary: hi i bol rc rule: less_induct)
  case (less hi i bol rc)
  show ?case
  proof (cases "i < walk_end src hi")
    case True
    show ?thesis
    proof (cases "walk_step lang keep src (hi = None) (walk_end src hi) i bol rc")
      case (Emit p j b r)
      from walk_step_progress(1) [OF True Emit] True have "walk_end src hi - j < walk_end src hi - i" by auto
      from emit [OF True Emit less [OF this]] show ?thesis .
    next
      case (Macro p b e r)
      from walk_step_progress(2) [OF True Macro] True
      have "walk_end src (Some e) - b < walk_end src hi - i" "walk_end src hi - e < walk_end src hi - i" by auto
      from macro [OF True Macro less [OF this(1)] less [OF this(2)]] show ?thesis .
    qed
  qed (rule finish)
qed

lemma walk_step_Macro_Cyr: "walk_step lang keep src whole n i bol rc = Macro p b e r \<Longrightarrow> lang = Cyr"
  by (cases lang)
    (auto simp: walk_step_def Let_def step_char_def step_string_def step_c_def step_header_def
      split: option.splits if_splits prod.splits)


lemma walk_turn_ok:
  assumes "i < walk_end src hi" "lang = C \<longrightarrow> hi = None"
  shows "turn_ok src (walk_end src hi) i (walk_step lang keep src (hi = None) (walk_end src hi) i bol rc)"
  using assms by (intro turn_ok_step) auto

lemma walk_emit_ok:
  assumes "i < walk_end src hi" "walk_step lang keep src (hi = None) (walk_end src hi) i bol rc = Emit p j b r"
    "lang = C \<longrightarrow> hi = None"
  shows "i < j" "j \<le> walk_end src hi" "walk_end src hi \<le> length src \<Longrightarrow> covers p src i j"
  using walk_turn_ok [OF assms(1,3), of keep bol rc] assms(2) by (auto simp: turn_ok_def)

lemma walk_macro_ok:
  assumes "i < walk_end src hi" "walk_step lang keep src (hi = None) (walk_end src hi) i bol rc = Macro p b e r"
  shows "i < b" "b \<le> e" "e \<le> walk_end src hi" "walk_end src hi \<le> length src \<Longrightarrow> covers p src i b"
  using walk_turn_ok [OF assms(1), of lang keep bol rc] walk_step_Macro_Cyr [OF assms(2)] assms(2)
  by (auto simp: turn_ok_def)


section \<open>The walk covers its stretch of source\<close>

lemma walk_covers:
  assumes "lang = C \<longrightarrow> hi = None" "walk_end src hi \<le> length src" "i \<le> walk_end src hi"
  shows "covers (fst (walk lang keep src hi i bol rc)) src i (walk_end src hi)"
  using assms
proof (induction hi i bol rc rule: walk_induct [where lang = lang and keep = keep and src = src])
  case (finish hi i bol rc)
  then show ?case by (simp add: walk_eqs)
next
  case (emit hi i bol rc p j b r)
  note p = walk_emit_ok [OF emit.hyps emit.prems(1)]
  from covers_append [OF p(3) emit.IH] p emit.prems emit.hyps show ?case
    by (simp add: walk_eqs)
next
  case (macro hi i bol rc p b e r)
  note p = walk_macro_ok [OF macro.hyps]
  from walk_step_Macro_Cyr [OF macro.hyps(2)] p macro.IH macro.prems
  have "covers (fst (walk lang keep src (Some e) b (at_line_start src b) r)) src b e"
    and "covers (fst (walk lang keep src hi e bol (snd (walk lang keep src (Some e) b (at_line_start src b) r)))) src e (walk_end src hi)"
    by simp_all
  from covers_append [OF p(4) covers_append [OF this]] p macro.hyps macro.prems show ?case
    by (simp add: walk_eqs)
qed

text \<open>
  The contract every gate relies on: the stripped text is the source, character for
  character, except that some characters other than newlines became blanks.
\<close>

lemma strip_covers: "list_all2 blanked (strip src lang keep) (scan_src lang src)"
  using walk_covers [of lang None "scan_src lang src" 0 keep True empty_rec]
  by (simp add: strip_def rec_of_def covers_def)

end
