(* ===== verification/CyrDecl.thy ===== *)
theory CyrDecl
  imports CyrLex "HOL-Library.Char_ord" "HOL-Library.List_Lexorder" "HOL-Library.Product_Lexorder"
begin

text \<open>
  The declaration half of \<^verbatim>\<open>tools/cyr_scan.py\<close>: the patterns for
  \<^verbatim>\<open>fn\<close> and \<^verbatim>\<open>pub\<close>/\<^verbatim>\<open>public\<close>, the
  parser that counts every such token (\<open>fn_decls\<close>), the leading
  \<^verbatim>\<open>private\<close> marker, the arity of a parameter list, and what the consumer
  bundle may not contain (\<open>bundle_problems\<close>).
\<close>


section \<open>Patterns\<close>

definition rx_PUB :: rx where "rx_PUB = Words [''pub'', ''public'']"
definition rx_spaces1 :: rx where "rx_spaces1 = Plus (Cls is_space)"
definition rx_spaces :: rx where "rx_spaces = Star (Cls is_space)"

text \<open>The classes of the two lookbehinds.\<close>

definition fn_pred :: "char \<Rightarrow> bool" where
  "fn_pred c \<longleftrightarrow> ident_char c \<or> c = CHR ''&'' \<or> c = CHR ''.''"

definition FN_HEAD :: rx where
  "FN_HEAD = Seqs [Behind False fn_pred, Opt (Grp 1 (Seq rx_PUB rx_spaces1)), Lit ''fn'', rx_spaces1,
     Grp 2 rx_IDENT, rx_spaces, Chr CHR ''('']"

definition FN_TOKEN :: rx where
  "FN_TOKEN = Seqs [Behind False fn_pred, Lit ''fn'', Ahead False (Cls ident_char)]"

definition PUBLIC_TOKEN :: rx where
  "PUBLIC_TOKEN = Seqs [Behind False ident_char, rx_PUB, Ahead False (Cls ident_char)]"

definition TOP_DECL :: rx where
  "TOP_DECL = Seqs [Behind False ident_char, Opt (Grp 1 (Seq rx_PUB rx_spaces1)),
     Grp 2 (Words [''fn'', ''var'', ''const'', ''enum'', ''struct'', ''union'', ''impl'']), Ahead False (Cls ident_char)]"

definition MARKER :: rx where
  "MARKER = Seqs [Bol, Star (Cls blank_char), Lit ''private'', Star (Cls blank_char), Opt (Chr CHR '';''),
     Star (Cls blank_char), Eol]"

definition ENUM_TOKEN :: rx where
  "ENUM_TOKEN = Seqs [Behind False ident_char, Lit ''enum'', Ahead False (Cls ident_char)]"

definition DERIVE_LINE :: rx where
  "DERIVE_LINE = Seqs [Bol, Star (Cls blank_char), Lit ''#derive'', Ahead False (Cls ident_char)]"

definition DEFINE_LINE :: rx where
  "DEFINE_LINE = Seqs [Bol, Star (Cls blank_char), Lit ''#define'', Ahead False (Cls ident_char)]"


section \<open>Refusals of the bundle\<close>

text \<open>
  The messages, whose order is the order \<^verbatim>\<open>sorted\<close> puts findings of one line
  in. \<open>char_text\<close> and \<open>string_text\<close> spell the two that hold quotes.
\<close>

definition char_text :: string where
  "char_text = ''a char literal cycc'' @ [SQ] @ ''s preprocessor and lexer read differently (`'' @ [SQ, SQ, SQ] @
     ''` or a quoted raw newline): write '' @ [SQ, BSL, SQ, SQ] @ '' or '' @ [SQ, BSL] @ ''n'' @ [SQ]"

definition enum_text :: string where
  "enum_text = ''an enum (its members reach the consumer; visibility covers fns and vars only)''"

definition define_text :: string where
  "define_text = ''#define (a flag set in every consumer'' @ [SQ] @ ''s compilation)''"

fun why_text :: "why \<Rightarrow> string" where
  "why_text IncludeOpen = ''an include whose file name does not close on its line''"
| "why_text CharTwoWays = char_text"
| "why_text StringOpenFile = ''a string literal still open at the end of its file: cycc continues it into whatever follows the file''"
| "why_text StringOpenDefine = ''a string literal still open at the end of its #define line: each call site opens a string there''"
| "why_text DeriveLine = ''#derive (on an enum it emits an always-public helper)''"
| "why_text DefineLine = define_text"
| "why_text EnumToken = enum_text"

lemma why_text_inj: "why_text a = why_text b \<Longrightarrow> a = b"
  by (cases a; cases b) (simp_all add: char_text_def define_text_def enum_text_def)

instantiation why :: linorder
begin

definition less_eq_why :: "why \<Rightarrow> why \<Rightarrow> bool" where
  "less_eq_why a b \<longleftrightarrow> why_text a \<le> why_text b"

definition less_why :: "why \<Rightarrow> why \<Rightarrow> bool" where
  "less_why a b \<longleftrightarrow> why_text a < why_text b"

instance
  by standard (auto simp: less_eq_why_def less_why_def intro: why_text_inj)

end

definition bundle_problems :: "string \<Rightarrow> (nat \<times> why) list" where
  "bundle_problems src =
     (let derives = map (\<lambda>m. (line_at src (m_start m), DeriveLine)) (finditer DERIVE_LINE src);
          defines = map (\<lambda>m. (line_at src (m_start m), DefineLine)) (finditer DEFINE_LINE src);
          enums = map (\<lambda>m. (line_at src (m_start m), EnumToken)) (finditer ENUM_TOKEN (strip src Cyr False))
      in sort (derives @ defines @ enums @ hazards src))"


section \<open>Declarations\<close>

text \<open>\<open>_close_paren\<close>: the loop with its depth, and the call on the parenthesis at \<open>k\<close>.\<close>

function close_from :: "string \<Rightarrow> int \<Rightarrow> nat \<Rightarrow> nat option" where
  "close_from code depth j =
     (if j < length code then
        if code ! j = CHR ''('' then close_from code (depth + 1) (j + 1)
        else if code ! j = CHR '')'' then
          (if depth - 1 = 0 then Some j else close_from code (depth - 1) (j + 1))
        else close_from code depth (j + 1)
      else None)"
  by pat_completeness auto
termination by (relation "measure (\<lambda>(code, depth, j). length code - j)") auto

declare close_from.simps [simp del]

definition close_paren :: "string \<Rightarrow> nat \<Rightarrow> nat option" where
  "close_paren code k = close_from code 0 k"

record fn_decl =
  is_public :: bool
  fn_name :: string
  fn_args :: string

text \<open>The three \<^verbatim>\<open>ValueError\<close>s of \<open>fn_decls\<close>, with what their messages name.\<close>

datatype decl_error =
    Unbalanced string        \<comment> \<open>the fn whose parameter list never closes\<close>
  | FnTokens nat nat         \<comment> \<open>\<open>fn\<close> tokens, parsed declarations\<close>
  | PublicTokens nat nat     \<comment> \<open>\<open>pub\<close>/\<open>public\<close> tokens, public declarations\<close>

text \<open>The declaration one head match parses to; a list never closed is an error.\<close>

definition parse_decl :: "string \<Rightarrow> rmatch \<Rightarrow> decl_error + fn_decl" where
  "parse_decl code m =
     (let k = m_end m - 1 in
      case close_paren code k of
        None \<Rightarrow> Inl (Unbalanced (group_or_empty code m 2))
      | Some e \<Rightarrow>
          Inr \<lparr>is_public = (group_span m 1 \<noteq> None), fn_name = group_or_empty code m 2,
               fn_args = slice code (k + 1) e\<rparr>)"

definition fn_decls :: "string \<Rightarrow> decl_error + fn_decl list" where
  "fn_decls code =
     bindE (mapE (parse_decl code) (finditer FN_HEAD code)) (\<lambda>decls.
       let nfn = length (findall FN_TOKEN code);
           npub = length (findall PUBLIC_TOKEN code);
           nmarked = length (filter is_public decls)
       in if nfn \<noteq> length decls then Inl (FnTokens nfn (length decls))
          else if npub \<noteq> nmarked then Inl (PublicTokens npub nmarked)
          else Inr decls)"

datatype marker_problem = NoMarker | DeclBeforeMarker

definition private_first :: "string \<Rightarrow> marker_problem option" where
  "private_first code =
     (case re_search MARKER code of
        None \<Rightarrow> Some NoMarker
      | Some marker \<Rightarrow>
          (case re_search TOP_DECL code of
             None \<Rightarrow> None
           | Some first \<Rightarrow> if m_start first < m_start marker then Some DeclBeforeMarker else None))"


section \<open>Arity\<close>

text \<open>The loop of \<open>arity\<close> over the rest of the text, with its three variables.\<close>

definition opens :: "char \<Rightarrow> bool" where "opens c \<longleftrightarrow> c \<in> set ''([{<''"
definition closes :: "char \<Rightarrow> bool" where "closes c \<longleftrightarrow> c \<in> set '')]}>''"

definition nonblank :: "string \<Rightarrow> nat" where
  "nonblank seg = (if strip_ws seg \<noteq> [] then 1 else 0)"

fun arity_loop :: "nat \<Rightarrow> nat \<Rightarrow> string \<Rightarrow> string \<Rightarrow> nat" where
  "arity_loop depth n seg [] = n + nonblank seg"
| "arity_loop depth n seg (c # cs) =
     (let d = (if opens c then depth + 1 else if closes c then depth - 1 else depth)
      in if c = CHR '','' \<and> d = 0 then arity_loop d (n + nonblank seg) [] cs
         else arity_loop d n (seg @ [c]) cs)"

definition arity :: "string \<Rightarrow> nat" where
  "arity args = arity_loop 0 0 [] args"

end
