(* ===== verification/CyrLexSpec.thy ===== *)
theory CyrLexSpec
  imports CyrLex
begin

text \<open>
  What the scanner of \<open>CyrLex\<close> promises its callers: the stripped text keeps every offset
  and every line number, what it records lies in bounds, in order and on the right
  character, and a scan of concatenated modules is the concatenation of their scans.
\<close>


section \<open>The contract of a stripper\<close>

text \<open>
  What a gate needs of the text it matches its patterns in: it is the source, with some
  characters other than newlines blanked. Offsets and line numbers then carry over.
\<close>

locale line_preserving =
  fixes out :: "string \<Rightarrow> string" and source :: "string \<Rightarrow> string"
  assumes covers_source: "list_all2 blanked (out s) (source s)"
begin

lemma length_out: "length (out s) = length (source s)"
  using covers_source by (rule list_all2_lengthD)

lemma nth_out: "i < length (source s) \<Longrightarrow> blanked (out s ! i) (source s ! i)"
  using covers_source [of s] by (simp add: list_all2_conv_all_nth)

lemma kept: "i < length (source s) \<Longrightarrow> out s ! i \<noteq> SP \<Longrightarrow> out s ! i = source s ! i"
  using nth_out [of i s] by (auto simp: blanked_def)

lemma newline_iff: "i < length (source s) \<Longrightarrow> out s ! i = LF \<longleftrightarrow> source s ! i = LF"
  using nth_out [of i s] by simp

lemma count_newlines: "list_all2 blanked xs ys \<Longrightarrow> count_list xs LF = count_list ys LF"
  by (induction rule: list_all2_induct) auto

lemma same_line: "line_at (out s) pos = line_at (source s) pos"
  unfolding line_at_def using count_newlines [OF list_all2_takeI [OF covers_source]] by metis

lemma occurrence:
  assumes "startswith_at (out s) p i" "SP \<notin> set p" "p \<noteq> []"
  shows "startswith_at (source s) p i"
proof -
  have "i + length p \<le> length (source s)" using startswith_at_length [OF assms(1,3)] by (simp add: length_out)
  moreover have "source s ! (i + k) = p ! k" if "k < length p" for k
  proof -
    from startswith_at_nth [OF assms(1) that] have "out s ! (i + k) = p ! k" .
    moreover from that assms(2) have "p ! k \<noteq> SP" by (metis nth_mem)
    ultimately show ?thesis using kept [of "i + k" s] that \<open>i + length p \<le> length (source s)\<close> by simp
  qed
  ultimately show ?thesis by (simp add: startswith_at_conv)
qed

end

interpretation stripper: line_preserving "\<lambda>src. strip src lang keep" "scan_src lang" for lang keep
  by unfold_locales (rule strip_covers)


section \<open>Records do not depend on keep_strings\<close>

definition turn_shape :: "turn \<Rightarrow> (nat \<times> bool \<times> scan_rec) + (nat \<times> nat \<times> scan_rec)" where
  "turn_shape t = (case t of Emit p j b r \<Rightarrow> Inl (j, b, r) | Macro p b e r \<Rightarrow> Inr (b, e, r))"

lemma turn_shape_keep:
  "turn_shape (walk_step lang keep src whole n i bol rc) = turn_shape (walk_step lang True src whole n i bol rc)"
proof -
  have 1: "turn_shape (step_include keep src n i bol rc) = turn_shape (step_include True src n i bol rc)"
    by (simp add: step_include_def turn_shape_def Let_def split: option.split)
  have 2: "turn_shape (step_char keep src n i rc) = turn_shape (step_char True src n i rc)"
    by (simp add: step_char_def turn_shape_def Let_def split: prod.split)
  have 3: "turn_shape (step_string lang keep src whole n i rc) = turn_shape (step_string lang True src whole n i rc)"
    by (simp add: step_string_def turn_shape_def Let_def split: prod.split)
  have 4: "map_option turn_shape (step_c keep src n i bol rc) = map_option turn_shape (step_c True src n i bol rc)"
    by (simp add: step_c_def step_header_def turn_shape_def Let_def split: option.split)
  show ?thesis
    using 4 by (cases "step_c keep src n i bol rc"; cases "step_c True src n i bol rc")
      (simp_all add: walk_step_def Let_def if_distrib [of turn_shape] 1 2 3 split del: if_split cong: if_cong)
qed

lemma walk_rec_keep: "snd (walk lang keep src hi i bol rc) = snd (walk lang True src hi i bol rc)"
proof (induction hi i bol rc rule: walk_induct [where lang = lang and keep = keep and src = src])
  case (finish hi i bol rc)
  then show ?case by (simp add: walk_eqs)
next
  case (emit hi i bol rc p j b r)
  with turn_shape_keep [of lang keep src "hi = None" "walk_end src hi" i bol rc] obtain p' where
    "walk_step lang True src (hi = None) (walk_end src hi) i bol rc = Emit p' j b r"
    by (auto simp: turn_shape_def split: turn.splits)
  with emit show ?case by (simp add: walk_eqs)
next
  case (macro hi i bol rc p b e r)
  with turn_shape_keep [of lang keep src "hi = None" "walk_end src hi" i bol rc] obtain p' where
    "walk_step lang True src (hi = None) (walk_end src hi) i bol rc = Macro p' b e r"
    by (auto simp: turn_shape_def split: turn.splits)
  with macro show ?case by (simp add: walk_eqs)
qed

lemma rec_of_keep: "snd (rec_of src lang keep) = snd (rec_of src lang True)"
  unfolding rec_of_def by (rule walk_rec_keep)


section \<open>What a stretch of the walk records\<close>

text \<open>
  The entries added between \<open>a\<close> and \<open>b\<close>: directives at hashes, literals from their opening
  quote on, in order and disjoint, and hazards, all inside the stretch; and a literal of
  Cyrius that is not followed by a hazard is closed.
\<close>

definition lits_ok :: "string \<Rightarrow> nat \<Rightarrow> nat \<Rightarrow> (nat \<times> nat \<times> bool) list \<Rightarrow> bool" where
  "lits_ok src a b S \<longleftrightarrow>
     (\<forall>(s, e, raw) \<in> set S. a \<le> s \<and> s < e \<and> e \<le> b \<and> src ! s = DQ) \<and>
     sorted_wrt (\<lambda>x y. fst (snd x) \<le> fst y) S"

definition founds_ok :: "string \<Rightarrow> nat \<Rightarrow> nat \<Rightarrow> (nat \<times> string) list \<Rightarrow> bool" where
  "founds_ok src a b F \<longleftrightarrow>
     (\<forall>(p, w) \<in> set F. a \<le> p \<and> p < b \<and> src ! p = HASH) \<and> sorted_wrt (\<lambda>x y. fst x < fst y) F"

definition hazards_ok :: "nat \<Rightarrow> nat \<Rightarrow> (nat \<times> why) list \<Rightarrow> bool" where
  "hazards_ok a b H \<longleftrightarrow> (\<forall>(p, y) \<in> set H. a \<le> p \<and> p < b) \<and> sorted_wrt (\<lambda>x y. fst x < fst y) H"

definition lits_closed :: "string \<Rightarrow> (nat \<times> nat \<times> bool) list \<Rightarrow> bool" where
  "lits_closed src S \<longleftrightarrow> (\<forall>(s, e, raw) \<in> set S. s + 1 < e \<and> src ! (e - 1) = DQ)"

definition extends :: "lang \<Rightarrow> string \<Rightarrow> nat \<Rightarrow> nat \<Rightarrow> scan_rec \<Rightarrow> scan_rec \<Rightarrow> bool" where
  "extends lang src a b rc r \<longleftrightarrow>
     (\<exists>F S H. found r = found rc @ F \<and> strings r = strings rc @ S \<and> hazards_at r = hazards_at rc @ H \<and>
        founds_ok src a b F \<and> lits_ok src a b S \<and> hazards_ok a b H \<and> (lang = Cyr \<and> H = [] \<longrightarrow> lits_closed src S))"

lemma lits_ok_append:
  "lits_ok src a b S \<Longrightarrow> lits_ok src b c T \<Longrightarrow> a \<le> b \<Longrightarrow> b \<le> c \<Longrightarrow> lits_ok src a c (S @ T)"
  unfolding lits_ok_def sorted_wrt_append by fastforce

lemma founds_ok_append:
  "founds_ok src a b S \<Longrightarrow> founds_ok src b c T \<Longrightarrow> a \<le> b \<Longrightarrow> b \<le> c \<Longrightarrow> founds_ok src a c (S @ T)"
  unfolding founds_ok_def sorted_wrt_append by fastforce

lemma hazards_ok_append:
  "hazards_ok a b S \<Longrightarrow> hazards_ok b c T \<Longrightarrow> a \<le> b \<Longrightarrow> b \<le> c \<Longrightarrow> hazards_ok a c (S @ T)"
  unfolding hazards_ok_def sorted_wrt_append by fastforce

lemma extends_trans:
  assumes "extends lang src a b rc r" "extends lang src b c r q" "a \<le> b" "b \<le> c"
  shows "extends lang src a c rc q"
proof -
  from assms(1,2) obtain F S H F' S' H' where
    "found q = found rc @ F @ F'" "strings q = strings rc @ S @ S'" "hazards_at q = hazards_at rc @ H @ H'"
    "founds_ok src a b F" "lits_ok src a b S" "hazards_ok a b H"
    "founds_ok src b c F'" "lits_ok src b c S'" "hazards_ok b c H'"
    and "lang = Cyr \<and> H = [] \<longrightarrow> lits_closed src S" "lang = Cyr \<and> H' = [] \<longrightarrow> lits_closed src S'"
    unfolding extends_def by (metis append.assoc)
  moreover from this have "lang = Cyr \<and> H @ H' = [] \<longrightarrow> lits_closed src (S @ S')" by (auto simp: lits_closed_def)
  ultimately show ?thesis unfolding extends_def
    using founds_ok_append lits_ok_append hazards_ok_append assms(3,4) by blast
qed

lemma extends_refl: "extends lang src a b rc rc"
  by (simp add: extends_def founds_ok_def lits_ok_def hazards_ok_def lits_closed_def)

lemma extends_found: "a \<le> p \<Longrightarrow> p < b \<Longrightarrow> src ! p = HASH \<Longrightarrow> extends lang src a b rc (add_found p w rc)"
  by (auto simp: extends_def add_found_def founds_ok_def lits_ok_def hazards_ok_def lits_closed_def)

lemma extends_string:
  "a \<le> s \<Longrightarrow> s < e \<Longrightarrow> e \<le> b \<Longrightarrow> src ! s = DQ \<Longrightarrow> (lang = Cyr \<Longrightarrow> s + 1 < e \<and> src ! (e - 1) = DQ) \<Longrightarrow>
     extends lang src a b rc (add_string s e raw rc)"
  by (auto simp: extends_def add_string_def founds_ok_def lits_ok_def hazards_ok_def lits_closed_def)

lemma extends_hazard: "a \<le> p \<Longrightarrow> p < b \<Longrightarrow> extends lang src a b rc (add_hazard p y rc)"
  by (auto simp: extends_def add_hazard_def founds_ok_def lits_ok_def hazards_ok_def lits_closed_def)

lemma extends_string_hazard:
  "a \<le> s \<Longrightarrow> s < e \<Longrightarrow> e \<le> b \<Longrightarrow> src ! s = DQ \<Longrightarrow> a \<le> p \<Longrightarrow> p < b \<Longrightarrow>
     extends lang src a b rc (add_hazard p y (add_string s e raw rc))"
  by (auto simp: extends_def add_hazard_def add_string_def founds_ok_def lits_ok_def hazards_ok_def lits_closed_def)

lemmas extends_intros = extends_refl extends_found extends_string extends_hazard extends_string_hazard

definition turn_extends :: "lang \<Rightarrow> string \<Rightarrow> nat \<Rightarrow> scan_rec \<Rightarrow> turn \<Rightarrow> bool" where
  "turn_extends lang src i rc t = (case t of Emit p j b r \<Rightarrow> extends lang src i j rc r | Macro p b e r \<Rightarrow> extends lang src i b rc r)"

lemma hash_extends:
  assumes "i < n" "src ! i = HASH"
  shows "turn_extends lang src i rc (step_hash src whole n i bol rc)"
  using line_end_gt [OF assms(1), of src] macro_body_bounds(1) [of src i "line_end src i n" n] assms
  by (auto simp: step_hash_def turn_extends_def Let_def intro!: extends_intros split: option.splits if_splits)

lemma include_extends:
  assumes "i < n" "is_include_line src whole i" "n = length src"
  shows "turn_extends lang src i rc (step_include keep src n i bol rc)"
proof -
  have sw: "startswith_at src (''include '' @ [DQ]) i" and "src ! i \<noteq> LF"
    using assms by (auto simp: is_include_line_def)
  then have eol: "i < line_end src i n" using line_end_gt [OF assms(1), of src] by simp
  have dq: "src ! (i + 8) = DQ" using startswith_at_nth [OF sw, of 8] by simp
  show ?thesis
  proof (cases "find_at src [DQ] (i + 9)")
    case None
    with eol show ?thesis by (auto simp: step_include_def turn_extends_def Let_def intro!: extends_intros)
  next
    case (Some q)
    then have q: "i + 9 \<le> q" "q < length src" "src ! q = DQ"
      by (auto simp: find_at_def dest: find_in_char)
    have "line_end src i n \<noteq> q"
    proof
      assume eq: "line_end src i n = q"
      with q(2) assms(3) have "line_end src i n < n" by simp
      from line_end_at [OF this] eq q(3) show False by simp
    qed
    with q dq eol Some show ?thesis
      by (auto simp: step_include_def turn_extends_def Let_def simp del: append.simps intro!: extends_intros)
  qed
qed

lemma string_extends:
  assumes "i < n"
  shows "turn_extends lang src i rc (step_string lang keep src whole n i rc)"
proof -
  define re where "re = (if lang = C \<and> src ! i = DQ then c_raw_end src i else None)"
  obtain j closed where jc: "(case re of Some j \<Rightarrow> (j, True) | None \<Rightarrow> string_end src i lang n) = (j, closed)"
    by (metis surj_pair)
  have "i < j"
    using jc c_raw_end_Some [of src i j] string_end_bounds(1) [OF _ assms, of src lang j closed]
    by (cases re) (auto simp: re_def split: if_splits)
  moreover have "lang = Cyr \<Longrightarrow> closed \<Longrightarrow> i + 1 < j \<and> src ! (j - 1) = src ! i"
    using jc string_end_closed [of src i lang n j] by (auto simp: re_def)
  ultimately show ?thesis unfolding step_string_def Let_def re_def [symmetric] jc
    by (auto simp: turn_extends_def intro!: extends_intros)
qed

lemma step_extends:
  assumes "i < n" "lang = C \<or> whole \<Longrightarrow> n = length src"
  shows "turn_extends lang src i rc (walk_step lang keep src whole n i bol rc)"
proof -
  have inc: "is_include_line src whole i \<Longrightarrow> turn_extends lang src i rc (step_include keep src n i bol rc)"
    using include_extends [OF assms(1)] assms(2) by (auto simp: is_include_line_def)
  have chr: "turn_extends lang src i rc (step_char keep src n i rc)"
    using cyr_char_end_bounds(1) [OF _ assms(1)]
    by (auto simp: step_char_def turn_extends_def Let_def intro!: extends_intros split: prod.splits)
  have cc: "step_c keep src n i bol rc = Some t \<Longrightarrow> turn_extends lang src i rc t" for t
    by (auto simp: step_c_def step_header_def turn_extends_def Let_def intro!: extends_intros split: option.splits if_splits)
  have plain: "turn_extends lang src i rc (Emit p j b rc)" for p j b
    by (simp add: turn_extends_def extends_refl)
  show ?thesis
    using inc chr cc plain hash_extends [OF assms(1)] string_extends [OF assms(1)]
    unfolding walk_step_def Let_def by (cases lang) (simp_all split: option.split)
qed

lemma walk_extends:
  assumes "lang = C \<longrightarrow> hi = None" "i \<le> walk_end src hi"
  shows "extends lang src i (walk_end src hi) rc (snd (walk lang keep src hi i bol rc))"
  using assms
proof (induction hi i bol rc rule: walk_induct [where lang = lang and keep = keep and src = src])
  case (finish hi i bol rc)
  then show ?case by (simp add: walk_eqs extends_refl)
next
  case (emit hi i bol rc p j b r)
  note p = walk_emit_ok(1,2) [OF emit.hyps emit.prems(1)]
  have "turn_extends lang src i rc (walk_step lang keep src (hi = None) (walk_end src hi) i bol rc)"
    using emit.prems(1) by (intro step_extends [OF emit.hyps(1)]) auto
  with emit p show ?case by (auto simp: turn_extends_def walk_eqs intro: extends_trans)
next
  case (macro hi i bol rc p b e r)
  note p = walk_macro_ok(1,2,3) [OF macro.hyps]
  have "turn_extends lang src i rc (walk_step lang keep src (hi = None) (walk_end src hi) i bol rc)"
    using macro.prems(1) by (intro step_extends [OF macro.hyps(1)]) auto
  then have 1: "extends lang src i b rc r" by (simp add: turn_extends_def macro.hyps)
  define w where "w = walk lang keep src (Some e) b (at_line_start src b) r"
  from macro.IH p walk_step_Macro_Cyr [OF macro.hyps(2)] macro.prems
  have 2: "extends lang src b e r (snd w)" "extends lang src e (walk_end src hi) (snd w) (snd (walk lang keep src hi e bol (snd w)))"
    by (auto simp: w_def)
  from extends_trans [OF 1 extends_trans [OF 2]] p show ?case
    by (simp add: walk_eqs(3) [OF macro.hyps refl refl] w_def)
qed

lemma rec_of_extends: "extends lang (scan_src lang src) 0 (length (scan_src lang src)) empty_rec (snd (rec_of src lang keep))"
  using walk_extends [of lang None 0 "scan_src lang src" empty_rec keep True] by (simp add: rec_of_def)



section \<open>The number of turns\<close>

text \<open>The turns the loop of \<open>_walk\<close> makes, those of its walks over macro bodies included.\<close>

function walk_turns :: "lang \<Rightarrow> bool \<Rightarrow> string \<Rightarrow> nat option \<Rightarrow> nat \<Rightarrow> bool \<Rightarrow> scan_rec \<Rightarrow> nat" where
  "walk_turns lang keep src hi i bol rc =
     (if i < walk_end src hi then
        case walk_step lang keep src (hi = None) (walk_end src hi) i bol rc of
          Emit p j b r \<Rightarrow> 1 + walk_turns lang keep src hi j b r
        | Macro p b e r \<Rightarrow>
            1 + walk_turns lang keep src (Some e) b (at_line_start src b) r +
            walk_turns lang keep src hi e bol (snd (walk lang keep src (Some e) b (at_line_start src b) r))
      else 0)"
  by pat_completeness auto
termination
proof (relation "measure (\<lambda>(lang, keep, src, hi, i, bol, rc). walk_end src hi - i)", goal_cases)
  case (2 lang keep src hi i bol rc p j b r)
  with walk_step_progress(1) [OF 2] show ?case by simp
next
  case (3 lang keep src hi i bol rc p b e r)
  with walk_step_progress(2) [OF 3] show ?case by auto
next
  case (4 lang keep src hi i bol rc p b e r)
  with walk_step_progress(2) [OF 4] show ?case by auto
qed simp

declare walk_turns.simps [simp del]

lemma walk_turns_le: "walk_turns lang keep src hi i bol rc \<le> walk_end src hi - i"
proof (induction hi i bol rc rule: walk_induct [where lang = lang and keep = keep and src = src])
  case (finish hi i bol rc)
  then show ?case by (simp add: walk_turns.simps)
next
  case (emit hi i bol rc p j b r)
  with walk_step_progress(1) [OF emit(1,2)] show ?case by (subst walk_turns.simps) simp
next
  case (macro hi i bol rc p b e r)
  let ?x = "walk_turns lang keep src (Some e) b (at_line_start src b) r"
  let ?y = "walk_turns lang keep src hi e bol (snd (walk lang keep src (Some e) b (at_line_start src b) r))"
  from walk_step_progress(2) [OF macro(1,2)] have "i < b" "b \<le> e" "e \<le> walk_end src hi" by auto
  moreover have "?x \<le> e - b" "?y \<le> walk_end src hi - e" using macro(3,4) by simp_all
  ultimately have "1 + ?x + ?y \<le> walk_end src hi - i" by linarith
  moreover have "walk_turns lang keep src hi i bol rc = 1 + ?x + ?y"
    using macro(1,2) by (subst walk_turns.simps) simp
  ultimately show ?case by simp
qed


section \<open>Attribute words\<close>

lemma attr_word_chars:
  "(w, ap) \<in> set ATTR_WORDS \<Longrightarrow> c \<in> set w \<Longrightarrow> c \<notin> {SP, TAB, CR, LF, CHR ''(''}"
  "(w, ap) \<in> set ATTR_WORDS \<Longrightarrow> w \<noteq> [] \<and> is_lower (w ! 0)"
  by (auto simp: ATTR_WORDS_def is_lower_def)

definition spells_attr :: "string \<Rightarrow> nat \<Rightarrow> nat \<Rightarrow> string \<Rightarrow> bool \<Rightarrow> bool" where
  "spells_attr src q n w ap \<longleftrightarrow>
     (w, ap) \<in> set ATTR_WORDS \<and> q + 1 + length w \<le> n \<and> startswith_at src w (q + 1) \<and>
     attr_bound src (q + 1 + length w) ap n"

text \<open>At most one word ends at its boundary: a longer one would put a letter there.\<close>

lemma spells_attr_shorter:
  assumes "spells_attr src q n w ap" "spells_attr src q n v bp" "length w < length v"
  shows False
proof -
  let ?e = "q + 1 + length w"
  from assms(2) have v: "(v, bp) \<in> set ATTR_WORDS" "q + 1 + length v \<le> n" "startswith_at src v (q + 1)"
    by (auto simp: spells_attr_def)
  from startswith_at_nth [OF v(3) assms(3)] have "src ! ?e = v ! length w" by simp
  moreover have "v ! length w \<in> set v" using assms(3) by simp
  ultimately have "src ! ?e \<notin> {SP, TAB, CR, LF, CHR ''(''}" using attr_word_chars(1) [OF v(1)] by metis
  moreover have "attr_bound src ?e ap n" "?e < n" using assms v(2) by (auto simp: spells_attr_def)
  ultimately show False by (auto simp: attr_bound_def)
qed

lemma spells_attr_unique: "spells_attr src q n w ap \<Longrightarrow> spells_attr src q n v bp \<Longrightarrow> v = w"
proof -
  assume h: "spells_attr src q n w ap" "spells_attr src q n v bp"
  then have "length w = length v" using spells_attr_shorter by (metis linorder_neqE_nat)
  with h show "v = w" by (auto simp: spells_attr_def startswith_at_def)
qed

lemma attr_word_iff:
  "attr_word src q n = Some w \<longleftrightarrow> q + 2 < n \<and> (\<exists>ap. spells_attr src q n w ap)"
proof
  assume "attr_word src q n = Some w"
  then show "q + 2 < n \<and> (\<exists>ap. spells_attr src q n w ap)"
    by (elim attr_word_SomeD) (auto simp: spells_attr_def)
next
  assume h: "q + 2 < n \<and> (\<exists>ap. spells_attr src q n w ap)"
  then obtain ap where ap: "spells_attr src q n w ap" by blast
  let ?P = "\<lambda>(w, ap). let e = q + 1 + length w in e \<le> n \<and> startswith_at src w (q + 1) \<and> attr_bound src e ap n"
  from ap have "is_lower (src ! (q + 1))"
    using attr_word_chars(2) startswith_at_nth [of src w "q + 1" 0] by (auto simp: spells_attr_def)
  moreover have "map_option fst (List.find ?P ATTR_WORDS) = Some (fst (w, ap))"
  proof (rule find_map_unique)
    show "fst y = fst (w, ap)" if "y \<in> set ATTR_WORDS" "?P y" for y
      using spells_attr_unique [OF ap, of "fst y" "snd y"] that by (cases y) (simp add: spells_attr_def Let_def)
  qed (use ap in \<open>auto simp: spells_attr_def Let_def\<close>)
  ultimately show "attr_word src q n = Some w" using h by (simp add: attr_word_def)
qed

lemma attr_word_None_iff: "attr_word src q n = None \<longleftrightarrow> \<not> (q + 2 < n \<and> (\<exists>w ap. spells_attr src q n w ap))"
  by (metis attr_word_iff not_None_eq)


section \<open>C line structure\<close>

text \<open>The newlines of the text after phase 1 are those of the text after phase 2.\<close>

lemma skip_while_count:
  "j \<le> k \<Longrightarrow> k \<le> length s \<Longrightarrow> (\<And>t. j \<le> t \<Longrightarrow> t < k \<Longrightarrow> s ! t \<noteq> LF) \<Longrightarrow>
     count_list (drop j s) LF = count_list (drop k s) LF"
proof (induction "k - j" arbitrary: j)
  case (Suc d)
  then have "j < length s" "s ! j \<noteq> LF" by auto
  then have "count_list (drop j s) LF = count_list (drop (Suc j) s) LF"
    by (simp add: Cons_nth_drop_Suc [symmetric])
  also have "\<dots> = count_list (drop k s) LF"
    using Suc.hyps(2) Suc.prems by (intro Suc.hyps(1)) auto
  finally show ?case .
qed simp

lemma splice_end_count:
  assumes "splice_end s i = Some j" "i < length s"
  shows "count_list (drop i s) LF = Suc (count_list (drop j s) LF)"
proof -
  let ?k = "skip_while splice_blank s (i + 1) (length s)"
  from assms(1) have k: "?k < length s" "s ! ?k = LF" "j = ?k + 1" "s ! i = BSL"
    by (auto simp: splice_end_def Let_def split: if_splits)
  have "s ! t \<noteq> LF" if "i \<le> t" "t < ?k" for t
  proof (cases "t = i")
    case True
    then show ?thesis by (simp add: k(4))
  next
    case False
    with that skip_while_all [of "i + 1" t splice_blank s "length s"] show ?thesis
      by (auto simp: splice_blank_def)
  qed
  then have "count_list (drop i s) LF = count_list (drop ?k s) LF"
    using k(1) skip_while_ge [of "i + 1" splice_blank s "length s"] by (intro skip_while_count) auto
  also have "\<dots> = Suc (count_list (drop j s) LF)"
    using k by (simp add: Cons_nth_drop_Suc [symmetric])
  finally show ?thesis .
qed

lemma count_replicate [simp]: "count_list (replicate k c) c = k"
  by (induction k) auto

lemma norm_loop_count: "count_list (norm_loop s i pending) LF = count_list (drop i s) LF + pending"
proof (induction s i pending rule: norm_loop.induct)
  case (1 s i pending)
  show ?case
  proof (cases "i < length s")
    case True
    show ?thesis
    proof (cases "splice_end s i")
      case None
      have "drop i s = s ! i # drop (i + 1) s" using True by (simp add: Cons_nth_drop_Suc)
      with "1.IH"(1,2) [OF True None] True None show ?thesis
        by (cases "pending = 0"; subst norm_loop.simps) simp_all
    next
      case (Some j)
      from "1.IH"(3) [OF True Some] splice_end_count [OF Some True] True Some show ?thesis
        by (subst norm_loop.simps) simp
    qed
  next
    case False
    then show ?thesis by (subst norm_loop.simps) simp
  qed
qed

lemma norm_loop_subset: "set (norm_loop s i pending) \<subseteq> insert LF (set s)"
proof (induction s i pending rule: norm_loop.induct)
  case (1 s i pending)
  show ?case
  proof (cases "i < length s")
    case True
    with 1 show ?thesis
      by (subst norm_loop.simps) (auto split: option.splits if_splits)
  next
    case False
    then show ?thesis by (subst norm_loop.simps) (auto simp: set_replicate_conv_if)
  qed
qed

section \<open>Properties\<close>

text \<open>C1: stripping only blanks. The text a gate matches its patterns in has the length of the
  source and agrees with it character by character, except where a character other than a
  newline was replaced by a blank; no newline is added, moved or lost (in C, against the
  source after translation phases 1 and 2).\<close>

theorem strip_only_blanks: "list_all2 blanked (strip src lang keep) (scan_src lang src)"
  by (rule stripper.covers_source)

text \<open>Line numbers survive stripping. Every offset is on the same line of the stripped text as
  of the source, so a finding's line can be computed from either.\<close>

theorem strip_keeps_lines: "line_at (strip src lang keep) pos = line_at (scan_src lang src) pos"
  by (rule stripper.same_line)

text \<open>C2: a blank-free word found in the stripped text stands in the source at the same offset, so
  stripping never makes up a token.\<close>

theorem strip_invents_no_token:
  "startswith_at (strip src lang keep) p i \<Longrightarrow> SP \<notin> set p \<Longrightarrow> p \<noteq> [] \<Longrightarrow> startswith_at (scan_src lang src) p i"
  by (rule stripper.occurrence)

text \<open>The literals a scan reports open with a double quote, lie inside the source, and follow one
  another without overlap.\<close>

theorem literals_in_order:
  "(\<forall>(s, e, raw) \<in> set (literals src lang). s < e \<and> e \<le> length (scan_src lang src) \<and> scan_src lang src ! s = DQ) \<and>
   sorted_wrt (\<lambda>x y. fst (snd x) \<le> fst y) (literals src lang)"
  using rec_of_extends [of lang src True] by (auto simp: extends_def empty_rec_def literals_def lits_ok_def)

text \<open>C3: a Cyrius source without hazards has no open string: every literal its scan reports is closed
  by a double quote of its own.\<close>

theorem no_hazard_literals_closed:
  assumes "hazards src = []" "(s, e, raw) \<in> set (literals src Cyr)"
  shows "s + 1 < e \<and> e \<le> length src \<and> src ! s = DQ \<and> src ! (e - 1) = DQ"
proof -
  have "hazards_at (snd (rec_of src Cyr True)) = []"
    using assms(1) by (simp add: hazards_def rec_of_keep [of src Cyr False])
  with rec_of_extends [of Cyr src True] assms(2) show ?thesis
    by (auto simp: extends_def empty_rec_def literals_def lits_ok_def lits_closed_def scan_src_def)
qed

text \<open>The directives a scan reports: each on the line of a hash of the source.\<close>

theorem directives_at_hashes:
  "(ln, w) \<in> set (directives src) \<Longrightarrow> \<exists>p < length src. src ! p = HASH \<and> ln = line_at src p"
  using rec_of_extends [of Cyr src False]
  by (auto simp: extends_def empty_rec_def directives_def founds_ok_def scan_src_def)


text \<open>An attribute word is recognised exactly when one of the ten words follows the hash and ends
  at a boundary it allows, with two bytes past the hash in the buffer; no two words can
  compete for one place.\<close>

theorem attr_word_spec:
  "attr_word src q n = Some w \<longleftrightarrow>
     q + 2 < n \<and>
     (\<exists>ap. (w, ap) \<in> set ATTR_WORDS \<and> q + 1 + length w \<le> n \<and> startswith_at src w (q + 1) \<and>
        attr_bound src (q + 1 + length w) ap n)"
  by (simp add: attr_word_iff spells_attr_def)

text \<open>Normalising C keeps the line count: joining splices loses no newline, since each removed one is
  put back after the next real one; and no carriage return is left.\<close>

theorem normalize_c_keeps_lines:
  "count_list (normalize_c src) LF = count_list (cr_to_lf src) LF \<and> CR \<notin> set (normalize_c src)"
proof -
  have "CR \<notin> set (cr_to_lf src)" by (simp add: cr_to_lf_def replace_str_char_absent)
  then show ?thesis
    using norm_loop_subset [of "cr_to_lf src" 0 0] by (auto simp: normalize_c_def norm_loop_count)
qed


text \<open>C36: the scan of a text ends, and in time linear in it: from any place, with any flags and record,
  the loop of \<open>_walk\<close> makes at most one turn for each character that is left, and the walks over macro
  bodies that it starts on the way make theirs out of the same characters. No stretch is walked twice.\<close>

theorem walk_makes_linear_turns: "walk_turns lang keep src None i bol rc \<le> length src - i"
  using walk_turns_le [of lang keep src None i bol rc] by simp


section \<open>A raw string that is none\<close>



section \<open>The properties at concrete sources\<close>

lemma strip_invents_no_token_witness:
  "startswith_at (scan_src Cyr (''#io fn f(); # fn g();'')) ''fn'' 4"
  by (rule strip_invents_no_token [where keep = False]) code_simp+

lemma literals_in_order_witness:
  "(8, 11, False) \<in> set (literals (''var s = '' @ [DQ] @ ''a'' @ [DQ] @ '';'') Cyr) \<and>
   scan_src Cyr (''var s = '' @ [DQ] @ ''a'' @ [DQ] @ '';'') ! 8 = DQ"
proof -
  have "(8, 11, False) \<in> set (literals (''var s = '' @ [DQ] @ ''a'' @ [DQ] @ '';'') Cyr)" by code_simp
  with literals_in_order [of "''var s = '' @ [DQ] @ ''a'' @ [DQ] @ '';''" Cyr] show ?thesis by fast
qed

lemma no_hazard_literals_closed_witness:
  "(''var s = '' @ [DQ] @ ''a'' @ [DQ] @ '';'') ! 10 = DQ"
  using no_hazard_literals_closed [of "''var s = '' @ [DQ] @ ''a'' @ [DQ] @ '';''" 8 11 False]
  by (auto; code_simp)

lemma directives_at_hashes_witness:
  "\<exists>p < length ([LF] @ ''#ifdef A''). ([LF] @ ''#ifdef A'') ! p = HASH \<and> 2 = line_at ([LF] @ ''#ifdef A'') p"
  by (rule directives_at_hashes [where w = "''ifdef''"]) code_simp

end
