(* ===== verification/CyrDeclSpec.thy ===== *)
theory CyrDeclSpec
  imports CyrDecl CyrLexSpec
begin

text \<open>
  What the declaration scanner of \<open>CyrDecl\<close> promises the gates: a parse that succeeds has
  accounted for every \<^verbatim>\<open>fn\<close> and every
  \<^verbatim>\<open>pub\<close>/\<^verbatim>\<open>public\<close> of the code, parameter lists end at
  the matching parenthesis, the \<^verbatim>\<open>private\<close> marker precedes every declaration,
  and a bundle without problems holds none of the constructs that escape the count.
\<close>


section \<open>Where a pattern matches\<close>

definition matches_at :: "rx \<Rightarrow> string \<Rightarrow> nat \<Rightarrow> bool" where
  "matches_at r s k \<longleftrightarrow> k \<le> length s \<and> rx_m r s (length s) k [] \<noteq> []"

lemma matches_atI: "(j, h) \<in> set (rx_m r s (length s) k []) \<Longrightarrow> k \<le> length s \<Longrightarrow> matches_at r s k"
  by (auto simp: matches_at_def)

lemma matches_at_iff: "matches_at r s k \<longleftrightarrow> k \<le> length s \<and> (\<exists>j h. (j, h) \<in> set (rx_m r s (length s) k []))"
  by (auto simp: matches_at_def rx_m_Nil_iff)

lemma finditer_matches: "m \<in> set (finditer r s) \<Longrightarrow> matches_at r s (m_start m)"
  using finditer_mem [of m r s] by (auto simp: matches_at_def)

text \<open>
  A pattern whose matches are not empty, and which does not match strictly inside one of its
  matches, is reported at exactly the offsets it matches at.
\<close>

lemma finditer_starts:
  assumes "\<And>k j h. (j, h) \<in> set (rx_m r s (length s) k []) \<Longrightarrow> k < j \<and> (\<forall>t. k < t \<and> t < j \<longrightarrow> \<not> matches_at r s t)"
  shows "set (map m_start (finditer r s)) = {k. matches_at r s k}" "distinct (map m_start (finditer r s))"
proof -
  have "k \<in> set (map m_start (finditer r s))" if k: "matches_at r s k" for k
  proof -
    from k have k': "k \<le> length s" "rx_m r s (length s) k [] \<noteq> []" by (simp_all add: matches_at_def)

    have "\<exists>m \<in> set (finditer r s). m_start m \<le> k \<and> k < m_end m"
      unfolding finditer_def by (rule iter_from_covers [OF _ le0 k']) (rule assms [THEN conjunct1])
    then obtain m where m: "m \<in> set (finditer r s)" "m_start m \<le> k" "k < m_end m" by blast
    with assms [of "m_end m" "m_groups m" "m_start m"] finditer_mem [OF m(1)] k have "k = m_start m"
      by (metis le_neq_implies_less)
    with m(1) show ?thesis by simp
  qed
  then show "set (map m_start (finditer r s)) = {k. matches_at r s k}" by (auto dest: finditer_matches)
  have "sorted_wrt (\<lambda>a b. m_start a < m_start b) (finditer r s)"
    using finditer_sorted
  proof (rule sorted_wrt_mono_rel [rotated])
    fix a b assume "a \<in> set (finditer r s)" "b \<in> set (finditer r s)" "m_end a \<le> m_start b"
    with assms finditer_mem [of a r s] show "m_start a < m_start b" by (meson less_le_trans)
  qed
  then show "distinct (map m_start (finditer r s))"
    using strict_sorted_iff [of "map m_start (finditer r s)"] by (simp add: sorted_wrt_map)
qed

lemma re_search_first:
  "re_search r s = Some m \<Longrightarrow> matches_at r s (m_start m) \<and> (\<forall>k < m_start m. \<not> matches_at r s k)"
  "re_search r s = None \<longleftrightarrow> (\<forall>k. \<not> matches_at r s k)"
proof -
  show "re_search r s = Some m \<Longrightarrow> matches_at r s (m_start m) \<and> (\<forall>k < m_start m. \<not> matches_at r s k)"
    using search_adv_Some [of r s None 0 "length s" m] by (auto simp: re_search_def search_in_def matches_at_def)
  show "re_search r s = None \<longleftrightarrow> (\<forall>k. \<not> matches_at r s k)"
  proof
    assume "re_search r s = None"
    then show "\<forall>k. \<not> matches_at r s k"
      using search_adv_None [of r s None 0 "length s"] by (auto simp: re_search_def search_in_def matches_at_def)
  next
    assume h: "\<forall>k. \<not> matches_at r s k"
    show "re_search r s = None"
    proof (rule ccontr)
      assume "re_search r s \<noteq> None"
      then obtain m where "search_adv r s None 0 (length s) = Some m" by (auto simp: re_search_def search_in_def)
      from search_adv_Some [OF this] h show False by (auto simp: matches_at_def)
    qed
  qed
qed


section \<open>Tokens, without patterns\<close>

definition spaces_between :: "string \<Rightarrow> nat \<Rightarrow> nat \<Rightarrow> bool" where
  "spaces_between s a b \<longleftrightarrow> a \<le> b \<and> b \<le> length s \<and> (\<forall>t. a \<le> t \<and> t < b \<longrightarrow> is_space (s ! t))"

definition word_at :: "(char \<Rightarrow> bool) \<Rightarrow> string \<Rightarrow> string \<Rightarrow> nat \<Rightarrow> bool" where
  "word_at P s w k \<longleftrightarrow> startswith_at s w k \<and> \<not> (0 < k \<and> P (s ! (k - 1))) \<and>
     \<not> (k + length w < length s \<and> ident_char (s ! (k + length w)))"

definition fn_at :: "string \<Rightarrow> nat \<Rightarrow> bool" where
  "fn_at s k \<longleftrightarrow> word_at fn_pred s ''fn'' k"

definition public_at :: "string \<Rightarrow> nat \<Rightarrow> bool" where
  "public_at s k \<longleftrightarrow> word_at ident_char s ''pub'' k \<or> word_at ident_char s ''public'' k"

lemma rx_Lit_at:
  "w \<noteq> [] \<Longrightarrow> (j, h) \<in> set (rx_m (Lit w) s (length s) i g) \<longleftrightarrow> h = g \<and> j = i + length w \<and> startswith_at s w i"
  by (auto simp: rx_m_Lit_mem startswith_at_conv)

lemma Ahead_class_mem:
  "(j, h) \<in> set (rx_m (Ahead bb (Cls P)) s n i g) \<longleftrightarrow> j = i \<and> h = g \<and> (i < n \<and> P (s ! i)) = bb"
  unfolding rx_m_basic_mem ahead_class ..

lemma Seqs_mem:
  "(j, h) \<in> set (rx_m (Seqs [r]) s n i g) \<longleftrightarrow> (j, h) \<in> set (rx_m r s n i g)"
  "(j, h) \<in> set (rx_m (Seqs (r # q # rs)) s n i g) \<longleftrightarrow>
     (\<exists>k g'. (k, g') \<in> set (rx_m r s n i g) \<and> (j, h) \<in> set (rx_m (Seqs (q # rs)) s n k g'))"
  by (simp_all only: Seqs.simps rx_m_basic_mem)

lemmas seq_mem = Seqs_mem rx_m_basic_mem(2-6) rx_m_basic_mem(8,9) Ahead_class_mem rx_m_anchor_mem rx_m_Star_class_mem
  rx_m_Plus_class_mem rx_m_Words_mem

lemma word_rx_mem:
  assumes "w \<noteq> []"
  shows "(j, h) \<in> set (rx_m (Seqs [Behind False P, Lit w, Ahead False (Cls ident_char)]) s (length s) k []) \<longleftrightarrow>
     h = [] \<and> j = k + length w \<and> word_at P s w k"
  unfolding seq_mem rx_Lit_at [OF assms] word_at_def by auto

lemma word_at_inside:
  assumes "word_at P s w k" "word_at Q s v t" "k < t" "t < k + length w" "set w \<subseteq> Collect Q"
  shows False
proof -
  from assms have "s ! (k + (t - 1 - k)) = w ! (t - 1 - k)"
    by (intro startswith_at_nth) (auto simp: word_at_def)
  moreover have "w ! (t - 1 - k) \<in> set w" using assms(3,4) by simp
  ultimately have "Q (s ! (t - 1))" using assms(3,5) by auto
  with assms(2,3) show False by (simp add: word_at_def)
qed

lemma FN_TOKEN_mem: "(j, h) \<in> set (rx_m FN_TOKEN s (length s) k []) \<longleftrightarrow> h = [] \<and> j = k + 2 \<and> fn_at s k"
  unfolding FN_TOKEN_def by (subst word_rx_mem) (simp_all add: fn_at_def)

lemma PUBLIC_TOKEN_mem:
  "(j, h) \<in> set (rx_m PUBLIC_TOKEN s (length s) k []) \<longleftrightarrow>
     h = [] \<and> (j = k + 3 \<and> word_at ident_char s ''pub'' k \<or> j = k + 6 \<and> word_at ident_char s ''public'' k)"
  unfolding PUBLIC_TOKEN_def rx_PUB_def seq_mem word_at_def
  by (auto simp: rx_Lit_at eval_nat_numeral)

lemma word_at_le: "word_at P s w k \<Longrightarrow> w \<noteq> [] \<Longrightarrow> k + length w \<le> length s"
  by (auto simp: word_at_def dest: startswith_at_length)

lemma FN_TOKEN_matches: "matches_at FN_TOKEN s k \<longleftrightarrow> fn_at s k"
  using word_at_le [of fn_pred s "''fn''" k] unfolding matches_at_iff FN_TOKEN_mem by (auto simp: fn_at_def)

lemma PUBLIC_TOKEN_matches: "matches_at PUBLIC_TOKEN s k \<longleftrightarrow> public_at s k"
  using word_at_le [of ident_char s "''pub''" k] word_at_le [of ident_char s "''public''" k]
  unfolding matches_at_iff PUBLIC_TOKEN_mem by (auto simp: public_at_def)

lemma fn_tokens:
  "set (map m_start (finditer FN_TOKEN s)) = {k. fn_at s k}" "distinct (map m_start (finditer FN_TOKEN s))"
proof -
  have *: "k < j \<and> (\<forall>t. k < t \<and> t < j \<longrightarrow> \<not> matches_at FN_TOKEN s t)"
    if "(j, h) \<in> set (rx_m FN_TOKEN s (length s) k [])" for k j h
    using that word_at_inside [of fn_pred s "''fn''" k fn_pred "''fn''"]
    unfolding FN_TOKEN_mem FN_TOKEN_matches fn_at_def by (auto simp: fn_pred_def char_class_defs)
  from finditer_starts [OF this] show "set (map m_start (finditer FN_TOKEN s)) = {k. fn_at s k}"
    "distinct (map m_start (finditer FN_TOKEN s))" by (simp_all add: FN_TOKEN_matches)
qed

lemma public_tokens:
  "set (map m_start (finditer PUBLIC_TOKEN s)) = {k. public_at s k}" "distinct (map m_start (finditer PUBLIC_TOKEN s))"
proof -
  have cls: "set ''pub'' \<subseteq> Collect ident_char" "set ''public'' \<subseteq> Collect ident_char"
    by (simp_all add: char_class_defs)
  have *: "k < j \<and> (\<forall>t. k < t \<and> t < j \<longrightarrow> \<not> matches_at PUBLIC_TOKEN s t)"
    if "(j, h) \<in> set (rx_m PUBLIC_TOKEN s (length s) k [])" for k j h
    using that word_at_inside [of ident_char s "''pub''" k ident_char, OF _ _ _ _ cls(1)]
      word_at_inside [of ident_char s "''public''" k ident_char, OF _ _ _ _ cls(2)]
    unfolding PUBLIC_TOKEN_mem PUBLIC_TOKEN_matches public_at_def by fastforce
  from finditer_starts [OF this] show "set (map m_start (finditer PUBLIC_TOKEN s)) = {k. public_at s k}"
    "distinct (map m_start (finditer PUBLIC_TOKEN s))" by (simp_all add: PUBLIC_TOKEN_matches)
qed


section \<open>The matching parenthesis\<close>

text \<open>Opened minus closed parentheses of \<open>s[k .. j]\<close>, both ends included.\<close>

definition paren_depth :: "string \<Rightarrow> nat \<Rightarrow> nat \<Rightarrow> int" where
  "paren_depth s k j =
     int (count_list (slice s k (Suc j)) (CHR ''('')) - int (count_list (slice s k (Suc j)) (CHR '')''))"

definition matching_paren :: "string \<Rightarrow> nat \<Rightarrow> nat \<Rightarrow> bool" where
  "matching_paren s k e \<longleftrightarrow>
     k \<le> e \<and> e < length s \<and> paren_depth s k e = 0 \<and> (\<forall>t. k \<le> t \<and> t < e \<longrightarrow> 0 < paren_depth s k t)"

lemma slice_Cons: "j \<le> e \<Longrightarrow> j < length s \<Longrightarrow> slice s j (Suc e) = s ! j # slice s (Suc j) (Suc e)"
  by (simp add: slice_def Cons_nth_drop_Suc [symmetric] Suc_diff_le)

lemma paren_depth_step:
  "j \<le> e \<Longrightarrow> j < length s \<Longrightarrow>
     paren_depth s j e = (if s ! j = CHR ''('' then 1 else if s ! j = CHR '')'' then -1 else 0) + paren_depth s (Suc j) e"
  by (simp add: paren_depth_def slice_Cons)

lemma paren_depth_empty [simp]: "paren_depth s (Suc j) j = 0"
  by (simp add: paren_depth_def)

lemma close_from_Some:
  "0 < d \<Longrightarrow> close_from s d j = Some e \<longleftrightarrow>
     j \<le> e \<and> e < length s \<and> d + paren_depth s j e = 0 \<and> (\<forall>t. j \<le> t \<and> t < e \<longrightarrow> 0 < d + paren_depth s j t)"
proof (induction s d j rule: close_from.induct)
  case (1 s d j)
  show ?case
  proof (cases "j < length s")
    case True
    define w :: int where "w = (if s ! j = CHR ''('' then 1 else if s ! j = CHR '')'' then -1 else 0)"
    have pd: "paren_depth s j t = w + paren_depth s (Suc j) t" if "j \<le> t" for t
      using paren_depth_step [OF that True] by (simp add: w_def)
    have split: "(\<forall>t. j \<le> t \<and> t < e \<longrightarrow> 0 < d + paren_depth s j t) \<longleftrightarrow>
        (j < e \<longrightarrow> 0 < d + w) \<and> (\<forall>t. Suc j \<le> t \<and> t < e \<longrightarrow> 0 < (d + w) + paren_depth s (Suc j) t)"
    proof -
      have "(j \<le> t \<and> t < e \<longrightarrow> 0 < d + paren_depth s j t) \<longleftrightarrow>
          (t = j \<longrightarrow> j < e \<longrightarrow> 0 < d + w) \<and> (Suc j \<le> t \<and> t < e \<longrightarrow> 0 < (d + w) + paren_depth s (Suc j) t)" for t
        using pd [of t] by (cases "t = j") (auto simp: Suc_le_eq)
      then show ?thesis by blast
    qed
    show ?thesis
    proof (cases "d + w = 0")
      case zero: True
      with \<open>0 < d\<close> have "close_from s d j = Some j"
        using True by (subst close_from.simps) (auto simp: w_def split: if_splits)
      moreover have "j < e \<Longrightarrow> \<not> (\<forall>t. j \<le> t \<and> t < e \<longrightarrow> 0 < d + paren_depth s j t)" using split zero by simp
      ultimately show ?thesis using pd [of j] zero True by (auto simp: le_less)
    next
      case False
      then have pos: "0 < d + w" using \<open>0 < d\<close> by (simp add: w_def split: if_splits)
      have "close_from s d j = close_from s (d + w) (Suc j)"
        using True False by (subst close_from.simps) (auto simp: w_def)
      moreover have "close_from s (d + w) (Suc j) = Some e \<longleftrightarrow> Suc j \<le> e \<and> e < length s \<and>
          (d + w) + paren_depth s (Suc j) e = 0 \<and> (\<forall>t. Suc j \<le> t \<and> t < e \<longrightarrow> 0 < (d + w) + paren_depth s (Suc j) t)"
        using "1.IH" True False pos by (auto simp: w_def split: if_splits)
      moreover have "j \<noteq> e" if "d + paren_depth s j e = 0" using that pd [of j] False by auto
      ultimately show ?thesis using split pd [of e] pos by (auto simp: Suc_le_eq le_less)
    qed
  next
    case False
    then show ?thesis by (subst close_from.simps) auto
  qed
qed

lemma close_paren_Some:
  assumes "k < length s" "s ! k = CHR ''(''"
  shows "close_paren s k = Some e \<longleftrightarrow> matching_paren s k e"
proof -
  have "close_paren s k = close_from s 1 (Suc k)"
    unfolding close_paren_def using assms by (subst close_from.simps) simp
  moreover have "paren_depth s k t = 1 + paren_depth s (Suc k) t" if "k \<le> t" for t
    using paren_depth_step [OF that assms(1)] assms(2) by simp
  moreover have "0 < paren_depth s k k" using paren_depth_step [of k k s] assms by simp
  ultimately have "matching_paren s k e \<longleftrightarrow> Suc k \<le> e \<and> e < length s \<and> 1 + paren_depth s (Suc k) e = 0 \<and>
      (\<forall>t. Suc k \<le> t \<and> t < e \<longrightarrow> 0 < 1 + paren_depth s (Suc k) t)"
  proof -
    have "k \<le> t \<longleftrightarrow> t = k \<or> Suc k \<le> t" for t by auto
    with \<open>0 < paren_depth s k k\<close> \<open>\<And>t. k \<le> t \<Longrightarrow> paren_depth s k t = 1 + paren_depth s (Suc k) t\<close> show ?thesis
      unfolding matching_paren_def by (metis less_irrefl Suc_n_not_le_n)
  qed
  also have "\<dots> \<longleftrightarrow> close_from s 1 (Suc k) = Some e" by (rule close_from_Some [OF zero_less_one, symmetric])
  finally show ?thesis using \<open>close_paren s k = close_from s 1 (Suc k)\<close> by simp
qed


section \<open>Declarations, without patterns\<close>

text \<open>
  A head that starts at \<open>k\<close>: the marker, if any, up to the \<^verbatim>\<open>fn\<close> at \<open>f\<close>, the
  name from \<open>a\<close> to \<open>b\<close>, and the parenthesis at \<open>c\<close>.
\<close>

definition name_between :: "string \<Rightarrow> nat \<Rightarrow> nat \<Rightarrow> bool" where
  "name_between s a b \<longleftrightarrow> a < b \<and> b \<le> length s \<and> ident_start (s ! a) \<and> (\<forall>t. a < t \<and> t < b \<longrightarrow> ident_char (s ! t))"

definition head_at :: "string \<Rightarrow> nat \<Rightarrow> nat \<Rightarrow> nat \<Rightarrow> nat \<Rightarrow> nat \<Rightarrow> bool" where
  "head_at s k f a b c \<longleftrightarrow>
     \<not> (0 < k \<and> fn_pred (s ! (k - 1))) \<and>
     (f = k \<or> (\<exists>w \<in> {''pub'', ''public''}. startswith_at s w k \<and> k + length w < f \<and> spaces_between s (k + length w) f)) \<and>
     startswith_at s ''fn'' f \<and> f + 2 < a \<and> spaces_between s (f + 2) a \<and> name_between s a b \<and>
     spaces_between s b c \<and> c < length s \<and> s ! c = CHR ''(''"

definition decl_at :: "string \<Rightarrow> nat \<Rightarrow> nat \<Rightarrow> fn_decl \<Rightarrow> bool" where
  "decl_at s k f d \<longleftrightarrow>
     (\<exists>a b c e. head_at s k f a b c \<and> matching_paren s c e \<and> is_public d = (k < f) \<and>
        fn_name d = slice s a b \<and> fn_args d = slice s (c + 1) e)"

lemma IDENT_mem:
  "(j, h) \<in> set (rx_m rx_IDENT s (length s) i g) \<longleftrightarrow> h = g \<and> name_between s i j"
  unfolding rx_IDENT_def rx_m_basic_mem rx_m_Star_class_mem name_between_def
  by (auto simp: Suc_le_eq)

lemma spaces_mem:
  "(j, h) \<in> set (rx_m rx_spaces s (length s) i g) \<longleftrightarrow> h = g \<and> i \<le> j \<and> (i < j \<longrightarrow> j \<le> length s) \<and> (\<forall>t. i \<le> t \<and> t < j \<longrightarrow> is_space (s ! t))"
  "(j, h) \<in> set (rx_m rx_spaces1 s (length s) i g) \<longleftrightarrow> h = g \<and> i < j \<and> spaces_between s i j"
proof -
  have *: "(\<forall>t. i \<le> t \<and> t < j \<longrightarrow> t < length s \<and> is_space (s ! t)) \<longleftrightarrow>
      (i < j \<longrightarrow> j \<le> length s) \<and> (\<forall>t. i \<le> t \<and> t < j \<longrightarrow> is_space (s ! t))"
    by (cases j) (auto simp: Suc_le_eq)
  then show "(j, h) \<in> set (rx_m rx_spaces s (length s) i g) \<longleftrightarrow> h = g \<and> i \<le> j \<and> (i < j \<longrightarrow> j \<le> length s) \<and> (\<forall>t. i \<le> t \<and> t < j \<longrightarrow> is_space (s ! t))"
    unfolding rx_spaces_def rx_m_Star_class_mem by blast
  from * show "(j, h) \<in> set (rx_m rx_spaces1 s (length s) i g) \<longleftrightarrow> h = g \<and> i < j \<and> spaces_between s i j"
    unfolding rx_spaces1_def rx_m_Plus_class_mem spaces_between_def by auto
qed

lemma PUB_mem:
  "(j, h) \<in> set (rx_m rx_PUB s (length s) i g) \<longleftrightarrow>
     h = g \<and> (\<exists>w \<in> {''pub'', ''public''}. j = i + length w \<and> startswith_at s w i)"
  by (auto simp: rx_PUB_def rx_m_Words_mem rx_Lit_at)

lemma FN_HEAD_mem:
  assumes "(j, h) \<in> set (rx_m FN_HEAD s (length s) k [])"
  obtains f a b c where "head_at s k f a b c" "j = c + 1" "h = (2, a, b) # (if k < f then [(1, k, f)] else [])"
proof -
  from assms obtain k1 g1 f g k3 g3 a g4 b g5 c g6 where
    m: "(k1, g1) \<in> set (rx_m (Behind False fn_pred) s (length s) k [])"
      "(f, g) \<in> set (rx_m (Opt (Grp 1 (Seq rx_PUB rx_spaces1))) s (length s) k1 g1)"
      "(k3, g3) \<in> set (rx_m (Lit ''fn'') s (length s) f g)"
      "(a, g4) \<in> set (rx_m rx_spaces1 s (length s) k3 g3)"
      "(b, g5) \<in> set (rx_m (Grp 2 rx_IDENT) s (length s) a g4)"
      "(c, g6) \<in> set (rx_m rx_spaces s (length s) b g5)"
      "(j, h) \<in> set (rx_m (Chr CHR ''('') s (length s) c g6)"
    unfolding FN_HEAD_def Seqs_mem by (elim exE conjE)
  from m(1) have 1: "\<not> (0 < k \<and> fn_pred (s ! (k - 1)))" "k1 = k" "g1 = []" by (auto simp: rx_m_basic_mem)
  note 2 = m(2) [unfolded 1]
  from m(3,4) have 3: "startswith_at s ''fn'' f" "f + 2 < a" "spaces_between s (f + 2) a" and "g4 = g"
    by (auto simp: rx_Lit_at spaces_mem)
  with m(5,6,7) have 4: "name_between s a b" and 5: "b \<le> c" "\<forall>t. b \<le> t \<and> t < c \<longrightarrow> is_space (s ! t)"
    and 6: "c < length s" "s ! c = CHR ''(''" "j = c + 1" "h = (2, a, b) # g"
    by (auto simp only: rx_m_basic_mem IDENT_mem spaces_mem)
  from 5 6(1) have sp: "spaces_between s b c" by (simp add: spaces_between_def)
  from 2 consider (none) "f = k" "g = []"
    | (pub) w where "w \<in> {''pub'', ''public''}" "startswith_at s w k" "k + length w < f" "spaces_between s (k + length w) f"
        "g = [(1, k, f)]"
  proof (cases "f = k \<and> g = []")
    case False
    with 2 obtain q where "g = [(1, k, f)]" "q < f" "spaces_between s q f"
        "\<exists>w \<in> {''pub'', ''public''}. q = k + length w \<and> startswith_at s w k"
      unfolding rx_m_basic_mem PUB_mem spaces_mem by blast
    with that(2) show ?thesis by blast
  qed (use that(1) in blast)
  then show ?thesis
  proof cases
    case none
    with 1 3 4 6 sp that [of k a b c] show ?thesis by (simp add: head_at_def)
  next
    case pub
    then have "head_at s k f a b c" "k < f" using 1 3 4 6 sp by (auto simp: head_at_def)
    with 6 pub(5) that show ?thesis by simp
  qed
qed

lemma space_not_fn_pred: "is_space c \<Longrightarrow> \<not> fn_pred c"
proof -
  assume "is_space c"
  then have "\<not> ident_char c" "c \<noteq> CHR ''&''" "c \<noteq> CHR ''.''" by (simp, auto simp: is_space_def)
  then show "\<not> fn_pred c" by (simp add: fn_pred_def)
qed

lemma head_at_tokens:
  assumes "head_at s k f a b c"
  shows "k \<le> f" "f < c" "c < length s" "s ! c = CHR ''(''" "fn_at s f" "k < f \<Longrightarrow> public_at s k"
proof -
  from assms show le: "k \<le> f" "c < length s" "s ! c = CHR ''(''" by (auto simp: head_at_def)
  from assms have bounds: "f + 2 < a" "a < b" "b \<le> c" by (auto simp: head_at_def name_between_def spaces_between_def)
  then show "f < c" by simp
  from assms bounds(1) have "is_space (s ! (f + 2))" by (simp add: head_at_def spaces_between_def)
  then have after: "\<not> ident_char (s ! (f + 2))" by simp
  have "\<not> fn_pred (s ! (f - 1))" if "0 < f"
  proof (cases "f = k")
    case True
    with assms that show ?thesis by (auto simp: head_at_def)
  next
    case False
    with assms obtain w :: string where "k + length w < f" "spaces_between s (k + length w) f"
      unfolding head_at_def by blast
    then have "is_space (s ! (f - 1))" by (auto simp: spaces_between_def)
    then show ?thesis by (rule space_not_fn_pred)
  qed
  with assms after show "fn_at s f" by (auto simp: fn_at_def word_at_def head_at_def)
  assume "k < f"
  with assms obtain w where w: "w \<in> {''pub'', ''public''}" "startswith_at s w k" "k + length w < f"
      "spaces_between s (k + length w) f" unfolding head_at_def by blast
  then have "is_space (s ! (k + length w))" by (simp add: spaces_between_def)
  then have "\<not> ident_char (s ! (k + length w))" by simp
  moreover have "\<not> (0 < k \<and> ident_char (s ! (k - 1)))" using assms by (auto simp: head_at_def fn_pred_def)
  ultimately show "public_at s k" using w(1,2) by (auto simp: public_at_def word_at_def)
qed

text \<open>Where the \<^verbatim>\<open>fn\<close> of a head match stands.\<close>

definition fn_pos :: "rmatch \<Rightarrow> nat" where
  "fn_pos m = (case group_span m 1 of Some (a, b) \<Rightarrow> b | None \<Rightarrow> m_start m)"

lemma FN_HEAD_match:
  assumes "m \<in> set (finditer FN_HEAD s)"
  shows "m_start m \<le> fn_pos m" "fn_pos m < m_end m" "fn_at s (fn_pos m)"
    "group_span m 1 \<noteq> None \<longleftrightarrow> m_start m < fn_pos m" "m_start m < fn_pos m \<Longrightarrow> public_at s (m_start m)"
    "parse_decl s m = Inr d \<Longrightarrow> decl_at s (m_start m) (fn_pos m) d"
proof -
  from finditer_mem [OF assms] have "(m_end m, m_groups m) \<in> set (rx_m FN_HEAD s (length s) (m_start m) [])" by blast
  then obtain f a b c where hd: "head_at s (m_start m) f a b c" and e: "m_end m = c + 1"
    and g: "m_groups m = (2, a, b) # (if m_start m < f then [(1, m_start m, f)] else [])"
    by (rule FN_HEAD_mem)
  note tk = head_at_tokens [OF hd]
  have f: "fn_pos m = f" using tk(1) g by (auto simp: fn_pos_def group_span_def)
  show "m_start m \<le> fn_pos m" "fn_pos m < m_end m" "fn_at s (fn_pos m)" "m_start m < fn_pos m \<Longrightarrow> public_at s (m_start m)"
    using tk f e by auto
  show pub: "group_span m 1 \<noteq> None \<longleftrightarrow> m_start m < fn_pos m" by (simp add: f g group_span_def)
  assume "parse_decl s m = Inr d"
  then obtain x where x: "close_paren s c = Some x" and d: "d = \<lparr>is_public = group_span m 1 \<noteq> None,
      fn_name = group_or_empty s m 2, fn_args = slice s (c + 1) x\<rparr>"
    by (auto simp: parse_decl_def Let_def e split: option.splits)
  have "is_public d = (m_start m < f)" "fn_name d = slice s a b" "fn_args d = slice s (c + 1) x"
    using pub f by (simp_all add: d group_or_empty_def group_text_def group_span_def g)
  with hd x close_paren_Some [OF tk(3,4), of x] show "decl_at s (m_start m) (fn_pos m) d"
    unfolding f decl_at_def by blast
qed


section \<open>Counting heads\<close>

text \<open>Head matches do not overlap, so their \<^verbatim>\<open>fn\<close>s and starts increase.\<close>

lemma FN_HEAD_sorted:
  "sorted_wrt (\<lambda>x y. m_start x < m_start y \<and> fn_pos x < fn_pos y) (finditer FN_HEAD s)"
  using finditer_sorted [of FN_HEAD s]
proof (rule sorted_wrt_mono_rel [rotated])
  fix x y assume "x \<in> set (finditer FN_HEAD s)" "y \<in> set (finditer FN_HEAD s)" "m_end x \<le> m_start y"
  with FN_HEAD_match(1,2) [of x s] FN_HEAD_match(1) [of y s]
  show "m_start x < m_start y \<and> fn_pos x < fn_pos y" by linarith
qed

lemma sorted_wrt_inj: "sorted_wrt (\<lambda>x y. f x < f y) xs \<Longrightarrow> inj_on (f :: 'a \<Rightarrow> nat) (set xs) \<and> distinct xs"
proof -
  assume "sorted_wrt (\<lambda>x y. f x < f y) xs"
  then have "distinct (map f xs)" using strict_sorted_iff [of "map f xs"] by (simp add: sorted_wrt_map)
  then show ?thesis by (simp add: distinct_map)
qed

lemma FN_HEAD_inj:
  "inj_on fn_pos (set (finditer FN_HEAD s))" "inj_on m_start (set (finditer FN_HEAD s))" "distinct (finditer FN_HEAD s)"
proof -
  have "sorted_wrt (\<lambda>x y. fn_pos x < fn_pos y) (finditer FN_HEAD s)"
    "sorted_wrt (\<lambda>x y. m_start x < m_start y) (finditer FN_HEAD s)"
    by (rule sorted_wrt_mono_rel [OF _ FN_HEAD_sorted], simp)+
  then show "inj_on fn_pos (set (finditer FN_HEAD s))" "inj_on m_start (set (finditer FN_HEAD s))"
    "distinct (finditer FN_HEAD s)" by (auto dest: sorted_wrt_inj)
qed

lemma token_counts:
  "length (findall FN_TOKEN s) = card {k. fn_at s k}" "finite {k. fn_at s k}"
  "length (findall PUBLIC_TOKEN s) = card {k. public_at s k}" "finite {k. public_at s k}"
proof -
  show "finite {k. fn_at s k}" "finite {k. public_at s k}"
    unfolding fn_tokens(1) [symmetric] public_tokens(1) [symmetric] by simp_all
  show "length (findall FN_TOKEN s) = card {k. fn_at s k}" "length (findall PUBLIC_TOKEN s) = card {k. public_at s k}"
    using distinct_card [OF fn_tokens(2)] distinct_card [OF public_tokens(2)]
    by (simp_all only: fn_tokens(1) public_tokens(1) findall_def length_map)
qed

abbreviation marked :: "rmatch \<Rightarrow> bool" where "marked m \<equiv> group_span m 1 \<noteq> None"

lemma FN_HEAD_counts:
  "length (finditer FN_HEAD s) \<le> card {k. fn_at s k}"
  "length (finditer FN_HEAD s) = card {k. fn_at s k} \<Longrightarrow> fn_pos ` set (finditer FN_HEAD s) = {k. fn_at s k}"
  "length (filter marked (finditer FN_HEAD s)) \<le> card {k. public_at s k}"
  "length (filter marked (finditer FN_HEAD s)) = card {k. public_at s k} \<Longrightarrow>
     m_start ` {m \<in> set (finditer FN_HEAD s). marked m} = {k. public_at s k}"
proof -
  let ?M = "finditer FN_HEAD s"
  note inj = FN_HEAD_inj [of s]
  have sub: "fn_pos ` set ?M \<subseteq> {k. fn_at s k}" using FN_HEAD_match(3) by auto
  have card: "card (fn_pos ` set ?M) = length ?M"
    using card_image [OF inj(1)] distinct_card [OF inj(3)] by simp
  from card_mono [OF token_counts(2) sub] card show "length ?M \<le> card {k. fn_at s k}" by simp
  from card_subset_eq [OF token_counts(2) sub] card
  show "length ?M = card {k. fn_at s k} \<Longrightarrow> fn_pos ` set ?M = {k. fn_at s k}" by simp
  let ?N = "{m \<in> set ?M. marked m}"
  have sub: "m_start ` ?N \<subseteq> {k. public_at s k}" using FN_HEAD_match(4,5) by auto
  have card: "card (m_start ` ?N) = length (filter marked ?M)"
    using card_image [OF inj_on_subset [OF inj(2)], of ?N] distinct_card [OF distinct_filter [OF inj(3)], of marked] by auto
  from card_mono [OF token_counts(4) sub] card show "length (filter marked ?M) \<le> card {k. public_at s k}" by simp
  from card_subset_eq [OF token_counts(4) sub] card
  show "length (filter marked ?M) = card {k. public_at s k} \<Longrightarrow> m_start ` ?N = {k. public_at s k}" by simp
qed

lemma parsed_marked:
  "list_all2 (\<lambda>m d. parse_decl s m = Inr d) ms ds \<Longrightarrow> length (filter is_public ds) = length (filter marked ms)"
  by (induction rule: list_all2_induct) (auto simp: parse_decl_def Let_def split: option.splits)


section \<open>Segments of a parameter list\<close>

text \<open>
  \<open>flat d seg d'\<close>: from depth \<open>d\<close>, \<open>seg\<close> has no comma at depth zero and ends at depth \<open>d'\<close>.
\<close>

fun depth_after :: "nat \<Rightarrow> char \<Rightarrow> nat" where
  "depth_after d c = (if opens c then d + 1 else if closes c then d - 1 else d)"

fun flat :: "nat \<Rightarrow> string \<Rightarrow> nat option" where
  "flat d [] = Some d"
| "flat d (c # cs) = (if c = CHR '','' \<and> depth_after d c = 0 then None else flat (depth_after d c) cs)"

lemma arity_loop_flat:
  "flat d p = Some d' \<Longrightarrow> arity_loop d n seg (p @ rest) = arity_loop d' n (seg @ p) rest"
  by (induction p arbitrary: d seg) (auto split: if_splits simp: Let_def)

lemma comma_at_zero: "opens CHR '','' = False" "closes CHR '','' = False"
  by (auto simp: opens_def closes_def)

lemma arity_loop_join:
  "ps \<noteq> [] \<Longrightarrow> list_all (\<lambda>p. flat 0 p = Some 0) ps \<Longrightarrow>
     arity_loop 0 n [] (join_with '','' ps) = n + sum_list (map nonblank ps)"
proof (induction ps arbitrary: n rule: induct_list012)
  case (2 p)
  then show ?case using arity_loop_flat [of 0 p 0 n "[]" "[]"] by simp
next
  case (3 p q ps)
  then have "flat 0 p = Some 0" by simp
  from arity_loop_flat [OF this, of n "[]" "'','' @ join_with '','' (q # ps)"] 3 show ?case
    by (simp add: comma_at_zero)
qed simp


section \<open>Lines and words the bundle refuses\<close>

definition line_word_at :: "string \<Rightarrow> string \<Rightarrow> nat \<Rightarrow> bool" where
  "line_word_at s w p \<longleftrightarrow> (p = 0 \<or> s ! (p - 1) = LF) \<and>
     (\<exists>q \<ge> p. (\<forall>t. p \<le> t \<and> t < q \<longrightarrow> blank_char (s ! t)) \<and> startswith_at s w q \<and>
        \<not> (q + length w < length s \<and> ident_char (s ! (q + length w))))"

lemma line_word_mem:
  assumes "w \<noteq> []"
  shows "(j, h) \<in> set (rx_m (Seqs [Bol, Star (Cls blank_char), Lit w, Ahead False (Cls ident_char)]) s (length s) p []) \<longleftrightarrow>
     h = [] \<and> (p = 0 \<or> s ! (p - 1) = LF) \<and>
     (\<exists>q \<ge> p. j = q + length w \<and> (\<forall>t. p \<le> t \<and> t < q \<longrightarrow> t < length s \<and> blank_char (s ! t)) \<and> startswith_at s w q \<and>
        \<not> (q + length w < length s \<and> ident_char (s ! (q + length w))))"
  unfolding seq_mem rx_Lit_at [OF assms] by auto

lemma line_word_finditer:
  assumes r: "r = Seqs [Bol, Star (Cls blank_char), Lit w, Ahead False (Cls ident_char)]" and w: "w \<noteq> []" "LF \<notin> set w"
  shows "m_start ` set (finditer r s) = {p. line_word_at s w p}"
proof -
  have at: "matches_at r s p \<longleftrightarrow> line_word_at s w p" for p
  proof
    assume "matches_at r s p"
    then show "line_word_at s w p"
      unfolding matches_at_iff r line_word_mem [OF w(1)] line_word_at_def by blast
  next
    assume "line_word_at s w p"
    then obtain q where q: "p = 0 \<or> s ! (p - 1) = LF" "p \<le> q" "\<forall>t. p \<le> t \<and> t < q \<longrightarrow> blank_char (s ! t)" "startswith_at s w q"
        "\<not> (q + length w < length s \<and> ident_char (s ! (q + length w)))"
      unfolding line_word_at_def by blast
    from startswith_at_length [OF q(4) w(1)] have "q < length s" using w(1) by (cases w) auto
    with q have "(q + length w, []) \<in> set (rx_m r s (length s) p [])"
      unfolding r line_word_mem [OF w(1)] by (auto intro!: exI [of _ q])
    then show "matches_at r s p" using q(2) \<open>q < length s\<close> by (intro matches_atI) auto
  qed
  have "k < j \<and> (\<forall>t. k < t \<and> t < j \<longrightarrow> \<not> matches_at r s t)" if mem: "(j, h) \<in> set (rx_m r s (length s) k [])" for k j h
  proof -
    from mem obtain q where q: "k \<le> q" "j = q + length w" "\<forall>t. k \<le> t \<and> t < q \<longrightarrow> blank_char (s ! t)" "startswith_at s w q"
      unfolding r line_word_mem [OF w(1)] by blast
    have "s ! t \<noteq> LF" if "k \<le> t" "t < j" for t
    proof (cases "t < q")
      case True
      with q(3) that show ?thesis by (auto simp: blank_char_def)
    next
      case False
      with that q(2) startswith_at_nth [OF q(4), of "t - q"] have "s ! t \<in> set w" by auto
      with w(2) show ?thesis by metis
    qed
    then have "\<not> line_word_at s w t" if "k < t" "t < j" for t
      using that by (auto simp: line_word_at_def)
    moreover have "k < j" using q(1,2) w(1) by (cases w) auto
    ultimately show ?thesis using at by blast
  qed
  from finditer_starts(1) [OF this] show ?thesis by (simp add: at)
qed

lemma enum_finditer: "m_start ` set (finditer ENUM_TOKEN s) = {k. word_at ident_char s ''enum'' k}"
proof -
  have mem: "(j, h) \<in> set (rx_m ENUM_TOKEN s (length s) k []) \<longleftrightarrow> h = [] \<and> j = k + 4 \<and> word_at ident_char s ''enum'' k" for j h k
    unfolding ENUM_TOKEN_def by (subst word_rx_mem) (simp_all add: eval_nat_numeral)
  have at: "matches_at ENUM_TOKEN s k \<longleftrightarrow> word_at ident_char s ''enum'' k" for k
    using word_at_le [of ident_char s "''enum''" k] unfolding matches_at_iff mem by auto
  have "k < j \<and> (\<forall>t. k < t \<and> t < j \<longrightarrow> \<not> matches_at ENUM_TOKEN s t)"
    if "(j, h) \<in> set (rx_m ENUM_TOKEN s (length s) k [])" for k j h
    using that word_at_inside [of ident_char s "''enum''" k ident_char "''enum''"]
    unfolding mem at by (auto simp: char_class_defs eval_nat_numeral)
  from finditer_starts(1) [OF this] show ?thesis by (simp add: at)
qed


section \<open>The marker and the declarations after it\<close>

text \<open>A declaration keyword on its own, with any marker before it.\<close>

definition KEYWORDS :: "string list" where
  "KEYWORDS = [''fn'', ''var'', ''const'', ''enum'', ''struct'', ''union'', ''impl'']"

lemma TOP_DECL_at:
  assumes "w \<in> set KEYWORDS" "word_at ident_char s w k"
  shows "matches_at TOP_DECL s k"
proof -
  from assms(1) have "w \<noteq> []" by (auto simp: KEYWORDS_def)
  note le = word_at_le [OF assms(2) this]
  have "(k + length w, [(2, k, k + length w)]) \<in> set (rx_m TOP_DECL s (length s) k [])"
    unfolding TOP_DECL_def Seqs_mem
  proof (intro exI conjI)
    show "(k, []) \<in> set (rx_m (Behind False ident_char) s (length s) k [])"
      using assms(2) by (simp add: word_at_def)
    show "(k, []) \<in> set (rx_m (Opt (Grp 1 (Seq rx_PUB rx_spaces1))) s (length s) k [])" by (simp add: rx_m_basic_mem)
    show "(k + length w, [(2, k, k + length w)]) \<in>
        set (rx_m (Grp 2 (Words [''fn'', ''var'', ''const'', ''enum'', ''struct'', ''union'', ''impl''])) s (length s) k [])"
      using assms \<open>w \<noteq> []\<close> rx_Lit_at [OF \<open>w \<noteq> []\<close>, of "k + length w" "[]" s k "[]"]
      unfolding rx_m_basic_mem rx_m_Words_mem KEYWORDS_def word_at_def by blast
    show "(k + length w, [(2, k, k + length w)]) \<in>
        set (rx_m (Ahead False (Cls ident_char)) s (length s) (k + length w) [(2, k, k + length w)])"
      using assms(2) unfolding Ahead_class_mem by (simp add: word_at_def)
  qed
  then show ?thesis using le by (intro matches_atI) auto
qed

definition decl_word :: "string \<Rightarrow> nat \<Rightarrow> bool" where
  "decl_word s k \<longleftrightarrow> (\<exists>w \<in> set KEYWORDS. word_at ident_char s w k)"

lemma TOP_DECL_mem:
  assumes "(j, h) \<in> set (rx_m TOP_DECL s (length s) k [])" "\<not> decl_word s k"
  obtains w v f where "w \<in> {''pub'', ''public''}" "startswith_at s w k" "k + length w < f"
    "spaces_between s (k + length w) f" "v \<in> set KEYWORDS" "word_at ident_char s v f"
proof -
  from assms(1) obtain k1 g1 f g j1 g2 where
    m: "(k1, g1) \<in> set (rx_m (Behind False ident_char) s (length s) k [])"
      "(f, g) \<in> set (rx_m (Opt (Grp 1 (Seq rx_PUB rx_spaces1))) s (length s) k1 g1)"
      "(j1, g2) \<in> set (rx_m (Grp 2 (Words [''fn'', ''var'', ''const'', ''enum'', ''struct'', ''union'', ''impl''])) s (length s) f g)"
      "(j, h) \<in> set (rx_m (Ahead False (Cls ident_char)) s (length s) j1 g2)"
    unfolding TOP_DECL_def Seqs_mem by (elim exE conjE)
  from m(1) have 1: "\<not> (0 < k \<and> ident_char (s ! (k - 1)))" "k1 = k" "g1 = []" by (auto simp: rx_m_basic_mem)
  from m(3) obtain v where v: "v \<in> set KEYWORDS" "startswith_at s v f" "j1 = f + length v"
  proof -
    from m(3) obtain v h' where v: "v \<in> set KEYWORDS" "(j1, h') \<in> set (rx_m (Lit v) s (length s) f g)"
      unfolding rx_m_basic_mem rx_m_Words_mem KEYWORDS_def [symmetric] by blast
    then have "v \<noteq> []" by (auto simp: KEYWORDS_def)
    with v that show ?thesis by (simp add: rx_Lit_at)
  qed
  from m(4) v(3) have after: "\<not> (f + length v < length s \<and> ident_char (s ! (f + length v)))"
    unfolding Ahead_class_mem by simp
  have "f \<noteq> k" using v(1,2) after 1 assms(2) by (auto simp: decl_word_def word_at_def)
  with m(2) obtain q where q: "q < f" "spaces_between s q f"
      "\<exists>w \<in> {''pub'', ''public''}. q = k + length w \<and> startswith_at s w k"
    unfolding 1 rx_m_basic_mem PUB_mem spaces_mem by blast
  then have "is_space (s ! (f - 1))" by (auto simp: spaces_between_def)
  then have "\<not> ident_char (s ! (f - 1))" by simp
  with v after have "word_at ident_char s v f" by (simp add: word_at_def)
  with q v(1) that show ?thesis by blast
qed

lemma MARKER_mem:
  assumes "matches_at MARKER s p"
  obtains q where "p = 0 \<or> s ! (p - 1) = LF" "p \<le> q" "\<forall>t. p \<le> t \<and> t < q \<longrightarrow> blank_char (s ! t)" "startswith_at s ''private'' q"
proof -
  from assms obtain j h where "(j, h) \<in> set (rx_m MARKER s (length s) p [])" by (auto simp: matches_at_iff)
  then obtain k1 g1 k2 g2 k3 g3 where
    m: "(k1, g1) \<in> set (rx_m Bol s (length s) p [])" "(k2, g2) \<in> set (rx_m (Star (Cls blank_char)) s (length s) k1 g1)"
      "(k3, g3) \<in> set (rx_m (Lit ''private'') s (length s) k2 g2)"
    unfolding MARKER_def Seqs_mem by (elim exE conjE)
  from m(1) have "k1 = p" "p = 0 \<or> s ! (p - 1) = LF" by (simp_all add: rx_m_anchor_mem)
  with m(2,3) that [of k2] show ?thesis unfolding rx_m_Star_class_mem by (auto simp: rx_Lit_at)
qed

lemma decl_before_marker:
  assumes "matches_at MARKER s p" "matches_at TOP_DECL s k" "k < p"
  shows "\<exists>k' < p. decl_word s k'"
proof (cases "decl_word s k")
  case False
  from assms(2) obtain j h where "(j, h) \<in> set (rx_m TOP_DECL s (length s) k [])" by (auto simp: matches_at_iff)
  then obtain w v f where d: "w \<in> {''pub'', ''public''}" "startswith_at s w k" "k + length w < f"
    "spaces_between s (k + length w) f" "v \<in> set KEYWORDS" "word_at ident_char s v f"
    by (rule TOP_DECL_mem [OF _ False])
  from assms(1) obtain q where q: "p = 0 \<or> s ! (p - 1) = LF" "p \<le> q" "\<forall>t. p \<le> t \<and> t < q \<longrightarrow> blank_char (s ! t)"
    "startswith_at s ''private'' q" by (rule MARKER_mem)
  have "f < p"
  proof (rule ccontr)
    assume "\<not> f < p"
    have p: "k + length w < p"
    proof (rule ccontr)
      assume "\<not> k + length w < p"
      then have "p - 1 - k < length w" "k + (p - 1 - k) = p - 1" using assms(3) by auto
      then have "s ! (p - 1) \<in> set w" using startswith_at_nth [OF d(2)] by (metis nth_mem)
      with d(1) q(1) assms(3) show False by auto
    qed
    have sq: "s ! q = CHR ''p''" using startswith_at_nth [OF q(4), of 0] by simp
    have v0: "s ! f = v ! 0 \<and> v ! 0 \<in> set ''fvcesui''"
      using d(5,6) startswith_at_nth [of s v f 0] by (auto simp: KEYWORDS_def word_at_def)
    consider "f < q" | "f = q" | "q < f" by linarith
    then show False
    proof cases
      case 1
      with q(3) \<open>\<not> f < p\<close> have "blank_char (s ! f)" by auto
      with v0 show False by (auto simp: blank_char_def)
    next
      case 2
      with sq v0 show False by auto
    next
      case 3
      with d(4) p q(2) have "is_space (s ! q)" by (auto simp: spaces_between_def)
      with sq show False by (simp add: is_space_def)
    qed
  qed
  with d(5,6) show ?thesis by (auto simp: decl_word_def)
qed (use assms(3) in blast)

lemma private_first_None:
  "private_first s = None \<longleftrightarrow> (\<exists>p. matches_at MARKER s p \<and> (\<forall>k < p. \<not> matches_at MARKER s k \<and> \<not> matches_at TOP_DECL s k))"
proof (cases "re_search MARKER s")
  case None
  then show ?thesis using re_search_first(2) [of MARKER s] by (simp add: private_first_def)
next
  case (Some m)
  note m = re_search_first(1) [OF this]
  have uniq: "matches_at MARKER s p \<and> (\<forall>k < p. \<not> matches_at MARKER s k) \<longleftrightarrow> p = m_start m" for p
    using m by (auto) (metis linorder_neqE_nat)
  have "(\<exists>p. matches_at MARKER s p \<and> (\<forall>k < p. \<not> matches_at MARKER s k \<and> \<not> matches_at TOP_DECL s k)) \<longleftrightarrow>
      (\<forall>k < m_start m. \<not> matches_at TOP_DECL s k)" using uniq by metis
  also have "\<dots> \<longleftrightarrow> private_first s = None"
  proof (cases "re_search TOP_DECL s")
    case None
    then show ?thesis using re_search_first(2) [of TOP_DECL s] Some by (simp add: private_first_def)
  next
    case (Some f)
    from re_search_first(1) [OF this] show ?thesis using \<open>re_search MARKER s = Some m\<close> Some
      by (auto simp: private_first_def)
  qed
  finally show ?thesis by blast
qed


section \<open>What a parse accounts for\<close>

lemma fn_decls_account:
  assumes "fn_decls code = Inr ds"
  shows "\<exists>hs. list_all2 (\<lambda>(k, f) d. decl_at code k f d) hs ds \<and> sorted_wrt (\<lambda>x y. fst x < fst y \<and> snd x < snd y) hs \<and>
    snd ` set hs = {f. fn_at code f} \<and> fst ` {(k, f) \<in> set hs. k < f} = {k. public_at code k}"
proof -
  let ?M = "finditer FN_HEAD code"
  let ?hs = "map (\<lambda>m. (m_start m, fn_pos m)) ?M"
  from assms have parsed: "list_all2 (\<lambda>m d. parse_decl code m = Inr d) ?M ds"
    and n: "length (findall FN_TOKEN code) = length ds" "length (findall PUBLIC_TOKEN code) = length (filter is_public ds)"
    by (auto simp: fn_decls_def res_simps mapE_Inr_iff Let_def split: if_splits)
  have "list_all2 (\<lambda>(k, f) d. decl_at code k f d) ?hs ds"
    unfolding list_all2_map1 using parsed
    by (rule list.rel_mono_strong) (simp add: FN_HEAD_match(6))
  moreover have "sorted_wrt (\<lambda>x y. fst x < fst y \<and> snd x < snd y) ?hs"
    using FN_HEAD_sorted [of code] by (simp add: sorted_wrt_map)
  moreover have "snd ` set ?hs = {f. fn_at code f}"
    using FN_HEAD_counts(2) [of code] n(1) token_counts(1) [of code] list_all2_lengthD [OF parsed] by (simp add: image_image)
  moreover have "fst ` {(k, f) \<in> set ?hs. k < f} = m_start ` {m \<in> set ?M. marked m}"
  proof -
    have "{(k, f) \<in> set ?hs. k < f} = (\<lambda>m. (m_start m, fn_pos m)) ` {m \<in> set ?M. m_start m < fn_pos m}" by auto
    also have "{m \<in> set ?M. m_start m < fn_pos m} = {m \<in> set ?M. marked m}"
      using FN_HEAD_match(4) by blast
    finally show ?thesis by (simp add: image_image)
  qed
  then have "fst ` {(k, f) \<in> set ?hs. k < f} = {k. public_at code k}"
    using FN_HEAD_counts(4) [of code] n(2) token_counts(3) [of code] parsed_marked [OF parsed] by simp
  ultimately show ?thesis by blast
qed

text \<open>
  The contract the gates rely on: a parser of declarations that accounts for every keyword and
  every marker of the code. \<open>at code k f d\<close> says that declaration \<open>d\<close> starts at \<open>k\<close> and has its
  keyword at \<open>f\<close>.
\<close>

locale decl_parser =
  fixes parse :: "string \<Rightarrow> 'e + 'd list" and at :: "string \<Rightarrow> nat \<Rightarrow> nat \<Rightarrow> 'd \<Rightarrow> bool"
    and keyword :: "string \<Rightarrow> nat \<Rightarrow> bool" and marker :: "string \<Rightarrow> nat \<Rightarrow> bool" and public :: "'d \<Rightarrow> bool"
  assumes accounts: "parse code = Inr ds \<Longrightarrow>
      \<exists>hs. list_all2 (\<lambda>(k, f) d. at code k f d) hs ds \<and> snd ` set hs = {f. keyword code f} \<and>
        fst ` {(k, f) \<in> set hs. k < f} = {k. marker code k}"
    and at_public: "at code k f d \<Longrightarrow> public d \<longleftrightarrow> k < f"
begin

lemma declared:
  assumes "parse code = Inr ds"
  obtains hs where "\<And>k f. (k, f) \<in> set hs \<Longrightarrow> \<exists>d \<in> set ds. at code k f d"
    "\<And>d. d \<in> set ds \<Longrightarrow> \<exists>(k, f) \<in> set hs. at code k f d"
    "\<And>f. keyword code f \<longleftrightarrow> f \<in> snd ` set hs" "\<And>k. marker code k \<longleftrightarrow> (\<exists>f. (k, f) \<in> set hs \<and> k < f)"
proof -
  from accounts [OF assms] obtain hs where hs: "list_all2 (\<lambda>(k, f) d. at code k f d) hs ds"
    "snd ` set hs = {f. keyword code f}" "fst ` {(k, f) \<in> set hs. k < f} = {k. marker code k}" by blast
  have m: "marker code k \<longleftrightarrow> (\<exists>f. (k, f) \<in> set hs \<and> k < f)" for k
  proof -
    have "marker code k \<longleftrightarrow> k \<in> fst ` {(k, f) \<in> set hs. k < f}" by (simp add: hs(3))
    also have "\<dots> \<longleftrightarrow> (\<exists>f. (k, f) \<in> set hs \<and> k < f)" by force
    finally show ?thesis .
  qed
  from hs(1) have "\<exists>d \<in> set ds. at code k f d" if "(k, f) \<in> set hs" for k f
    using that by (induction rule: list_all2_induct) auto
  moreover from hs(1) have "\<exists>(k, f) \<in> set hs. at code k f d" if "d \<in> set ds" for d
    using that by (induction rule: list_all2_induct) auto
  ultimately show ?thesis using that m hs(2) by blast
qed

lemma marker_declared: "parse code = Inr ds \<Longrightarrow> marker code k \<Longrightarrow> \<exists>f. \<exists>d \<in> set ds. public d \<and> at code k f d"
  by (erule declared) (meson at_public)

lemma keyword_declared: "parse code = Inr ds \<Longrightarrow> keyword code f \<Longrightarrow> \<exists>k. \<exists>d \<in> set ds. at code k f d"
  by (erule declared) force

lemma declared_keyword:
  "parse code = Inr ds \<Longrightarrow> d \<in> set ds \<Longrightarrow> \<exists>k f. at code k f d \<and> keyword code f \<and> (public d \<longrightarrow> marker code k)"
proof (erule declared)
  fix hs assume "d \<in> set ds" and hs: "\<And>d. d \<in> set ds \<Longrightarrow> \<exists>(k, f) \<in> set hs. at code k f d"
    "\<And>f. keyword code f \<longleftrightarrow> f \<in> snd ` set hs" "\<And>k. marker code k \<longleftrightarrow> (\<exists>f. (k, f) \<in> set hs \<and> k < f)"
  from hs(1) [OF this(1)] obtain k f where kf: "(k, f) \<in> set hs" "at code k f d" by blast
  have "keyword code f" using kf(1) hs(2) by force
  moreover have "public d \<longrightarrow> marker code k" using kf hs(3) at_public [OF kf(2)] by blast
  ultimately show ?thesis using kf(2) by blast
qed

end

interpretation decls: decl_parser fn_decls decl_at fn_at public_at is_public
proof
  show "fn_decls code = Inr ds \<Longrightarrow> \<exists>hs. list_all2 (\<lambda>(k, f) d. decl_at code k f d) hs ds \<and>
      snd ` set hs = {f. fn_at code f} \<and> fst ` {(k, f) \<in> set hs. k < f} = {k. public_at code k}" for code ds
    using fn_decls_account by blast
  show "decl_at code k f d \<Longrightarrow> is_public d \<longleftrightarrow> k < f" for code k f d
    by (auto simp: decl_at_def)
qed


section \<open>Properties\<close>

text \<open>C4: a parse that succeeds has accounted for every declaration: the declarations it returns stand, in
  order, at increasing offsets (their marker at \<open>k\<close>, their fn at \<open>f\<close>); the offsets \<open>f\<close> are exactly
  the fn tokens of the code, and the marked ones start at exactly its pub/public tokens, so
  nothing else is marked.\<close>

theorem fn_decls_accounts:
  assumes "fn_decls code = Inr ds"
  shows "\<exists>hs. list_all2 (\<lambda>(k, f) d. decl_at code k f d) hs ds \<and> sorted_wrt (\<lambda>x y. fst x < fst y \<and> snd x < snd y) hs \<and>
    snd ` set hs = {f. fn_at code f} \<and> fst ` {(k, f) \<in> set hs. k < f} = {k. public_at code k}"
  using assms by (rule fn_decls_account)

text \<open>The parse fails on a token count only when a token is left over: more fn tokens than declarations, or
  more pub/public tokens than marked declarations, the numbers in the message being those of the code.\<close>

theorem fn_decls_left_over:
  "(fn_decls code = Inl (FnTokens a b) \<longrightarrow> a = card {f. fn_at code f} \<and> b < a) \<and>
   (fn_decls code = Inl (PublicTokens a b) \<longrightarrow> a = card {k. public_at code k} \<and> b < a)"
proof -
  have parse: "parse_decl code m \<noteq> Inl (FnTokens a b) \<and> parse_decl code m \<noteq> Inl (PublicTokens a b)" for m
    by (simp add: parse_decl_def Let_def split: option.split)
  have map: "mapE (parse_decl code) ms \<noteq> Inl (FnTokens a b) \<and> mapE (parse_decl code) ms \<noteq> Inl (PublicTokens a b)" for ms
    using parse by (induction ms) (auto simp: res_simps)
  have "length ds = length (finditer FN_HEAD code) \<and> length (filter is_public ds) = length (filter marked (finditer FN_HEAD code))"
    if "mapE (parse_decl code) (finditer FN_HEAD code) = Inr ds" for ds
    using that list_all2_lengthD parsed_marked unfolding mapE_Inr_iff by metis
  then show ?thesis
    using map FN_HEAD_counts(1,3) [of code] token_counts(1,3) [of code]
    by (auto simp: fn_decls_def res_simps Let_def split: if_splits)
qed

text \<open>The parameter list of a declaration ends at the matching parenthesis: the first place where as many
  have closed as opened, the balance staying positive before it.\<close>

theorem close_paren_matches:
  "k < length code \<Longrightarrow> code ! k = CHR ''('' \<Longrightarrow> close_paren code k = Some e \<longleftrightarrow> matching_paren code k e"
  by (rule close_paren_Some)

text \<open>The arity of a list of parameters without top-level commas of their own is the number of those that
  are not blank.\<close>

theorem arity_of_parameters:
  "list_all (\<lambda>p. flat 0 p = Some 0) ps \<Longrightarrow>
     arity (join_with '','' ps) = length (filter (\<lambda>p. strip_ws p \<noteq> []) ps)"
proof -
  assume h: "list_all (\<lambda>p. flat 0 p = Some 0) ps"
  have sum: "sum_list (map nonblank ps) = length (filter (\<lambda>p. strip_ws p \<noteq> []) ps)"
    by (induction ps) (auto simp: nonblank_def)
  show ?thesis
  proof (cases "ps = []")
    case True
    have "strip_ws [] = []" by code_simp
    with True show ?thesis by (simp add: arity_def nonblank_def)
  next
    case False
    from arity_loop_join [OF this h] show ?thesis by (simp add: arity_def sum)
  qed
qed

text \<open>The problems of a bundle are, in line order, exactly its derive lines, its define lines, the enum
  words of its stripped code and the hazards of its scan.\<close>

theorem bundle_problems_spec:
  "sorted (bundle_problems src) \<and>
   set (bundle_problems src) =
     {(line_at src p, DeriveLine) | p. line_word_at src ''#derive'' p} \<union>
     {(line_at src p, DefineLine) | p. line_word_at src ''#define'' p} \<union>
     {(line_at src k, EnumToken) | k. word_at ident_char (strip src Cyr False) ''enum'' k} \<union>
     set (hazards src)"
proof -
  have "m_start ` set (finditer DERIVE_LINE src) = {p. line_word_at src ''#derive'' p}"
    "m_start ` set (finditer DEFINE_LINE src) = {p. line_word_at src ''#define'' p}"
    by (rule line_word_finditer; simp add: DERIVE_LINE_def DEFINE_LINE_def)+
  note starts = this enum_finditer [of "strip src Cyr False"]
  have img: "(\<lambda>m. (line_at src (m_start m), y)) ` A = {(line_at src p, y) | p. p \<in> m_start ` A}" for y :: why and A
    by blast
  have "set (bundle_problems src) = (\<lambda>m. (line_at src (m_start m), DeriveLine)) ` set (finditer DERIVE_LINE src) \<union>
      (\<lambda>m. (line_at src (m_start m), DefineLine)) ` set (finditer DEFINE_LINE src) \<union>
      (\<lambda>m. (line_at src (m_start m), EnumToken)) ` set (finditer ENUM_TOKEN (strip src Cyr False)) \<union> set (hazards src)"
    by (simp add: bundle_problems_def Let_def Un_assoc)
  moreover have "sorted (bundle_problems src)" by (simp add: bundle_problems_def Let_def)
  ultimately show ?thesis unfolding img starts mem_Collect_eq by blast
qed

text \<open>The private marker leads: the check passes exactly when some marker line has no declaration keyword
  (fn, var, const, enum, struct, union, impl, marked public or not) before it.\<close>

theorem private_first_spec:
  "private_first code = None \<longleftrightarrow>
     (\<exists>p. matches_at MARKER code p \<and> (\<forall>k < p. \<not> decl_word code k))"
proof
  assume "private_first code = None"
  then obtain p where p: "matches_at MARKER code p" "\<forall>k < p. \<not> matches_at TOP_DECL code k"
    by (auto simp: private_first_None)
  then show "\<exists>p. matches_at MARKER code p \<and> (\<forall>k < p. \<not> decl_word code k)"
    by (meson TOP_DECL_at decl_word_def)
next
  assume "\<exists>p. matches_at MARKER code p \<and> (\<forall>k < p. \<not> decl_word code k)"
  then obtain p where p: "matches_at MARKER code p" "\<forall>k < p. \<not> decl_word code k" by blast
  define q where "q = (LEAST q. matches_at MARKER code q)"
  have q: "matches_at MARKER code q" "q \<le> p" "\<forall>k < q. \<not> matches_at MARKER code k"
    using p(1) by (auto simp: q_def intro: LeastI Least_le dest: not_less_Least)
  have "\<forall>k < q. \<not> matches_at TOP_DECL code k"
    using decl_before_marker [OF q(1)] p(2) q(2) by (meson less_le_trans)
  with q show "private_first code = None" by (auto simp: private_first_None)
qed

section \<open>The properties at concrete sources\<close>

lemma fn_decls_accounts_witness:
  "\<exists>hs. list_all2 (\<lambda>(k, f) d. decl_at ''pub fn f(a) fn g()'' k f d) hs
       [\<lparr>is_public = True, fn_name = ''f'', fn_args = ''a''\<rparr>, \<lparr>is_public = False, fn_name = ''g'', fn_args = []\<rparr>] \<and>
     sorted_wrt (\<lambda>x y. fst x < fst y \<and> snd x < snd y) hs \<and>
     snd ` set hs = {f. fn_at ''pub fn f(a) fn g()'' f} \<and>
     fst ` {(k, f) \<in> set hs. k < f} = {k. public_at ''pub fn f(a) fn g()'' k}"
  by (rule fn_decls_accounts) code_simp

lemma fn_decls_left_over_witness:
  "2 = card {f. fn_at ''fn f() fn'' f} \<and> (1 :: nat) < 2 \<and> 2 = card {k. public_at ''pub fn f() pub var'' k}"
proof -
  have "fn_decls ''fn f() fn'' = Inl (FnTokens 2 1)" "fn_decls ''pub fn f() pub var'' = Inl (PublicTokens 2 1)"
    by code_simp+
  with fn_decls_left_over [of "''fn f() fn''" 2 1] fn_decls_left_over [of "''pub fn f() pub var''" 2 1]
  show ?thesis by simp
qed

lemma close_paren_matches_witness: "matching_paren ''f(a(b))'' 1 6"
proof -
  have "close_paren ''f(a(b))'' 1 = Some 6" by code_simp
  with close_paren_matches [of 1 "''f(a(b))''" 6] show ?thesis by simp
qed

lemma arity_of_parameters_witness:
  "arity (join_with '','' [''a'', '' b: R<i, i>'', '' '']) = length (filter (\<lambda>p. strip_ws p \<noteq> []) [''a'', '' b: R<i, i>'', '' ''])"
  by (rule arity_of_parameters) code_simp

lemma private_first_spec_witness:
  "\<exists>p. matches_at MARKER (''private'' @ [LF] @ ''fn f()'') p \<and> (\<forall>k < p. \<not> decl_word (''private'' @ [LF] @ ''fn f()'') k)"
proof -
  have "private_first (''private'' @ [LF] @ ''fn f()'') = None" by code_simp
  with private_first_spec [of "''private'' @ [LF] @ ''fn f()''"] show ?thesis by simp
qed

end
