(* ===== verification/SurfaceCheck.thy ===== *)
theory SurfaceCheck
  imports CyrDeclSpec "HOL-Library.AList"
begin

text \<open>
  \<^verbatim>\<open>tools/surface_check.py\<close>: the gate that compares the public functions of the
  bundle with a checked-in manifest. \<open>read\<close> stands for opening a path and reading its text
  (\<^const>\<open>None\<close> where that raises \<^verbatim>\<open>OSError\<close>); \<open>die\<close> is the left of the
  sum, and what a run prints is a list of \<open>surface_line\<close>s. A dict is an association list
  in insertion order, updated with \<^const>\<open>AList.update\<close>.
\<close>


section \<open>Outcomes\<close>

datatype surface_line =
    BundleNotPrivate
  | PrivateNotFirst
  | UnparsableBundle decl_error
  | BundleDeclares nat why
  | NewExport string string          \<comment> \<open>name, arguments\<close>
  | RemovedExport string
  | OkExport string string           \<comment> \<open>key, rule\<close>
  | TypeLeak string string           \<comment> \<open>name, arguments\<close>
  | Drifted
  | Matches nat

datatype surface_die =
    SurfaceUsage
  | CannotRead string
  | NoPublicFns string
  | BadEntry nat string              \<comment> \<open>no slash in the first word of a line\<close>
  | BadRule nat string
  | EmptyManifest

definition LEAKY_PARAM :: rx where
  "LEAKY_PARAM = Seqs [WordB, Grp 1 (Words [''table'', ''fn_table'', ''fntable'', ''slot'', ''fp'', ''fnptr'']), WordB]"


section \<open>The bundle\<close>

definition export_key :: "fn_decl \<Rightarrow> string" where
  "export_key d = fn_name d @ ''/'' @ dec_nat (arity (fn_args d))"

text \<open>The dict of the public functions: name and arity, with the text of the parameters.\<close>

definition exports :: "fn_decl list \<Rightarrow> (string \<times> string) list" where
  "exports ds = fold (\<lambda>d. AList.update (export_key d) (strip_ws (fn_args d))) (filter is_public ds) []"

definition parse_bundle ::
  "(string \<Rightarrow> string option) \<Rightarrow> string \<Rightarrow> surface_die + (surface_line list \<times> (string \<times> string) list option)" where
  "parse_bundle read path =
     (case read path of
        None \<Rightarrow> Inl (CannotRead path)
      | Some src \<Rightarrow>
          (let code = strip src Cyr False in
           case private_first code of
             Some NoMarker \<Rightarrow> Inr ([BundleNotPrivate], None)
           | Some DeclBeforeMarker \<Rightarrow> Inr ([PrivateNotFirst], None)
           | None \<Rightarrow>
               (case fn_decls code of
                  Inl e \<Rightarrow> Inr ([UnparsableBundle e], None)
                | Inr decls \<Rightarrow>
                    (let problems = bundle_problems src in
                     if problems \<noteq> [] then Inr (map (\<lambda>(ln, y). BundleDeclares ln y) problems, None)
                     else let exported = exports decls in
                          if exported = [] then Inl (NoPublicFns path) else Inr ([], Some exported)))))"


section \<open>The manifest\<close>

text \<open>One line of the manifest: skipped, an entry, or an error.\<close>

definition manifest_row :: "nat \<Rightarrow> string \<Rightarrow> surface_die + (string \<times> string) option" where
  "manifest_row lineno raw =
     (let line = strip_ws (hd (split_char HASH raw)) in
      if line = [] then Inr None
      else
        let parts = split_ws line;
            key = hd parts
        in if CHR ''/'' \<notin> set key then Inl (BadEntry lineno key)
           else let rule = (if 1 < length parts then parts ! 1 else ''clean'')
                in if rule \<notin> {''clean'', ''leaks-fn-table''} then Inl (BadRule lineno rule)
                   else Inr (Some (key, rule)))"

text \<open>The loop over the numbered lines with the dict built so far.\<close>

fun manifest_loop :: "nat \<Rightarrow> (string \<times> string) list \<Rightarrow> string list \<Rightarrow> surface_die + (string \<times> string) list" where
  "manifest_loop lineno want [] = Inr want"
| "manifest_loop lineno want (raw # rest) =
     bindE (manifest_row lineno raw) (\<lambda>r.
       manifest_loop (Suc lineno) (case r of None \<Rightarrow> want | Some (k, v) \<Rightarrow> AList.update k v want) rest)"

definition parse_manifest :: "(string \<Rightarrow> string option) \<Rightarrow> string \<Rightarrow> surface_die + (string \<times> string) list" where
  "parse_manifest read path =
     (case read path of
        None \<Rightarrow> Inl (CannotRead path)
      | Some text \<Rightarrow>
          bindE (manifest_loop 1 [] (splitlines text)) (\<lambda>want.
            if want = [] then Inl EmptyManifest else Inr want))"


section \<open>The gate\<close>

definition key_name :: "string \<Rightarrow> string" where
  "key_name key = hd (split_char CHR ''/'' key)"

definition compare_line :: "(string \<times> string) list \<Rightarrow> (string \<times> string) list \<Rightarrow> string \<Rightarrow> surface_line" where
  "compare_line exported want key =
     (case map_of want key of
        None \<Rightarrow> NewExport (key_name key) (the (map_of exported key))
      | Some rule \<Rightarrow> if map_of exported key = None then RemovedExport key else OkExport key rule)"

text \<open>The second loop: a clean export whose parameters name the function table.\<close>

definition leaks :: "(string \<times> string) list \<Rightarrow> (string \<times> string) list \<Rightarrow> surface_line list" where
  "leaks exported want =
     map (\<lambda>(key, args). TypeLeak (key_name key) args)
       (filter (\<lambda>(key, args). map_of want key = Some ''clean'' \<and> re_search LEAKY_PARAM args \<noteq> None) (sort exported))"

definition is_ok_line :: "surface_line \<Rightarrow> bool" where
  "is_ok_line l \<longleftrightarrow> (\<exists>k r. l = OkExport k r)"

lemma is_ok_line_simps [simp, code]:
  "is_ok_line (OkExport k r) = True" "is_ok_line (NewExport a b) = False" "is_ok_line (RemovedExport k) = False"
  "is_ok_line BundleNotPrivate = False" "is_ok_line PrivateNotFirst = False" "is_ok_line (UnparsableBundle e) = False"
  "is_ok_line (BundleDeclares n y) = False" "is_ok_line (TypeLeak a b) = False" "is_ok_line Drifted = False"
  "is_ok_line (Matches n) = False"
  by (simp_all add: is_ok_line_def)

text \<open>\<open>main\<close>: what is printed and the exit status, or a \<open>die\<close> (status 2).\<close>

definition surface_main :: "(string \<Rightarrow> string option) \<Rightarrow> string list \<Rightarrow> surface_die + (surface_line list \<times> nat)" where
  "surface_main read argv =
     (case argv of
        [root, manifest_path] \<Rightarrow>
          bindE (parse_bundle read (path_join (path_join root ''dist'') ''samvada.cyr'')) (\<lambda>(printed, exported).
            case exported of
              None \<Rightarrow> Inr (printed, 1)
            | Some exported \<Rightarrow>
                bindE (parse_manifest read manifest_path) (\<lambda>want.
                  let compared = map (compare_line exported want) (sort (remdups (map fst exported @ map fst want)));
                      leaked = leaks exported want;
                      bad = (if list_all is_ok_line compared \<and> leaked = [] then 0 else 1)
                  in Inr (printed @ compared @ leaked @ [if bad = 1 then Drifted else Matches (length want)], bad)))
      | _ \<Rightarrow> Inl SurfaceUsage)"

section \<open>Dicts\<close>

lemma exports_keys: "fst ` set (exports ds) = export_key ` {d \<in> set ds. is_public d}"
proof -
  have "fst ` set (fold (\<lambda>d. AList.update (export_key d) (strip_ws (fn_args d))) xs al) =
      fst ` set al \<union> export_key ` set xs" for xs al
    by (induction xs arbitrary: al) (auto simp: dom_update)
  then show ?thesis by (simp add: exports_def)
qed

lemma exports_args: "(k, a) \<in> set (exports ds) \<Longrightarrow> \<exists>d \<in> set ds. is_public d \<and> k = export_key d \<and> a = strip_ws (fn_args d)"
proof -
  have upd: "set (AList.update k v al) \<subseteq> insert (k, v) (set al)" for k v and al :: "(string \<times> string) list"
    by (induction al) auto
  have "set (fold (\<lambda>d. AList.update (export_key d) (strip_ws (fn_args d))) xs al) \<subseteq>
      set al \<union> (\<lambda>d. (export_key d, strip_ws (fn_args d))) ` set xs" for xs al
  proof (induction xs arbitrary: al)
    case (Cons x xs)
    from Cons.IH [of "AList.update (export_key x) (strip_ws (fn_args x)) al"] upd [of "export_key x" _ al]
    show ?case by fastforce
  qed simp
  moreover assume "(k, a) \<in> set (exports ds)"
  ultimately show ?thesis by (fastforce simp: exports_def)
qed

lemma map_of_None_iff: "map_of al k = None \<longleftrightarrow> k \<notin> fst ` set al"
  by (induction al) auto


section \<open>Leaky parameters, without patterns\<close>

definition whole_word :: "string \<Rightarrow> string \<Rightarrow> nat \<Rightarrow> bool" where
  "whole_word s w k \<longleftrightarrow> startswith_at s w k \<and> \<not> (0 < k \<and> word_char (s ! (k - 1))) \<and>
     \<not> (k + length w < length s \<and> word_char (s ! (k + length w)))"

definition LEAKY_WORDS :: "string list" where
  "LEAKY_WORDS = [''table'', ''fn_table'', ''fntable'', ''slot'', ''fp'', ''fnptr'']"

lemma WordB_mem:
  "(j, h) \<in> set (rx_m WordB s n i g) \<longleftrightarrow>
     j = i \<and> h = g \<and> (0 < i \<and> word_char (s ! (i - 1))) \<noteq> (i < n \<and> word_char (s ! i))"
  unfolding WordB_def rx_m_basic_mem(4) rx_m_basic_mem(3) rx_m_basic_mem(6) Ahead_class_mem by blast

lemma LEAKY_words: "w \<in> set LEAKY_WORDS \<Longrightarrow> w \<noteq> [] \<and> (\<forall>c \<in> set w. word_char c)"
  by (auto simp: LEAKY_WORDS_def word_char_def is_alnum_def is_lower_def)

lemma word_ends:
  assumes "startswith_at s w k" "w \<noteq> []" "\<forall>c \<in> set w. P c"
  shows "k < length s" "P (s ! k)" "P (s ! (k + length w - 1))"
proof -
  from startswith_at_length [OF assms(1,2)] assms(2) show "k < length s" by (cases w) auto
  have "P (s ! (k + t))" if "t < length w" for t
    using that assms(3) startswith_at_nth [OF assms(1) that] by (metis nth_mem)
  from this [of 0] this [of "length w - 1"] assms(2) show "P (s ! k)" "P (s ! (k + length w - 1))"
    by (cases w; simp)+
qed

lemma LEAKY_PARAM_matches: "matches_at LEAKY_PARAM s k \<longleftrightarrow> (\<exists>w \<in> set LEAKY_WORDS. whole_word s w k)"
proof
  assume "matches_at LEAKY_PARAM s k"
  then obtain j h k1 g1 k2 g2 where m: "(k1, g1) \<in> set (rx_m WordB s (length s) k [])"
    "(k2, g2) \<in> set (rx_m (Grp 1 (Words LEAKY_WORDS)) s (length s) k1 g1)"
    "(j, h) \<in> set (rx_m WordB s (length s) k2 g2)"
    unfolding matches_at_iff LEAKY_PARAM_def Seqs_mem LEAKY_WORDS_def by (elim exE conjE)
  from m(1) have 1: "k1 = k" "(0 < k \<and> word_char (s ! (k - 1))) \<noteq> (k < length s \<and> word_char (s ! k))"
    unfolding WordB_mem by auto
  from m(2) obtain w h' where w: "w \<in> set LEAKY_WORDS" "(k2, h') \<in> set (rx_m (Lit w) s (length s) k g1)"
    unfolding rx_m_basic_mem rx_m_Words_mem 1 by blast
  with LEAKY_words [OF w(1)] have sw: "startswith_at s w k" "k2 = k + length w" by (simp_all add: rx_Lit_at)
  have "k < length s" "word_char (s ! k)" "word_char (s ! (k2 - 1))" "0 < k2"
    using word_ends [OF sw(1), of word_char] LEAKY_words [OF w(1)] sw(2) by auto
  with 1(2) m(3) w(1) sw show "\<exists>w \<in> set LEAKY_WORDS. whole_word s w k"
    unfolding WordB_mem whole_word_def by auto
next
  assume "\<exists>w \<in> set LEAKY_WORDS. whole_word s w k"
  then obtain w where w: "w \<in> set LEAKY_WORDS" "whole_word s w k" by blast
  then have sw: "startswith_at s w k" and ne: "w \<noteq> []" "\<forall>c \<in> set w. word_char c"
    using LEAKY_words by (auto simp: whole_word_def)
  note len = startswith_at_length [OF sw ne(1)]
  note ends = word_ends [OF sw ne]
  have "(k + length w, [(1, k, k + length w)]) \<in> set (rx_m LEAKY_PARAM s (length s) k [])"
    unfolding LEAKY_PARAM_def Seqs_mem LEAKY_WORDS_def [symmetric]
  proof (intro exI conjI)
    show "(k, []) \<in> set (rx_m WordB s (length s) k [])"
      using ends w(2) unfolding WordB_mem whole_word_def by auto
    show "(k + length w, [(1, k, k + length w)]) \<in> set (rx_m (Grp 1 (Words LEAKY_WORDS)) s (length s) k [])"
      using w(1) rx_Lit_at [OF ne(1), of "k + length w" "[]" s k "[]"] sw
      unfolding rx_m_basic_mem rx_m_Words_mem by blast
    show "(k + length w, [(1, k, k + length w)]) \<in> set (rx_m WordB s (length s) (k + length w) [(1, k, k + length w)])"
      using ends w(2) ne(1) unfolding WordB_mem whole_word_def by auto
  qed
  then show "matches_at LEAKY_PARAM s k" using ends(1) by (intro matches_atI) auto
qed

lemma leaky_iff: "re_search LEAKY_PARAM s \<noteq> None \<longleftrightarrow> (\<exists>w \<in> set LEAKY_WORDS. \<exists>k. whole_word s w k)"
  unfolding re_search_first(2) LEAKY_PARAM_matches by blast


section \<open>The manifest, line by line\<close>

lemma manifest_loop_error:
  "manifest_loop n want rows = Inl e \<longleftrightarrow>
     (\<exists>i < length rows. manifest_row (n + i) (rows ! i) = Inl e \<and> (\<forall>j < i. \<exists>r. manifest_row (n + j) (rows ! j) = Inr r))"
proof (induction rows arbitrary: n want)
  case (Cons raw rows)
  show ?case
  proof (cases "manifest_row n raw")
    case (Inl d)
    then show ?thesis by (auto simp: Ex_less_Suc2)
  next
    case (Inr r)
    then show ?thesis by (simp add: Cons.IH Ex_less_Suc2 All_less_Suc2)
  qed
qed simp

definition manifest_line :: "string \<times> string \<Rightarrow> string" where
  "manifest_line kv = fst kv @ SP # snd kv"

definition manifest_entry_ok :: "string \<times> string \<Rightarrow> bool" where
  "manifest_entry_ok kv \<longleftrightarrow> CHR ''/'' \<in> set (fst kv) \<and> HASH \<notin> set (fst kv) \<and>
     list_all (\<lambda>c. \<not> is_space c) (fst kv) \<and> snd kv \<in> {''clean'', ''leaks-fn-table''}"

lemma rule_chars: "r \<in> {''clean'', ''leaks-fn-table''} \<Longrightarrow> HASH \<notin> set r \<and> r \<noteq> [] \<and> (\<forall>c \<in> set r. \<not> is_space c)"
  by (auto simp: is_space_def)

lemma manifest_row_entry:
  assumes "manifest_entry_ok kv"
  shows "manifest_row n (manifest_line kv) = Inr (Some kv)"
proof -
  obtain k r where kv: "kv = (k, r)" by fastforce
  from assms have k: "CHR ''/'' \<in> set k" "HASH \<notin> set k" "\<forall>c \<in> set k. \<not> is_space c" and r: "r \<in> {''clean'', ''leaks-fn-table''}"
    by (auto simp: manifest_entry_ok_def kv list_all_iff)
  note rc = rule_chars [OF r]
  have "k \<noteq> []" using k(1) by auto
  have "split_char HASH (manifest_line kv) = [manifest_line kv]"
    unfolding split_char_def using k(2) rc by (intro split_by_no_sep) (auto simp: manifest_line_def kv)
  moreover have "strip_ws (manifest_line kv) = manifest_line kv"
    using k(3) rc \<open>k \<noteq> []\<close> by (intro strip_ws_id) (auto simp: manifest_line_def kv)
  moreover have "split_ws (manifest_line kv) = [k, r]"
    using k(3) rc \<open>k \<noteq> []\<close> by (simp add: manifest_line_def kv split_ws_Cons split_ws_single is_space_def)
  moreover have "manifest_line kv \<noteq> []" by (simp add: manifest_line_def)
  ultimately show ?thesis using k(1) r by (auto simp: manifest_row_def Let_def kv)
qed

lemma update_new: "k \<notin> fst ` set al \<Longrightarrow> AList.update k v al = al @ [(k, v)]"
  by (induction al) auto

lemma manifest_loop_entries:
  "list_all manifest_entry_ok kvs \<Longrightarrow> distinct (map fst (want @ kvs)) \<Longrightarrow>
     manifest_loop n want (map manifest_line kvs) = Inr (want @ kvs)"
proof (induction kvs arbitrary: n want)
  case (Cons kv kvs)
  obtain k r where kv: "kv = (k, r)" by fastforce
  from Cons.prems(2) have "k \<notin> fst ` set want" by (auto simp: kv)
  then have "AList.update k r want = want @ [kv]" by (simp add: update_new kv)
  with Cons.IH [of "want @ [kv]" "Suc n"] Cons.prems show ?case
    using manifest_row_entry [of kv n] by (simp add: kv)
qed simp

section \<open>What a run means\<close>

definition bundle_path :: "string \<Rightarrow> string" where
  "bundle_path root = path_join (path_join root ''dist'') ''samvada.cyr''"

lemma parse_bundle_Some:
  "parse_bundle read path = Inr (pr, Some ex) \<longleftrightarrow>
     (\<exists>src ds. read path = Some src \<and> private_first (strip src Cyr False) = None \<and>
        fn_decls (strip src Cyr False) = Inr ds \<and> bundle_problems src = [] \<and> exports ds \<noteq> [] \<and> ex = exports ds \<and> pr = [])"
proof (cases "read path")
  case (Some src)
  show ?thesis
  proof (cases "private_first (strip src Cyr False)")
    case None
    show ?thesis
    proof (cases "fn_decls (strip src Cyr False)")
      case (Inl e)
      then show ?thesis using Some None by (simp add: parse_bundle_def Let_def)
    next
      case (Inr ds)
      then have "parse_bundle read path = (if bundle_problems src \<noteq> [] then Inr (map (\<lambda>(ln, y). BundleDeclares ln y) (bundle_problems src), None)
          else if exports ds = [] then Inl (NoPublicFns path) else Inr ([], Some (exports ds)))"
        using Some None by (simp add: parse_bundle_def Let_def)
      then have "parse_bundle read path = Inr (pr, Some ex) \<longleftrightarrow>
          bundle_problems src = [] \<and> exports ds \<noteq> [] \<and> ex = exports ds \<and> pr = []"
        by (cases "bundle_problems src = []"; cases "exports ds = []") auto
      then show ?thesis by (simp add: Some None Inr)
    qed
  next
    case (Some why)
    then show ?thesis using \<open>read path = Some src\<close> by (cases why) (simp_all add: parse_bundle_def Let_def)
  qed
qed (simp add: parse_bundle_def)

lemma compared_ok:
  "list_all is_ok_line (map (compare_line ex want) (sort (remdups (map fst ex @ map fst want)))) \<longleftrightarrow>
     fst ` set ex = fst ` set want"
proof -
  have "is_ok_line (compare_line ex want k) \<longleftrightarrow> k \<in> fst ` set want \<and> k \<in> fst ` set ex" for k
    using map_of_None_iff [of want k] map_of_None_iff [of ex k]
    by (auto simp: compare_line_def split: option.split)
  then show ?thesis by (simp add: list_all_iff) blast
qed

lemma leaks_Nil:
  "leaks ex want = [] \<longleftrightarrow>
     (\<forall>(k, args) \<in> set ex. map_of want k = Some ''clean'' \<longrightarrow> \<not> (\<exists>w \<in> set LEAKY_WORDS. \<exists>i. whole_word args w i))"
  unfolding leaks_def leaky_iff by (auto simp: filter_empty_conv)

lemma surface_main_pass:
  "(\<exists>out. surface_main read [root, mp] = Inr (out, 0)) \<longleftrightarrow>
     (\<exists>src ds want. read (bundle_path root) = Some src \<and> private_first (strip src Cyr False) = None \<and>
        fn_decls (strip src Cyr False) = Inr ds \<and> bundle_problems src = [] \<and> parse_manifest read mp = Inr want \<and>
        fst ` set want = export_key ` {d \<in> set ds. is_public d} \<and>
        (\<forall>(k, args) \<in> set (exports ds). map_of want k = Some ''clean'' \<longrightarrow> \<not> (\<exists>w \<in> set LEAKY_WORDS. \<exists>i. whole_word args w i)))"
    (is "?L \<longleftrightarrow> ?R")
proof -
  have want: "parse_manifest read mp = Inr want \<Longrightarrow> want \<noteq> []" for want
    by (auto simp: parse_manifest_def res_simps split: option.splits if_splits)
  have R: "?R \<longleftrightarrow> (\<exists>src ds want. read (bundle_path root) = Some src \<and> private_first (strip src Cyr False) = None \<and>
        fn_decls (strip src Cyr False) = Inr ds \<and> bundle_problems src = [] \<and> parse_manifest read mp = Inr want \<and>
        fst ` set want = fst ` set (exports ds) \<and> leaks (exports ds) want = [])"
    by (simp only: leaks_Nil exports_keys)
  have "?L \<longleftrightarrow> (\<exists>ex want. parse_bundle read (bundle_path root) = Inr ([], Some ex) \<and> parse_manifest read mp = Inr want \<and>
      fst ` set ex = fst ` set want \<and> leaks ex want = [])"
  proof (cases "parse_bundle read (bundle_path root)")
    case (Inr r)
    obtain pr e where r: "r = (pr, e)" by fastforce
    show ?thesis
    proof (cases e)
      case (Some ex)
      with Inr r have "pr = []" by (auto simp: parse_bundle_Some)
      with Inr r Some show ?thesis
        by (cases "parse_manifest read mp") (simp_all add: surface_main_def bundle_path_def Let_def compared_ok)
    qed (use Inr r in \<open>simp add: surface_main_def bundle_path_def\<close>)
  qed (simp add: surface_main_def bundle_path_def)
  also have "\<dots> \<longleftrightarrow> ?R"
  proof
    assume "\<exists>ex want. parse_bundle read (bundle_path root) = Inr ([], Some ex) \<and> parse_manifest read mp = Inr want \<and>
      fst ` set ex = fst ` set want \<and> leaks ex want = []"
    then show ?R unfolding R parse_bundle_Some by metis
  next
    assume ?R
    then obtain src ds want' where r: "read (bundle_path root) = Some src" "private_first (strip src Cyr False) = None"
      "fn_decls (strip src Cyr False) = Inr ds" "bundle_problems src = []" "parse_manifest read mp = Inr want'"
      "fst ` set want' = fst ` set (exports ds)" and leak: "leaks (exports ds) want' = []"
      unfolding R by metis
    moreover from r(6) want [OF r(5)] have "exports ds \<noteq> []" by auto
    ultimately show "\<exists>ex want. parse_bundle read (bundle_path root) = Inr ([], Some ex) \<and> parse_manifest read mp = Inr want \<and>
      fst ` set ex = fst ` set want \<and> leaks ex want = []"
      unfolding parse_bundle_Some by metis
  qed
  finally show ?thesis .
qed


section \<open>Properties\<close>

text \<open>C5: the surface gate passes exactly when the bundle leads with its private marker, parses, declares
  nothing the count cannot see, its public functions by name and arity are exactly the manifest's rows, and
  no row marked clean has a parameter named like the function table (its words read as whole words).\<close>

theorem surface_pass_iff:
  "(\<exists>out. surface_main read [root, mp] = Inr (out, 0)) \<longleftrightarrow>
     (\<exists>src ds want. read (bundle_path root) = Some src \<and> private_first (strip src Cyr False) = None \<and>
        fn_decls (strip src Cyr False) = Inr ds \<and> bundle_problems src = [] \<and> parse_manifest read mp = Inr want \<and>
        fst ` set want = export_key ` {d \<in> set ds. is_public d} \<and>
        (\<forall>(k, args) \<in> set (exports ds). map_of want k = Some ''clean'' \<longrightarrow> \<not> (\<exists>w \<in> set LEAKY_WORDS. \<exists>i. whole_word args w i)))"
  by (rule surface_main_pass)

text \<open>C6: no hidden export: when the gate passes, every pub or public token of the stripped bundle starts a
  function declaration whose name and arity are a row of the manifest.\<close>

theorem surface_no_hidden_export:
  assumes "surface_main read [root, mp] = Inr (out, 0)" "read (bundle_path root) = Some src"
    "public_at (strip src Cyr False) k"
  shows "\<exists>f d want. decl_at (strip src Cyr False) k f d \<and> is_public d \<and> parse_manifest read mp = Inr want \<and>
    export_key d \<in> fst ` set want"
proof -
  from assms(1,2) obtain ds want where ds: "fn_decls (strip src Cyr False) = Inr ds" "parse_manifest read mp = Inr want"
    "fst ` set want = export_key ` {d \<in> set ds. is_public d}"
    using surface_main_pass [of read root mp] by auto
  from decls.marker_declared [OF ds(1) assms(3)] obtain f d where
    "d \<in> set ds" "is_public d" "decl_at (strip src Cyr False) k f d" by blast
  with ds show ?thesis by blast
qed

text \<open>A manifest written one row a line is read back as it is: its keys and rules, in order.\<close>

theorem manifest_roundtrip:
  assumes "kvs \<noteq> []" "list_all manifest_entry_ok kvs" "distinct (map fst kvs)"
    "read mp = Some (concat (map (\<lambda>kv. manifest_line kv @ [LF]) kvs))"
  shows "parse_manifest read mp = Inr kvs"
proof -
  have "\<forall>c \<in> set (manifest_line kv). \<not> line_break c" if "kv \<in> set kvs" for kv
  proof
    fix c assume "c \<in> set (manifest_line kv)"
    with assms(2) that rule_chars [of "snd kv"] have "c = SP \<or> \<not> is_space c"
      by (auto simp: manifest_line_def manifest_entry_ok_def list_all_iff)
    then show "\<not> line_break c" using line_break_is_space by (auto simp: line_break_def)
  qed
  then have "splitlines (concat (map (\<lambda>w. w @ [LF]) (map manifest_line kvs))) = map manifest_line kvs"
    by (intro splitlines_unlines) auto
  with manifest_loop_entries [of kvs "[]" 1] assms show ?thesis
    by (simp add: parse_manifest_def comp_def)
qed

text \<open>A refused manifest names the first line that is not a row: all lines before it were read, and the
  message carries that line's number.\<close>

theorem manifest_error_line:
  assumes "read mp = Some text" "parse_manifest read mp = Inl e" "e \<noteq> EmptyManifest"
  shows "\<exists>i < length (splitlines text). manifest_row (Suc i) (splitlines text ! i) = Inl e \<and>
    (\<forall>j < i. \<exists>r. manifest_row (Suc j) (splitlines text ! j) = Inr r) \<and>
    (\<exists>word. e = BadEntry (Suc i) word \<and> CHR ''/'' \<notin> set word \<or> e = BadRule (Suc i) word \<and> word \<notin> {''clean'', ''leaks-fn-table''})"
proof -
  from assms have "manifest_loop 1 [] (splitlines text) = Inl e"
    by (auto simp: parse_manifest_def res_simps split: if_splits)
  then obtain i where i: "i < length (splitlines text)" "manifest_row (Suc i) (splitlines text ! i) = Inl e"
    "\<forall>j < i. \<exists>r. manifest_row (Suc j) (splitlines text ! j) = Inr r"
    unfolding manifest_loop_error by auto
  from i(2) have "\<exists>word. e = BadEntry (Suc i) word \<and> CHR ''/'' \<notin> set word \<or>
      e = BadRule (Suc i) word \<and> word \<notin> {''clean'', ''leaks-fn-table''}"
    by (auto simp: manifest_row_def Let_def split: if_splits)
  with i show ?thesis by blast
qed

section \<open>The properties at a concrete tree\<close>

text \<open>A tree with one public function, and its manifest.\<close>

definition sample_bundle :: string where
  "sample_bundle = ''private'' @ [LF] @ ''pub fn f(a) {} fn g() {}'' @ [LF]"

definition sample_read :: "string \<Rightarrow> string option" where
  "sample_read p = (if p = ''r/dist/samvada.cyr'' then Some sample_bundle
     else if p = ''m'' then Some (''f/1 clean'' @ [LF]) else None)"

lemma sample_reads:
  "sample_read ''m'' = Some (concat (map (\<lambda>kv. manifest_line kv @ [LF]) [(''f/1'', ''clean'')]))"
  "bundle_path ''r'' = ''r/dist/samvada.cyr''" "sample_read ''r/dist/samvada.cyr'' = Some sample_bundle"
  by code_simp+

lemma sample_decls:
  "private_first (strip sample_bundle Cyr False) = None" "bundle_problems sample_bundle = []"
  "fn_decls (strip sample_bundle Cyr False) =
     Inr [\<lparr>is_public = True, fn_name = ''f'', fn_args = ''a''\<rparr>, \<lparr>is_public = False, fn_name = ''g'', fn_args = []\<rparr>]"
  by code_simp+

lemma sample_exports:
  "exports [\<lparr>is_public = True, fn_name = ''f'', fn_args = ''a''\<rparr>, \<lparr>is_public = False, fn_name = ''g'', fn_args = []\<rparr>] =
     [(''f/1'', ''a'')]"
  "parse_manifest sample_read ''m'' = Inr [(''f/1'', ''clean'')]" "re_search LEAKY_PARAM ''a'' = None"
  by code_simp+

lemma sample_run: "surface_main sample_read [''r'', ''m''] = Inr ([OkExport ''f/1'' ''clean'', Matches 1], 0)"
proof -
  have "compare_line [(''f/1'', ''a'')] [(''f/1'', ''clean'')] ''f/1'' = OkExport ''f/1'' ''clean''" by code_simp
  then show ?thesis
    by (simp add: surface_main_def bundle_path_def [symmetric] sample_reads parse_bundle_def sample_decls sample_exports
        leaks_def Let_def del: map_of.simps)
qed

lemma surface_pass_iff_witness: "fst ` set [(''f/1'', ''clean'')] = {''f/1''}"
proof -
  have "\<exists>out. surface_main sample_read [''r'', ''m''] = Inr (out, 0)" by (simp add: sample_run)
  from this [unfolded surface_pass_iff] show ?thesis
    by (auto simp: sample_exports sample_reads sample_decls)
qed

lemma surface_no_hidden_export_witness:
  "\<exists>f d want. decl_at (strip sample_bundle Cyr False) 8 f d \<and> is_public d \<and> parse_manifest sample_read ''m'' = Inr want \<and>
    export_key d \<in> fst ` set want"
proof (rule surface_no_hidden_export [OF sample_run])
  show "sample_read (bundle_path ''r'') = Some sample_bundle" by (simp add: sample_reads)
  show "public_at (strip sample_bundle Cyr False) 8" by code_simp
qed

lemma manifest_roundtrip_witness: "parse_manifest sample_read ''m'' = Inr [(''f/1'', ''clean'')]"
  by (rule manifest_roundtrip) (code_simp, code_simp, code_simp, rule sample_reads)

lemma manifest_error_line_witness:
  "\<exists>i < length (splitlines (''f/1'' @ [LF] @ ''g'')). manifest_row (Suc i) (splitlines (''f/1'' @ [LF] @ ''g'') ! i) = Inl (BadEntry 2 ''g'')"
proof -
  have "parse_manifest (\<lambda>_. Some (''f/1'' @ [LF] @ ''g'')) ''m'' = Inl (BadEntry 2 ''g'')" by code_simp
  from manifest_error_line [OF refl this] show ?thesis by blast
qed

end
