(* ===== verification/BoundaryCheck.thy ===== *)
theory BoundaryCheck
  imports SurfaceCheck
begin

text \<open>
  \<^verbatim>\<open>tools/boundary_check.py\<close>: the gate that compiles two consumers of the bundle, one
  calling every public function and one calling every other, in a work directory made for them.
  The compiler is a parameter: \<open>cycc dir text\<close> is what it answers to the program \<open>text\<close> on its
  standard input when it runs in the directory \<open>dir\<close>, its exit status and its error output; what it
  writes goes to its standard output, which the gate discards. \<open>read\<close> is as in \<open>SurfaceCheck\<close>;
  \<open>listdir\<close> gives the names in a directory and \<open>load\<close> the contents of a file as they are copied,
  \<open>None\<close> where the call raises \<^verbatim>\<open>OSError\<close>.
\<close>


section \<open>Outcomes\<close>

datatype boundary_line =
    PublicSetDiffers "string list" "string list"   \<comment> \<open>extra, missing\<close>
  | CannotReach int "string list"
  | ReachesAll nat
  | BoundaryOpen nat
  | BoundaryMismatch nat nat
  | StillReachable string
  | RefusedExtra string
  | AllRefused nat

datatype boundary_die =
    BoundaryUsage
  | NoCompiler
  | TwoWays "(nat \<times> why) list"
  | BundleUnparsable decl_error
  | NoFns
  | Unreadable string      \<comment> \<open>an \<^verbatim>\<open>OSError\<close> nothing catches\<close>
  | StageFailed "boundary_line list" string   \<comment> \<open>the same after the lines printed so far\<close>

fun boundary_status :: "boundary_die \<Rightarrow> nat" where
  "boundary_status BoundaryUsage = 2"
| "boundary_status NoCompiler = 2"
| "boundary_status (TwoWays hz) = 1"
| "boundary_status (BundleUnparsable e) = 1"
| "boundary_status NoFns = 2"
| "boundary_status (Unreadable p) = 1"
| "boundary_status (StageFailed ls p) = 1"

definition PRIVATE_ERR :: rx where
  "PRIVATE_ERR = Seqs [Chr SQ, Grp 1 rx_IDENT, Lit ([SQ] @ '' is private to its file'')]"


section \<open>The manifest's names and the consumers\<close>

definition manifest_names :: "string \<Rightarrow> string list" where
  "manifest_names text =
     concat (map (\<lambda>raw. let line = strip_ws (hd (split_char HASH raw)) in
       if line \<noteq> [] then [hd (split_char CHR ''/'' (hd (split_ws line)))] else []) (splitlines text))"

definition call :: "string \<Rightarrow> string \<Rightarrow> string" where
  "call name args = ''    '' @ name @ ''('' @ join_with '', '' (replicate (arity args) ''0'') @ '');''"

definition program :: "string list \<Rightarrow> string" where
  "program calls =
     ''include '' @ [DQ] @ ''lib/samvada.cyr'' @ [DQ, LF, LF] @ ''fn main() {'' @ [LF] @ ''    alloc_init();'' @ [LF] @
     join_with [LF] calls @
     [LF] @ ''    return 0;'' @ [LF] @ ''}'' @ [LF, LF] @ ''var r = main();'' @ [LF] @ ''syscall(60, r);'' @ [LF]"

text \<open>The dicts \<open>public\<close> and \<open>internal\<close>: the argument text of each name.\<close>

definition fn_table :: "(fn_decl \<Rightarrow> bool) \<Rightarrow> fn_decl list \<Rightarrow> (string \<times> string) list" where
  "fn_table P ds = fold (\<lambda>d. AList.update (fn_name d) (fn_args d)) (filter P ds) []"

definition consumer :: "(string \<times> string) list \<Rightarrow> string" where
  "consumer fns = program (map (\<lambda>(n, a). call n a) (sort fns))"


section \<open>The work directory\<close>

text \<open>Paths are relative to the work directory. \<open>'b\<close> is the type of file contents.\<close>

datatype 'b work_file = Copied 'b | Program string

type_synonym 'b work = "string \<rightharpoonup> 'b work_file"

fun copy_all :: "(string \<Rightarrow> 'b option) \<Rightarrow> (string \<times> string) list \<Rightarrow> 'b work \<Rightarrow> string + 'b work" where
  "copy_all load [] work = Inr work"
| "copy_all load ((src, dst) # fs) work =
     (case load src of
        None \<Rightarrow> Inl src
      | Some b \<Rightarrow> copy_all load fs (work(dst \<mapsto> Copied b)))"

definition stage :: "(string \<Rightarrow> string list option) \<Rightarrow> (string \<Rightarrow> 'b option) \<Rightarrow> string \<Rightarrow> string + 'b work" where
  "stage listdir load root =
     (let lib = path_join root ''lib'' in
      case listdir lib of
        None \<Rightarrow> Inl lib
      | Some fs \<Rightarrow>
          copy_all load (map (\<lambda>f. (path_join lib f, ''lib/'' @ f)) (filter (\<lambda>f. ends_with f ''.cyr'') fs) @
            [(bundle_path root, ''lib/samvada.cyr'')]) Map.empty)"

definition build :: "('b work \<Rightarrow> string \<Rightarrow> int \<times> string) \<Rightarrow> 'b work \<Rightarrow> string \<Rightarrow> string \<Rightarrow> (int \<times> string) \<times> 'b work" where
  "build cycc work name prog = (let work' = work(name \<mapsto> Program prog) in (cycc work' prog, work'))"


section \<open>The gate\<close>

definition without :: "string list \<Rightarrow> string list \<Rightarrow> string list" where
  "without xs ys = sort (remdups (filter (\<lambda>x. x \<notin> set ys) xs))"

definition check_public :: "int \<times> string \<Rightarrow> (string \<times> string) list \<Rightarrow> boundary_line list \<times> nat" where
  "check_public result public =
     (let (rc, err) = result in
      if rc \<noteq> 0 then ([CannotReach rc (take 20 (splitlines err))], 1) else ([ReachesAll (length public)], 0))"

definition check_internal :: "int \<times> string \<Rightarrow> (string \<times> string) list \<Rightarrow> boundary_line list \<times> nat" where
  "check_internal result internal =
     (let (rc, err) = result;
          refused = findall1 PRIVATE_ERR err;
          names = map fst internal
      in if rc = 0 then ([BoundaryOpen (length internal)], 1)
         else if set refused \<noteq> set names then
           (BoundaryMismatch (length internal) (length (remdups refused)) #
            map StillReachable (without names refused) @ map RefusedExtra (without refused names), 1)
         else ([AllRefused (length internal)], 0))"

definition boundary_main ::
  "(string \<Rightarrow> string option) \<Rightarrow> (string \<Rightarrow> string list option) \<Rightarrow> (string \<Rightarrow> 'b option) \<Rightarrow> bool \<Rightarrow>
     ('b work \<Rightarrow> string \<Rightarrow> int \<times> string) \<Rightarrow> string list \<Rightarrow> boundary_die + (boundary_line list \<times> nat)" where
  "boundary_main read listdir load has_cycc cycc argv =
     (case argv of
        [root, manifest] \<Rightarrow>
          if \<not> has_cycc then Inl NoCompiler
          else
            (case read (bundle_path root) of
               None \<Rightarrow> Inl (Unreadable (bundle_path root))
             | Some bundle \<Rightarrow>
                 if hazards bundle \<noteq> [] then Inl (TwoWays (hazards bundle))
                 else
                   (case fn_decls (strip bundle Cyr False) of
                      Inl e \<Rightarrow> Inl (BundleUnparsable e)
                    | Inr decls \<Rightarrow>
                        let public = fn_table is_public decls;
                            internal = fn_table (\<lambda>d. \<not> is_public d) decls
                        in if public = [] \<or> internal = [] then Inl NoFns
                           else
                             (case read manifest of
                                None \<Rightarrow> Inl (Unreadable manifest)
                              | Some text \<Rightarrow>
                                  let want = manifest_names text;
                                      names = map fst public;
                                      (l0, b0) = (if set names \<noteq> set want
                                                  then ([PublicSetDiffers (without names want) (without want names)], 1 :: nat) else ([], 0))
                                  in (case stage listdir load root of
                                        Inl p \<Rightarrow> Inl (StageFailed l0 p)
                                      | Inr work0 \<Rightarrow>
                                          let (r1, work1) = build cycc work0 ''ok.cyr'' (consumer public);
                                              (l1, b1) = check_public r1 public;
                                              (r2, work2) = build cycc work1 ''bad.cyr'' (consumer internal);
                                              (l2, b2) = check_internal r2 internal
                                          in Inr (l0 @ l1 @ l2, if b0 = 1 \<or> b1 = 1 \<or> b2 = 1 then 1 else (0 :: nat))))))
      | _ \<Rightarrow> Inl BoundaryUsage)"


section \<open>Tables and calls\<close>

lemma fn_table_names: "fst ` set (fn_table P ds) = fn_name ` {d \<in> set ds. P d}"
proof -
  have "fst ` set (fold (\<lambda>d. AList.update (fn_name d) (fn_args d)) xs al) = fst ` set al \<union> fn_name ` set xs"
    for xs :: "fn_decl list" and al
    by (induction xs arbitrary: al) (auto simp: dom_update)
  then show ?thesis by (simp add: fn_table_def)
qed

lemma fn_table_empty: "fn_table P ds = [] \<longleftrightarrow> (\<forall>d \<in> set ds. \<not> P d)"
  using fn_table_names [of P ds] by (metis (mono_tags, lifting) empty_Collect_eq image_is_empty set_empty)

lemma check_public_ok: "snd (check_public r public) \<noteq> 1 \<longleftrightarrow> fst r = 0"
  by (simp add: check_public_def Let_def split: prod.split)

lemma check_internal_ok:
  "snd (check_internal r internal) \<noteq> 1 \<longleftrightarrow> fst r \<noteq> 0 \<and> set (findall1 PRIVATE_ERR (snd r)) = fst ` set internal"
  by (simp add: check_internal_def Let_def split: prod.split)

lemma zeros_flat: "list_all (\<lambda>p. flat 0 p = Some 0) (''0'' # replicate n '' 0'')"
  by (simp add: list_all_iff opens_def closes_def)

lemma join_comma_space: "join_with '', '' (x # ys) = join_with '','' (x # map ((#) SP) ys)"
proof (induction ys arbitrary: x)
  case (Cons y ys)
  have "join_with '','' ((SP # y) # zs) = SP # join_with '','' (y # zs)" for zs by (cases zs) simp_all
  with Cons show ?case by simp
qed simp

lemma join_zeros: "join_with '', '' (replicate (Suc n) ''0'') = join_with '','' (''0'' # replicate n '' 0'')"
  by (simp only: replicate_Suc join_comma_space map_replicate)

lemma arity_zeros: "arity (join_with '', '' (replicate n ''0'')) = n"
proof (cases n)
  case 0
  have "arity [] = 0" by code_simp
  with 0 show ?thesis by simp
next
  case (Suc m)
  have nb: "nonblank ''0'' = 1" "nonblank '' 0'' = 1" by code_simp+
  have "arity (join_with '','' (''0'' # replicate m '' 0'')) = sum_list (map nonblank (''0'' # replicate m '' 0''))"
    unfolding arity_def by (subst arity_loop_join [OF _ zeros_flat]) simp_all
  then show ?thesis by (simp only: Suc join_zeros) (simp add: nb sum_list_replicate)
qed

section \<open>What is staged\<close>

lemma copy_all_cases:
  "copy_all load fs w = Inr w' \<longleftrightarrow> (\<forall>(src, dst) \<in> set fs. load src \<noteq> None) \<and>
     w' = fold (\<lambda>(src, dst) w. w(dst := map_option Copied (load src))) fs w"
  by (induction fs arbitrary: w) (auto split: option.splits)

lemma copied_map:
  "fold (\<lambda>(src, dst) w. w(dst := map_option Copied (load src))) (map (\<lambda>f. (g f, d f)) fs) w p =
     (if \<exists>f \<in> set fs. p = d f then map_option Copied (load (g (last (filter (\<lambda>f. p = d f) fs)))) else w p)"
  by (induction fs rule: rev_induct) auto

lemma stage_contents:
  assumes "stage listdir load root = Inr work"
  obtains fs b where "listdir (path_join root ''lib'') = Some fs" "load (bundle_path root) = Some b"
    "work = (\<lambda>p. if p = ''lib/samvada.cyr'' then Some (Copied b)
       else if \<exists>f \<in> set fs. ends_with f ''.cyr'' \<and> p = ''lib/'' @ f
       then map_option Copied (load (path_join (path_join root ''lib'') (drop 4 p))) else None)"
    "\<And>f. f \<in> set fs \<Longrightarrow> ends_with f ''.cyr'' \<Longrightarrow> load (path_join (path_join root ''lib'') f) \<noteq> None"
proof -
  let ?lib = "path_join root ''lib''"
  from assms obtain fs where fs: "listdir ?lib = Some fs"
    by (auto simp: stage_def Let_def split: option.splits)
  let ?cyr = "filter (\<lambda>f. ends_with f ''.cyr'') fs"
  let ?copies = "map (\<lambda>f. (path_join ?lib f, ''lib/'' @ f)) ?cyr"
  from assms fs have run: "copy_all load (?copies @ [(bundle_path root, ''lib/samvada.cyr'')]) Map.empty = Inr work"
    by (simp add: stage_def)
  then obtain b where b: "load (bundle_path root) = Some b" by (auto simp: copy_all_cases)
  have last_f: "last (filter (\<lambda>f. p = ''lib/'' @ f) ?cyr) = drop 4 p" if "\<exists>f \<in> set ?cyr. p = ''lib/'' @ f" for p
  proof -
    from that have "filter (\<lambda>f. p = ''lib/'' @ f) ?cyr \<noteq> []" by (auto simp: filter_empty_conv)
    then have "last (filter (\<lambda>f. p = ''lib/'' @ f) ?cyr) \<in> set (filter (\<lambda>f. p = ''lib/'' @ f) ?cyr)" by (rule last_in_set)
    then have "p = ''lib/'' @ last (filter (\<lambda>f. p = ''lib/'' @ f) ?cyr)" by simp
    then have "drop 4 p = drop 4 (''lib/'' @ last (filter (\<lambda>f. p = ''lib/'' @ f) ?cyr))" by (rule arg_cong)
    then show ?thesis by simp
  qed
  have "work p = (if p = ''lib/samvada.cyr'' then Some (Copied b)
       else if \<exists>f \<in> set fs. ends_with f ''.cyr'' \<and> p = ''lib/'' @ f
       then map_option Copied (load (path_join ?lib (drop 4 p))) else None)" for p
    using run last_f [of p] by (auto simp: copy_all_cases copied_map b)
  then have "work = (\<lambda>p. if p = ''lib/samvada.cyr'' then Some (Copied b)
       else if \<exists>f \<in> set fs. ends_with f ''.cyr'' \<and> p = ''lib/'' @ f
       then map_option Copied (load (path_join ?lib (drop 4 p))) else None)" by (rule ext)
  moreover have "load (path_join ?lib f) \<noteq> None" if "f \<in> set fs" "ends_with f ''.cyr''" for f
    using run that by (auto simp: copy_all_cases)
  ultimately show ?thesis by (rule that [OF fs b])
qed

text \<open>The directories the two consumers are compiled in.\<close>

definition ok_dir :: "'b work \<Rightarrow> fn_decl list \<Rightarrow> 'b work" where
  "ok_dir work ds = work(''ok.cyr'' \<mapsto> Program (consumer (fn_table is_public ds)))"

definition bad_dir :: "'b work \<Rightarrow> fn_decl list \<Rightarrow> 'b work" where
  "bad_dir work ds = (ok_dir work ds)(''bad.cyr'' \<mapsto> Program (consumer (fn_table (\<lambda>d. \<not> is_public d) ds)))"


lemma staged_bundle: "stage listdir load root = Inr work \<Longrightarrow> work ''lib/samvada.cyr'' = map_option Copied (load (bundle_path root))"
  by (erule stage_contents) simp


section \<open>What a run means\<close>

lemma boundary_main_pass:
  "(\<exists>out. boundary_main read listdir load has_cycc cycc [root, mp] = Inr (out, 0)) \<longleftrightarrow>
     has_cycc \<and> (\<exists>src ds text work rc err. read (bundle_path root) = Some src \<and> hazards src = [] \<and>
       fn_decls (strip src Cyr False) = Inr ds \<and> (\<exists>d \<in> set ds. is_public d) \<and> (\<exists>d \<in> set ds. \<not> is_public d) \<and>
       read mp = Some text \<and> set (manifest_names text) = fn_name ` {d \<in> set ds. is_public d} \<and>
       stage listdir load root = Inr work \<and>
       fst (cycc (ok_dir work ds) (consumer (fn_table is_public ds))) = 0 \<and>
       cycc (bad_dir work ds) (consumer (fn_table (\<lambda>d. \<not> is_public d) ds)) = (rc, err) \<and> rc \<noteq> 0 \<and>
       set (findall1 PRIVATE_ERR err) = fn_name ` {d \<in> set ds. \<not> is_public d})"
proof (cases "has_cycc \<and> (\<exists>src. read (bundle_path root) = Some src \<and> hazards src = [] \<and> (\<exists>ds. fn_decls (strip src Cyr False) = Inr ds))")
  case False
  have "\<nexists>out. boundary_main read listdir load has_cycc cycc [root, mp] = Inr (out, 0)"
  proof (cases "read (bundle_path root)")
    case None
    then show ?thesis by (simp add: boundary_main_def)
  next
    case (Some src)
    with False show ?thesis
      by (cases "fn_decls (strip src Cyr False)") (simp_all add: boundary_main_def)
  qed
  with False show ?thesis by blast
next
  case True
  then obtain src ds where src: "has_cycc" "read (bundle_path root) = Some src" "hazards src = []"
    "fn_decls (strip src Cyr False) = Inr ds" by blast
  let ?pub = "fn_table is_public ds" and ?int = "fn_table (\<lambda>d. \<not> is_public d) ds"
  have run: "(\<exists>out. boundary_main read listdir load has_cycc cycc [root, mp] = Inr (out, 0)) \<longleftrightarrow>
      ?pub \<noteq> [] \<and> ?int \<noteq> [] \<and> (\<exists>text work. read mp = Some text \<and> fst ` set ?pub = set (manifest_names text) \<and>
        stage listdir load root = Inr work \<and> snd (check_public (cycc (ok_dir work ds) (consumer ?pub)) ?pub) \<noteq> 1 \<and>
        snd (check_internal (cycc (bad_dir work ds) (consumer ?int)) ?int) \<noteq> 1)"
    by (cases "read mp"; cases "stage listdir load root")
      (simp_all add: boundary_main_def src Let_def build_def ok_dir_def bad_dir_def split: prod.split)
  have eq: "fn_name ` {d \<in> set ds. is_public d} = set (manifest_names tx) \<longleftrightarrow>
      set (manifest_names tx) = fn_name ` {d \<in> set ds. is_public d}" for tx by (rule eq_commute)
  show ?thesis
    unfolding run check_public_ok check_internal_ok fn_table_names fn_table_empty
    by (simp add: src eq Bex_def prod_eq_iff)
qed

text \<open>A compiler that tells the truth about the calls it is given: it accepts them exactly when all can be
  reached, and names exactly those that cannot.\<close>

definition honest :: "(string \<Rightarrow> bool) \<Rightarrow> (string \<times> string) list \<Rightarrow> int \<times> string \<Rightarrow> bool" where
  "honest reach fns result \<longleftrightarrow>
     (fst result = 0 \<longleftrightarrow> (\<forall>(n, a) \<in> set fns. reach n)) \<and>
     set (findall1 PRIVATE_ERR (snd result)) = {n \<in> fst ` set fns. \<not> reach n}"

lemma manifest_loop_names:
  "manifest_loop n want rows = Inr want' \<Longrightarrow>
     key_name ` fst ` set want' = key_name ` fst ` set want \<union> set (concat (map (\<lambda>raw. let line = strip_ws (hd (split_char HASH raw)) in
       if line \<noteq> [] then [hd (split_char CHR ''/'' (hd (split_ws line)))] else []) rows))"
proof (induction rows arbitrary: n want)
  case (Cons raw rows)
  then obtain r where r: "manifest_row n raw = Inr r"
    and rest: "manifest_loop (Suc n) (case r of None \<Rightarrow> want | Some (k, v) \<Rightarrow> AList.update k v want) rows = Inr want'"
    by (auto simp: res_simps)
  show ?case
  proof (cases r)
    case None
    with r have "strip_ws (hd (split_char HASH raw)) = []" by (auto simp: manifest_row_def Let_def split: if_splits)
    with Cons.IH [OF rest] None show ?thesis by simp
  next
    case (Some kv)
    obtain k v where kv: "kv = (k, v)" by fastforce
    from r Some kv have "strip_ws (hd (split_char HASH raw)) \<noteq> []" "k = hd (split_ws (strip_ws (hd (split_char HASH raw))))"
      by (auto simp: manifest_row_def Let_def split: if_splits)
    with Cons.IH [OF rest] Some kv show ?thesis by (simp add: dom_update key_name_def)
  qed
qed simp


lemma boundary_reach:
  assumes "boundary_main read listdir load has_cycc cycc [root, mp] = Inr (out, 0)"
    "read (bundle_path root) = Some src" "fn_decls (strip src Cyr False) = Inr ds" "stage listdir load root = Inr work"
    "honest reach (fn_table is_public ds) (cycc (ok_dir work ds) (consumer (fn_table is_public ds)))"
    "honest reach (fn_table (\<lambda>d. \<not> is_public d) ds) (cycc (bad_dir work ds) (consumer (fn_table (\<lambda>d. \<not> is_public d) ds)))"
    "d \<in> set ds"
  shows "(reach (fn_name d) \<longleftrightarrow> is_public d) \<and>
    ok_dir work ds ''lib/samvada.cyr'' = map_option Copied (load (bundle_path root)) \<and>
    bad_dir work ds ''lib/samvada.cyr'' = map_option Copied (load (bundle_path root))"
proof -
  from assms(1) have "\<exists>out. boundary_main read listdir load has_cycc cycc [root, mp] = Inr (out, 0)" by blast
  from this [unfolded boundary_main_pass] assms(2-4) obtain rc err where
    ok: "fst (cycc (ok_dir work ds) (consumer (fn_table is_public ds))) = 0"
    and bad: "cycc (bad_dir work ds) (consumer (fn_table (\<lambda>d. \<not> is_public d) ds)) = (rc, err)"
      "set (findall1 PRIVATE_ERR err) = fn_name ` {d \<in> set ds. \<not> is_public d}" by auto
  have "reach (fn_name d) \<longleftrightarrow> is_public d"
  proof (cases "is_public d")
    case True
    then have "fn_name d \<in> fst ` set (fn_table is_public ds)" using assms(7) by (simp add: fn_table_names)
    with ok assms(5) True show ?thesis by (auto simp: honest_def)
  next
    case False
    then have "fn_name d \<in> fn_name ` {d \<in> set ds. \<not> is_public d}" using assms(7) by blast
    with bad assms(6) False show ?thesis by (auto simp: honest_def)
  qed
  with staged_bundle [OF assms(4)] show ?thesis by (simp add: ok_dir_def bad_dir_def)
qed


section \<open>Properties\<close>

text \<open>C7: the boundary gate passes exactly when the compiler is there, the bundle reads one way and parses
  with public and internal functions, the names of the public ones are the manifest's, the consumer of all of
  them compiles beside the staged files, and the consumer of all others is refused with exactly their names.\<close>

theorem boundary_pass_iff:
  "(\<exists>out. boundary_main read listdir load has_cycc cycc [root, mp] = Inr (out, 0)) \<longleftrightarrow>
     has_cycc \<and> (\<exists>src ds text work rc err. read (bundle_path root) = Some src \<and> hazards src = [] \<and>
       fn_decls (strip src Cyr False) = Inr ds \<and> (\<exists>d \<in> set ds. is_public d) \<and> (\<exists>d \<in> set ds. \<not> is_public d) \<and>
       read mp = Some text \<and> set (manifest_names text) = fn_name ` {d \<in> set ds. is_public d} \<and>
       stage listdir load root = Inr work \<and>
       fst (cycc (ok_dir work ds) (consumer (fn_table is_public ds))) = 0 \<and>
       cycc (bad_dir work ds) (consumer (fn_table (\<lambda>d. \<not> is_public d) ds)) = (rc, err) \<and> rc \<noteq> 0 \<and>
       set (findall1 PRIVATE_ERR err) = fn_name ` {d \<in> set ds. \<not> is_public d})"
  by (rule boundary_main_pass)

text \<open>C8: with a compiler that tells the truth about both consumers, a pass means that a consumer reaches a
  function declared in the bundle exactly when its declaration is marked public; and both were compiled
  against the very bundle file, whatever the project's \<^verbatim>\<open>lib\<close> holds under its name.\<close>

theorem boundary_sound:
  assumes "boundary_main read listdir load has_cycc cycc [root, mp] = Inr (out, 0)"
    "read (bundle_path root) = Some src" "fn_decls (strip src Cyr False) = Inr ds" "stage listdir load root = Inr work"
    "honest reach (fn_table is_public ds) (cycc (ok_dir work ds) (consumer (fn_table is_public ds)))"
    "honest reach (fn_table (\<lambda>d. \<not> is_public d) ds) (cycc (bad_dir work ds) (consumer (fn_table (\<lambda>d. \<not> is_public d) ds)))"
    "d \<in> set ds"
  shows "(reach (fn_name d) \<longleftrightarrow> is_public d) \<and>
    ok_dir work ds ''lib/samvada.cyr'' = map_option Copied (load (bundle_path root)) \<and>
    bad_dir work ds ''lib/samvada.cyr'' = map_option Copied (load (bundle_path root))"
  by (rule boundary_reach [OF assms])

text \<open>A consumer's call passes as many arguments as its declaration has parameters.\<close>

theorem call_passes_arity:
  "\<exists>zeros. call name args = ''    '' @ name @ ''('' @ zeros @ '');'' \<and> arity zeros = arity args"
  by (auto simp: call_def arity_zeros)

text \<open>Both gates read the same manifest: when the surface gate accepts its text, the names the boundary
  gate takes from it are those of the accepted rows.\<close>

theorem manifest_names_agree:
  "read mp = Some text \<Longrightarrow> parse_manifest read mp = Inr want \<Longrightarrow> set (manifest_names text) = key_name ` fst ` set want"
  using manifest_loop_names [of 1 "[]" "splitlines text" want]
  by (auto simp: parse_manifest_def manifest_names_def res_simps split: if_splits)

section \<open>The properties at a concrete tree\<close>

text \<open>The tree of \<open>SurfaceCheck\<close> with a library that has a stale bundle and a file of another kind, and a
  compiler that refuses every call of \<open>g\<close>.\<close>

definition sample_listdir :: "string \<Rightarrow> string list option" where
  "sample_listdir p = (if p = ''r/lib'' then Some [''samvada.cyr'', ''readme.md''] else None)"

definition sample_load :: "string \<Rightarrow> string option" where
  "sample_load p = (if p = ''r/lib/samvada.cyr'' then Some ''fn old() { }'' else sample_read p)"

definition sample_cycc :: "string work \<Rightarrow> string \<Rightarrow> int \<times> string" where
  "sample_cycc dir prog =
     (if dir ''lib/samvada.cyr'' = None then (1, ''error: lib/samvada.cyr'')
      else if find_at prog ''g('' 0 = None then (0, [])
      else (1, ''error: '' @ [SQ] @ ''g'' @ [SQ] @ '' is private to its file'' @ [LF]))"

abbreviation sample_ds :: "fn_decl list" where
  "sample_ds \<equiv> [\<lparr>is_public = True, fn_name = ''f'', fn_args = ''a''\<rparr>, \<lparr>is_public = False, fn_name = ''g'', fn_args = []\<rparr>]"

abbreviation sample_work :: "string work" where
  "sample_work \<equiv> [''lib/samvada.cyr'' \<mapsto> Copied sample_bundle]"

lemma sample_builds:
  "find_at (consumer [(''f'', ''a'')]) ''g('' 0 = None" "find_at (consumer [(''g'', [])]) ''g('' 0 \<noteq> None"
  "findall1 PRIVATE_ERR (''error: '' @ [SQ] @ ''g'' @ [SQ] @ '' is private to its file'' @ [LF]) = [''g'']"
  "hazards sample_bundle = []" "manifest_names (''f/1 clean'' @ [LF]) = [''f'']"
  "fn_table is_public sample_ds = [(''f'', ''a'')]" "fn_table (\<lambda>d. \<not> is_public d) sample_ds = [(''g'', [])]" "findall1 PRIVATE_ERR [] = []"
  by code_simp+

lemma sample_stage: "stage sample_listdir sample_load ''r'' = Inr sample_work"
proof -
  have "path_join ''r'' ''lib'' = ''r/lib''" "path_join ''r/lib'' ''samvada.cyr'' = ''r/lib/samvada.cyr''"
    "ends_with ''samvada.cyr'' ''.cyr''" "\<not> ends_with ''readme.md'' ''.cyr''" "bundle_path ''r'' = ''r/dist/samvada.cyr''"
    "sample_load ''r/dist/samvada.cyr'' = Some sample_bundle" "sample_load ''r/lib/samvada.cyr'' = Some ''fn old() { }''"
    by code_simp+
  then show ?thesis by (simp add: stage_def sample_listdir_def Let_def)
qed

lemma sample_compiles:
  "sample_cycc (ok_dir sample_work sample_ds) (consumer [(''f'', ''a'')]) = (0, [])"
  "sample_cycc (bad_dir sample_work sample_ds) (consumer [(''g'', [])]) =
     (1, ''error: '' @ [SQ] @ ''g'' @ [SQ] @ '' is private to its file'' @ [LF])"
  using sample_builds(1,2) by (simp_all add: sample_cycc_def ok_dir_def bad_dir_def)

lemma sample_boundary: "\<exists>out. boundary_main sample_read sample_listdir sample_load True sample_cycc [''r'', ''m''] = Inr (out, 0)"
proof -
  have m: "sample_read ''m'' = Some (''f/1 clean'' @ [LF])" by code_simp
  have pub: "fn_name ` {d \<in> set sample_ds. is_public d} = {''f''}" "fn_name ` {d \<in> set sample_ds. \<not> is_public d} = {''g''}"
    unfolding set_filter [symmetric] by simp_all
  show ?thesis
    unfolding boundary_main_pass
  proof (intro conjI exI)
    show "sample_read (bundle_path ''r'') = Some sample_bundle" by (simp only: sample_reads)
    show "fn_decls (strip sample_bundle Cyr False) = Inr sample_ds" by (rule sample_decls)
    show "sample_read ''m'' = Some (''f/1 clean'' @ [LF])" by (rule m)
    show "set (manifest_names (''f/1 clean'' @ [LF])) = fn_name ` {d \<in> set sample_ds. is_public d}"
      unfolding pub sample_builds(5) by simp
    show "stage sample_listdir sample_load ''r'' = Inr sample_work" by (rule sample_stage)
    show "fst (sample_cycc (ok_dir sample_work sample_ds) (consumer (fn_table is_public sample_ds))) = 0"
      unfolding sample_builds(6) sample_compiles(1) by simp
    show "sample_cycc (bad_dir sample_work sample_ds) (consumer (fn_table (\<lambda>d. \<not> is_public d) sample_ds)) =
        (1, ''error: '' @ [SQ] @ ''g'' @ [SQ] @ '' is private to its file'' @ [LF])"
      unfolding sample_builds(7) by (rule sample_compiles(2))
    show "set (findall1 PRIVATE_ERR (''error: '' @ [SQ] @ ''g'' @ [SQ] @ '' is private to its file'' @ [LF])) =
        fn_name ` {d \<in> set sample_ds. \<not> is_public d}"
      unfolding pub sample_builds(3) by simp
  qed (simp_all only: sample_builds(4), simp_all)
qed

lemma sample_honest:
  "honest (\<lambda>n. n = ''f'') (fn_table is_public sample_ds) (sample_cycc (ok_dir sample_work sample_ds) (consumer (fn_table is_public sample_ds)))"
  "honest (\<lambda>n. n = ''f'') (fn_table (\<lambda>d. \<not> is_public d) sample_ds)
       (sample_cycc (bad_dir sample_work sample_ds) (consumer (fn_table (\<lambda>d. \<not> is_public d) sample_ds)))"
  unfolding sample_builds(6,7) sample_compiles honest_def snd_conv sample_builds(3)
  using sample_builds(8) by auto

lemma boundary_sound_witness:
  "\<not> (\<lambda>n. n = ''f'') ''g'' \<and> ok_dir sample_work sample_ds ''lib/samvada.cyr'' = Some (Copied sample_bundle)"
proof -
  obtain out where run: "boundary_main sample_read sample_listdir sample_load True sample_cycc [''r'', ''m''] = Inr (out, 0)"
    using sample_boundary by blast
  have src: "sample_read (bundle_path ''r'') = Some sample_bundle" "sample_load (bundle_path ''r'') = Some sample_bundle"
    by (simp only: sample_reads) code_simp
  from boundary_sound [OF run src(1) sample_decls(3) sample_stage sample_honest, of "\<lparr>is_public = False, fn_name = ''g'', fn_args = []\<rparr>"] src(2)
  show ?thesis by (simp only: option.map fn_decl.simps list.set insert_iff simp_thms)
qed

lemma manifest_names_agree_witness: "set (manifest_names (''f/1 clean'' @ [LF])) = {''f''}"
proof -
  have "sample_read ''m'' = Some (''f/1 clean'' @ [LF])" "key_name ''f/1'' = ''f''" by code_simp+
  with manifest_names_agree [OF this(1) sample_exports(2)] show ?thesis by simp
qed

end
