(* ===== verification/DbusDecode.thy ===== *)
theory DbusDecode
  imports "HOL-Library.Word" "HOL-Library.AList" PyStr
begin

text \<open>
  \<^verbatim>\<open>tools/dbus_decode.py\<close>: the decoder of captured D-Bus messages. A buffer is a list
  of bytes, an offset a natural number; an exception of Python is the left of a sum. Text
  decoded from UTF-8 is a list of code points.
\<close>

type_synonym byte = "8 word"

datatype py_error =
    IndexError          \<comment> \<open>\<^verbatim>\<open>self.b[self.o]\<close> past the end\<close>
  | StructError         \<comment> \<open>\<^verbatim>\<open>struct.unpack_from\<close> with fewer than four bytes\<close>
  | UnicodeError        \<comment> \<open>a signature that is not UTF-8\<close>


section \<open>UTF-8, as \<^verbatim>\<open>bytes.decode\<close> reads it\<close>

definition cont_byte :: "nat \<Rightarrow> nat \<Rightarrow> nat list \<Rightarrow> nat \<Rightarrow> bool" where
  "cont_byte lo hi bs i \<longleftrightarrow> i < length bs \<and> lo \<le> bs ! i \<and> bs ! i \<le> hi"

text \<open>
  The next code point of a non-empty list of bytes and how many bytes it takes; or
  \<^const>\<open>None\<close> and the length of the ill-formed piece that one replacement character stands for.
\<close>

definition utf8_next :: "nat list \<Rightarrow> nat option \<times> nat" where
  "utf8_next bs =
     (let b = bs ! 0;
          rest2 = (\<lambda>lo hi. if \<not> cont_byte lo hi bs 1 then (None, 1)
                    else (Some (b mod 32 * 64 + bs ! 1 mod 64), 2));
          rest3 = (\<lambda>lo hi. if \<not> cont_byte lo hi bs 1 then (None, 1)
                    else if \<not> cont_byte 128 191 bs 2 then (None, 2)
                    else (Some (b mod 16 * 4096 + bs ! 1 mod 64 * 64 + bs ! 2 mod 64), 3));
          rest4 = (\<lambda>lo hi. if \<not> cont_byte lo hi bs 1 then (None, 1)
                    else if \<not> cont_byte 128 191 bs 2 then (None, 2)
                    else if \<not> cont_byte 128 191 bs 3 then (None, 3)
                    else (Some (b mod 8 * 262144 + bs ! 1 mod 64 * 4096 + bs ! 2 mod 64 * 64 + bs ! 3 mod 64), 4))
      in if b < 128 then (Some b, 1)
         else if b < 194 then (None, 1)
         else if b < 224 then rest2 128 191
         else if b = 224 then rest3 160 191
         else if b = 237 then rest3 128 159
         else if b < 240 then rest3 128 191
         else if b = 240 then rest4 144 191
         else if b < 244 then rest4 128 191
         else if b = 244 then rest4 128 143
         else (None, 1))"

lemma utf8_next_pos [bounds]: "0 < snd (utf8_next bs)"
  by (simp add: utf8_next_def Let_def)

text \<open>The pieces of a list of bytes, each a code point or ill-formed.\<close>

function utf8_pieces :: "nat list \<Rightarrow> nat option list" where
  "utf8_pieces bs = (if bs = [] then [] else fst (utf8_next bs) # utf8_pieces (drop (snd (utf8_next bs)) bs))"
  by pat_completeness auto
termination
  by (relation "measure length") (simp_all add: utf8_next_pos)

declare utf8_pieces.simps [simp del]

lemma utf8_pieces_Nil [simp]: "utf8_pieces [] = []"
  by (simp add: utf8_pieces.simps)

text \<open>\<^verbatim>\<open>decode("utf-8", "replace")\<close> and \<^verbatim>\<open>decode()\<close>.\<close>

definition decode_replace :: "byte list \<Rightarrow> codepoints" where
  "decode_replace bs = map (\<lambda>p. case p of Some c \<Rightarrow> c | None \<Rightarrow> 0xFFFD) (utf8_pieces (map unat bs))"

definition decode_strict :: "byte list \<Rightarrow> py_error + codepoints" where
  "decode_strict bs =
     (let ps = utf8_pieces (map unat bs)
      in if None \<in> set ps then Inl UnicodeError else Inr (map the ps))"


section \<open>Tables\<close>

definition MSG_TYPE :: "(nat \<times> string) list" where
  "MSG_TYPE = [(1, ''METHOD_CALL''), (2, ''METHOD_RETURN''), (3, ''ERROR''), (4, ''SIGNAL'')]"

definition FIELD :: "(nat \<times> string) list" where
  "FIELD = [(1, ''PATH''), (2, ''INTERFACE''), (3, ''MEMBER''), (4, ''ERROR_NAME''), (5, ''REPLY_SERIAL''),
     (6, ''DESTINATION''), (7, ''SENDER''), (8, ''SIGNATURE''), (9, ''UNIX_FDS'')]"

definition FLAGS :: "(byte \<times> string) list" where
  "FLAGS = [(0x01, ''NO_REPLY_EXPECTED''), (0x02, ''NO_AUTO_START''), (0x04, ''ALLOW_INTERACTIVE_AUTHORIZATION'')]"

text \<open>\<^verbatim>\<open>TABLE.get(n, n)\<close>: the name, or the number itself.\<close>

definition named :: "(nat \<times> string) list \<Rightarrow> nat \<Rightarrow> string + nat" where
  "named table n = (case map_of table n of Some w \<Rightarrow> Inl w | None \<Rightarrow> Inr n)"


section \<open>The reader\<close>

definition align :: "nat \<Rightarrow> nat \<Rightarrow> nat" where
  "align n a = nat (int n + (- int n) mod int a)"

record reader =
  r_buf :: "byte list"
  r_off :: nat
  r_le :: bool
  r_base :: nat

definition new_reader :: "byte list \<Rightarrow> nat \<Rightarrow> bool \<Rightarrow> reader" where
  "new_reader buf off le = \<lparr>r_buf = buf, r_off = off, r_le = le, r_base = off\<rparr>"

definition goto_aligned :: "nat \<Rightarrow> reader \<Rightarrow> reader" where
  "goto_aligned a r = r\<lparr>r_off := r_base r + align (r_off r - r_base r) a\<rparr>"

definition u8 :: "reader \<Rightarrow> py_error + byte \<times> reader" where
  "u8 r = (if r_off r < length (r_buf r) then Inr (r_buf r ! r_off r, r\<lparr>r_off := r_off r + 1\<rparr>) else Inl IndexError)"

text \<open>\<^verbatim>\<open>struct.unpack_from("<I", b, o)\<close> and its big-endian form.\<close>

definition word_of_bytes :: "bool \<Rightarrow> byte list \<Rightarrow> nat" where
  "word_of_bytes le bs = foldr (\<lambda>b n. unat b + 256 * n) (if le then bs else rev bs) 0"

definition u32 :: "reader \<Rightarrow> py_error + nat \<times> reader" where
  "u32 r =
     (let r = goto_aligned 4 r
      in if r_off r + 4 \<le> length (r_buf r)
         then Inr (word_of_bytes (r_le r) (slice (r_buf r) (r_off r) (r_off r + 4)), r\<lparr>r_off := r_off r + 4\<rparr>)
         else Inl StructError)"

definition read_string :: "reader \<Rightarrow> py_error + codepoints \<times> reader" where
  "read_string r =
     bindE (u32 r) (\<lambda>(n, r).
       Inr (decode_replace (slice (r_buf r) (r_off r) (r_off r + n)), r\<lparr>r_off := r_off r + n + 1\<rparr>))"

definition read_signature :: "reader \<Rightarrow> py_error + codepoints \<times> reader" where
  "read_signature r =
     bindE (u8 r) (\<lambda>(n, r).
       bindE (decode_strict (slice (r_buf r) (r_off r) (r_off r + unat n))) (\<lambda>s.
         Inr (s, r\<lparr>r_off := r_off r + unat n + 1\<rparr>)))"


section \<open>One message\<close>

datatype field_value = UInt nat | Text codepoints | Sig codepoints | Unhandled codepoints

definition read_value :: "codepoints \<Rightarrow> reader \<Rightarrow> py_error + field_value \<times> reader" where
  "read_value s r =
     (if s = ascii ''u'' then bindE (u32 r) (\<lambda>(v, r). Inr (UInt v, r))
      else if s = ascii ''s'' \<or> s = ascii ''o'' then bindE (read_string r) (\<lambda>(v, r). Inr (Text v, r))
      else if s = ascii ''g'' then bindE (read_signature r) (\<lambda>(v, r). Inr (Sig v, r))
      else Inr (Unhandled s, r))"

text \<open>The body of the loop over the header fields, after its alignment.\<close>

definition read_field :: "reader \<Rightarrow> py_error + (nat \<times> field_value) \<times> reader" where
  "read_field r =
     bindE (u8 r) (\<lambda>(code, r).
       bindE (read_signature r) (\<lambda>(s, r).
         bindE (read_value s r) (\<lambda>(v, r). Inr ((unat code, v), r))))"

lemma u8_off: "u8 r = Inr (v, r') \<Longrightarrow> r_off r' = r_off r + 1 \<and> r_buf r' = r_buf r \<and> r_base r' = r_base r \<and> r_le r' = r_le r"
  by (auto simp: u8_def split: if_splits)

lemma align_ge [bounds]: "0 < a \<Longrightarrow> n \<le> align n a"
proof -
  assume "0 < a"
  then have "0 \<le> (- int n) mod int a" by simp
  then show "n \<le> align n a" unfolding align_def by linarith
qed

lemma goto_aligned_off: "0 < a \<Longrightarrow> r_off r \<le> r_off (goto_aligned a r)" "0 < a \<Longrightarrow> r_base r \<le> r_off (goto_aligned a r)"
  using align_ge [of a "r_off r - r_base r"] by (simp_all add: goto_aligned_def)

lemma goto_aligned_simps [simp]:
  "r_buf (goto_aligned a r) = r_buf r" "r_base (goto_aligned a r) = r_base r" "r_le (goto_aligned a r) = r_le r"
  by (simp_all add: goto_aligned_def)

text \<open>What every read keeps: the buffer, the base and the byte order; and it moves forward.\<close>

definition reads_on :: "reader \<Rightarrow> reader \<Rightarrow> bool" where
  "reads_on r r' \<longleftrightarrow> r_buf r' = r_buf r \<and> r_base r' = r_base r \<and> r_le r' = r_le r \<and>
     r_off r \<le> r_off r'"

lemma reads_on_trans: "reads_on a b \<Longrightarrow> reads_on b c \<Longrightarrow> reads_on a c"
  by (auto simp: reads_on_def)

lemma u32_reads_on: "u32 r = Inr (v, r') \<Longrightarrow> reads_on r r'"
  using goto_aligned_off [of 4 r] by (auto simp: u32_def reads_on_def Let_def split: if_splits)

lemma read_string_reads_on: "read_string r = Inr (v, r') \<Longrightarrow> reads_on r r'"
  by (auto simp: read_string_def res_simps dest!: u32_reads_on) (auto simp: reads_on_def)

lemma read_signature_reads_on: "read_signature r = Inr (v, r') \<Longrightarrow> reads_on r r'"
  by (auto simp: read_signature_def res_simps reads_on_def dest!: u8_off)

lemma read_value_reads_on: "read_value s r = Inr (v, r') \<Longrightarrow> reads_on r r'"
  by (auto simp: read_value_def res_simps split: if_splits
      dest: u32_reads_on read_string_reads_on read_signature_reads_on) (simp add: reads_on_def)

lemma read_field_forward:
  assumes "read_field r = Inr (f, r')"
  shows "reads_on r r' \<and> r_off r < r_off r'"
proof -
  from assms obtain c r1 s r2 v where 1: "u8 r = Inr (c, r1)" and 2: "read_signature r1 = Inr (s, r2)"
    and 3: "read_value s r2 = Inr (v, r')"
    by (auto simp: read_field_def res_simps)
  from u8_off [OF 1] read_signature_reads_on [OF 2] read_value_reads_on [OF 3] show ?thesis
    by (auto simp: reads_on_def)
qed

text \<open>The loop \<^verbatim>\<open>while r.o < fend\<close>: the fields in order, and the reader it leaves.\<close>

function read_fields :: "nat \<Rightarrow> reader \<Rightarrow> py_error + (nat \<times> field_value) list" where
  "read_fields fend r =
     (if r_off r < fend then
        let r = goto_aligned 8 r in
        if fend \<le> r_off r then Inr []
        else
          case read_field r of
            Inl e \<Rightarrow> Inl e
          | Inr (f, r') \<Rightarrow> bindE (read_fields fend r') (\<lambda>fs. Inr (f # fs))
      else Inr [])"
  by pat_completeness auto
termination
proof (relation "measure (\<lambda>(fend, r). fend - r_off r)", goal_cases)
  case (2 fend r r' x f r'')
  with goto_aligned_off [of 8 r] read_field_forward [of r' f r''] show ?case by auto
qed simp

declare read_fields.simps [simp del]

record message =
  m_endian :: byte
  m_type :: "string + nat"
  m_flags :: byte
  m_flag_names :: "string list"
  m_proto :: byte
  m_serial :: nat
  m_body_len :: nat
  m_fields_len :: nat
  m_field_order :: "nat list"
  m_fields :: "((string + nat) \<times> field_value) list"
  m_body :: "byte list"
  m_total :: nat

text \<open>What \<open>decode_one\<close> returns: a message, or how much of one is there and how much it needs, with
  its type and serial when the fixed header was complete.\<close>

datatype info = Partial int nat "((string + nat) \<times> nat) option" | Message message

definition fields_dict :: "(nat \<times> field_value) list \<Rightarrow> ((string + nat) \<times> field_value) list" where
  "fields_dict fs = fold (\<lambda>(code, v). AList.update (named FIELD code) v) fs []"

definition flag_names :: "byte \<Rightarrow> string list" where
  "flag_names flags = map snd (filter (\<lambda>(b, w). and flags b \<noteq> 0) FLAGS)"

definition decode_one :: "byte list \<Rightarrow> nat \<Rightarrow> py_error + info \<times> nat" where
  "decode_one buf off =
     (if int (length buf) - int off < 16 then Inr (Partial (int (length buf) - int off) 16 None, length buf)
      else
        let endian = buf ! off;
            le = (endian = 0x6C)
        in
        bindE (u8 (new_reader buf off le)) (\<lambda>(_, r).
        bindE (u8 r) (\<lambda>(mtype, r).
        bindE (u8 r) (\<lambda>(flags, r).
        bindE (u8 r) (\<lambda>(proto, r).
        bindE (u32 r) (\<lambda>(body_len, r).
        bindE (u32 r) (\<lambda>(serial, r).
        bindE (u32 r) (\<lambda>(fields_len, r).
          let total_needed = align (16 + fields_len) 8 + body_len in
          if int (length buf) - int off < int total_needed then
            Inr (Partial (int (length buf) - int off) total_needed (Some (named MSG_TYPE (unat mtype), serial)), length buf)
          else
            let fend = r_off r + fields_len in
            bindE (read_fields fend r) (\<lambda>fs.
              let body_off = off + align (fend - off) 8 in
              Inr (Message \<lparr>m_endian = endian, m_type = named MSG_TYPE (unat mtype), m_flags = flags,
                     m_flag_names = flag_names flags, m_proto = proto, m_serial = serial, m_body_len = body_len,
                     m_fields_len = fields_len, m_field_order = map fst fs, m_fields = fields_dict fs,
                     m_body = slice buf body_off (body_off + body_len), m_total = body_off + body_len - off\<rparr>,
                   body_off + body_len))))))))))"

text \<open>The fixed header, read off its offsets.\<close>

definition header_u32 :: "byte list \<Rightarrow> nat \<Rightarrow> nat \<Rightarrow> nat" where
  "header_u32 buf off i = word_of_bytes (buf ! off = 0x6C) (slice buf (off + i) (off + i + 4))"

text \<open>The reader \<open>k\<close> bytes into the message at \<open>off\<close>.\<close>

definition at_off :: "byte list \<Rightarrow> bool \<Rightarrow> nat \<Rightarrow> nat \<Rightarrow> reader" where
  "at_off buf le off k = \<lparr>r_buf = buf, r_off = off + k, r_le = le, r_base = off\<rparr>"

lemma at_off_simps [simp]:
  "r_off (at_off buf le off k) = off + k" "r_buf (at_off buf le off k) = buf"
  "r_le (at_off buf le off k) = le" "r_base (at_off buf le off k) = off"
  "new_reader buf off le = at_off buf le off 0" "(at_off buf le off k)\<lparr>r_off := off + k + j\<rparr> = at_off buf le off (k + j)"
  by (simp_all add: at_off_def new_reader_def)

lemma align_multiple: "a dvd n \<Longrightarrow> align n a = n"
proof -
  assume "a dvd n"
  then have "(- int n) mod int a = 0" by (simp add: mod_eq_0_iff_dvd)
  then show "align n a = n" by (simp add: align_def)
qed

lemma u8_at: "off + k < length buf \<Longrightarrow> u8 (at_off buf le off k) = Inr (buf ! (off + k), at_off buf le off (k + 1))"
  by (simp add: u8_def at_off_def)

lemma u32_at:
  "4 dvd k \<Longrightarrow> off + k + 4 \<le> length buf \<Longrightarrow>
     u32 (at_off buf le off k) = Inr (word_of_bytes le (slice buf (off + k) (off + k + 4)), at_off buf le off (k + 4))"
  by (simp add: u32_def at_off_def goto_aligned_def Let_def align_multiple)

lemma decode_one_eq:
  "decode_one buf off =
     (if int (length buf) - int off < 16 then Inr (Partial (int (length buf) - int off) 16 None, length buf)
      else
        let body_len = header_u32 buf off 4; serial = header_u32 buf off 8; fields_len = header_u32 buf off 12;
            total = align (16 + fields_len) 8 + body_len; type = named MSG_TYPE (unat (buf ! (off + 1)))
        in if int (length buf) - int off < int total then
             Inr (Partial (int (length buf) - int off) total (Some (type, serial)), length buf)
           else
             bindE (read_fields (off + 16 + fields_len) (at_off buf (buf ! off = 0x6C) off 16)) (\<lambda>fs.
               Inr (Message \<lparr>m_endian = buf ! off, m_type = type, m_flags = buf ! (off + 2),
                      m_flag_names = flag_names (buf ! (off + 2)), m_proto = buf ! (off + 3), m_serial = serial,
                      m_body_len = body_len, m_fields_len = fields_len, m_field_order = map fst fs,
                      m_fields = fields_dict fs,
                      m_body = slice buf (off + align (16 + fields_len) 8) (off + total), m_total = total\<rparr>,
                    off + total)))"
proof (cases "int (length buf) - int off < 16")
  case False
  let ?le = "buf ! off = 0x6C" and ?r = "\<lambda>le k. at_off buf le off k"
  from False have len: "off + 16 \<le> length buf" by simp
  then have "u8 (?r le 0) = Inr (buf ! off, ?r le 1)" "u8 (?r le 1) = Inr (buf ! (off + 1), ?r le 2)"
    "u8 (?r le 2) = Inr (buf ! (off + 2), ?r le 3)" "u8 (?r le 3) = Inr (buf ! (off + 3), ?r le 4)" for le
    using u8_at [of off 0 buf le] u8_at [of off 1 buf le] u8_at [of off 2 buf le] u8_at [of off 3 buf le] by simp_all
  moreover have "u32 (?r ?le 4) = Inr (header_u32 buf off 4, ?r ?le 8)" "u32 (?r ?le 8) = Inr (header_u32 buf off 8, ?r ?le 12)"
    "u32 (?r ?le 12) = Inr (header_u32 buf off 12, ?r ?le 16)"
    using len u32_at [of 4 off buf ?le] u32_at [of 8 off buf ?le] u32_at [of 12 off buf ?le]
    by (simp_all add: header_u32_def)
  ultimately show ?thesis
    using False by (simp add: decode_one_def Let_def add.assoc)
qed (simp add: decode_one_def)

lemma decode_one_progress:
  assumes "decode_one buf off = Inr (m, next)" "off < length buf"
  shows "off < next" "next \<le> length buf"
proof -
  have "16 + n \<le> align (16 + n) 8" for n using align_ge [of 8 "16 + n"] by simp
  then have pos: "0 < align (16 + n) 8 + b" for n b by (metis add_gr_0 less_le_trans zero_less_numeral)
  from assms pos show "off < next" "next \<le> length buf"
    by (auto simp: decode_one_eq Let_def res_simps split: if_splits)
qed

function stream_from :: "byte list \<Rightarrow> nat \<Rightarrow> py_error + info list" where
  "stream_from buf off =
     (if off < length buf then
        (case decode_one buf off of
           Inl e \<Rightarrow> Inl e
         | Inr (m, next) \<Rightarrow> bindE (stream_from buf next) (\<lambda>ms. Inr (m # ms)))
      else Inr [])"
  by pat_completeness auto
termination
  by (relation "measure (\<lambda>(buf, off). length buf - off)") (auto dest: decode_one_progress(1))

declare stream_from.simps [simp del]

definition decode_stream :: "byte list \<Rightarrow> py_error + info list" where
  "decode_stream buf = stream_from buf 0"


section \<open>The report\<close>

datatype report_line =
    FileHeader string nat
  | SaslText "byte list list"
  | DecodedNothing
  | MessageCount nat
  | PartialTail int nat "((string + nat) \<times> nat) option"
  | Decoded message
  | TrailingBytes int

text \<open>\<^verbatim>\<open>data.split(b"\r\n")\<close>.\<close>

fun split_crlf :: "byte list \<Rightarrow> byte list list" where
  "split_crlf [] = [[]]"
| "split_crlf [b] = [[b]]"
| "split_crlf (b # c # bs) =
     (if b = 0x0D \<and> c = 0x0A then [] # split_crlf bs
      else case split_crlf (c # bs) of [] \<Rightarrow> [[b]] | w # ws \<Rightarrow> (b # w) # ws)"

definition bytes_of :: "string \<Rightarrow> byte list" where
  "bytes_of s = map (\<lambda>c. of_nat (of_char c)) s"

definition is_sasl :: "byte list \<Rightarrow> bool" where
  "is_sasl data \<longleftrightarrow> take 1 data = [0] \<or> take 4 data \<in> {bytes_of ''DATA'', bytes_of ''OK 0'', bytes_of ''AUTH''}"

definition is_partial :: "info \<Rightarrow> bool" where
  "is_partial m = (case m of Partial a b c \<Rightarrow> True | Message x \<Rightarrow> False)"

definition info_total :: "info \<Rightarrow> nat" where
  "info_total m = (case m of Partial a b c \<Rightarrow> 0 | Message x \<Rightarrow> m_total x)"

definition info_line :: "info \<Rightarrow> report_line" where
  "info_line m = (case m of Partial a b c \<Rightarrow> PartialTail a b c | Message x \<Rightarrow> Decoded x)"

text \<open>One file of \<open>main\<close>: what is printed after its header, and whether it is counted bad.\<close>

definition report_file :: "byte list \<Rightarrow> py_error + report_line list \<times> nat" where
  "report_file data =
     (if is_sasl data then Inr ([SaslText (filter (\<lambda>l. l \<noteq> []) (split_crlf data))], 0)
      else
        bindE (decode_stream data) (\<lambda>msgs.
          if msgs = [] then Inr ([DecodedNothing], 1)
          else
            let consumed = sum_list (map info_total msgs);
                slack = int (length data) - int consumed;
                out = MessageCount (length msgs) # map info_line msgs
            in if slack \<noteq> 0 \<and> \<not> list_ex is_partial msgs then Inr (out @ [TrailingBytes slack], 1)
               else Inr (out, 0)))"

fun report_files :: "(string \<times> byte list) list \<Rightarrow> py_error + report_line list \<times> nat" where
  "report_files [] = Inr ([], 0)"
| "report_files ((p, data) # rest) =
     bindE (report_file data) (\<lambda>(out, bad).
       bindE (report_files rest) (\<lambda>(outs, bads). Inr (FileHeader p (length data) # out @ outs, bad + bads)))"

text \<open>The exit status of a run that raised nothing.\<close>

definition exit_status :: "nat \<Rightarrow> nat" where
  "exit_status bad = (if bad = 0 then 0 else 1)"

end
