(* ===== verification/DbusTap.thy ===== *)
theory DbusTap
  imports DbusDecode
begin

text \<open>
  \<^verbatim>\<open>tools/dbus_tap.py\<close>: the relay between D-Bus clients and the bus that records what
  passes. What the operating system answers (a new connection, the result of a receive or a
  send) is an event; a turn of the loop's body is a function of the event and the state. Files
  are maps from paths to bytes; writing them is taken to succeed.
\<close>

type_synonym sock = nat
type_synonym files = "string \<rightharpoonup> byte list"


section \<open>The dump\<close>

definition hex_digit :: "nat \<Rightarrow> char" where
  "hex_digit d = ''0123456789abcdef'' ! d"

definition hex2 :: "byte \<Rightarrow> string" where
  "hex2 b = [hex_digit (unat b div 16), hex_digit (unat b mod 16)]"

text \<open>\<^verbatim>\<open>f"{n:x}"\<close> and \<^verbatim>\<open>f"{n:08x}"\<close>.\<close>

fun hex_nat :: "nat \<Rightarrow> string" where
  "hex_nat n = (if n < 16 then [hex_digit n] else hex_nat (n div 16) @ [hex_digit (n mod 16)])"

declare hex_nat.simps [simp del]

definition hex8 :: "nat \<Rightarrow> string" where
  "hex8 n = replicate (8 - length (hex_nat n)) (CHR ''0'') @ hex_nat n"

definition ljust :: "nat \<Rightarrow> string \<Rightarrow> string" where
  "ljust w s = s @ replicate (w - length s) SP"

definition printable :: "byte \<Rightarrow> char" where
  "printable b = (if 32 \<le> b \<and> b < 127 then char_of (unat b) else CHR ''.'')"

definition dump_line :: "string \<Rightarrow> byte list \<Rightarrow> nat \<Rightarrow> string" where
  "dump_line indent data off =
     (let chunk = slice data off (off + 16)
      in indent @ hex8 off @ [SP, SP] @ ljust 47 (join_with [SP] (map hex2 chunk)) @ [SP, SP, CHR ''|''] @
         map printable chunk @ ''|'')"

definition hexdump :: "byte list \<Rightarrow> string \<Rightarrow> string" where
  "hexdump data indent =
     join_with [LF] (map (\<lambda>i. dump_line indent data (16 * i)) [0..<(length data + 15) div 16])"


section \<open>Captures\<close>

record capture =
  cap_bin :: string
  cap_txt :: string
  cap_label :: string
  cap_conn :: nat
  cap_chunk :: nat
  cap_total :: nat

text \<open>The dash of the texts, U+2014, as the file holds it in UTF-8.\<close>

definition EM_DASH :: string where
  "EM_DASH = [CHR 0xE2, CHR 0x80, CHR 0x94]"

text \<open>Opening a file to append creates it when it is missing.\<close>

definition append_file :: "string \<Rightarrow> byte list \<Rightarrow> files \<Rightarrow> files" where
  "append_file p d fs = fs(p \<mapsto> (case fs p of None \<Rightarrow> d | Some old \<Rightarrow> old @ d))"

definition txt_header :: "string \<Rightarrow> string" where
  "txt_header label =
     ''# '' @ label @ '' '' @ EM_DASH @ '' chunk boundaries are recorded deliberately;'' @ [LF] @
     ''# see the module docstring for why they matter.'' @ [LF, LF]"

definition cap_path :: "string \<Rightarrow> nat \<Rightarrow> string \<Rightarrow> string \<Rightarrow> string" where
  "cap_path dir conn label ext = path_join dir (''conn'' @ dec_nat conn @ ''-'' @ label @ ext)"

definition new_capture :: "string \<Rightarrow> nat \<Rightarrow> string \<Rightarrow> files \<Rightarrow> capture \<times> files" where
  "new_capture dir conn label fs =
     (let cap = \<lparr>cap_bin = cap_path dir conn label ''.bin'', cap_txt = cap_path dir conn label ''.txt'',
                 cap_label = label, cap_conn = conn, cap_chunk = 0, cap_total = 0\<rparr>
      in (cap, fs(cap_bin cap \<mapsto> [], cap_txt cap \<mapsto> bytes_of (txt_header label))))"

definition chunk_entry :: "nat \<Rightarrow> nat \<Rightarrow> byte list \<Rightarrow> string" where
  "chunk_entry chunk offset data =
     ''--- chunk '' @ dec_nat chunk @ '': '' @ dec_nat (length data) @ '' bytes '' @
     ''(offset '' @ dec_nat offset @ '') ---'' @ [LF] @ hexdump data [] @ [LF, LF]"

definition cap_write :: "capture \<Rightarrow> byte list \<Rightarrow> files \<Rightarrow> capture \<times> files" where
  "cap_write cap data fs =
     (let cap = cap\<lparr>cap_chunk := cap_chunk cap + 1\<rparr>;
          fs = append_file (cap_bin cap) data fs;
          fs = append_file (cap_txt cap) (bytes_of (chunk_entry (cap_chunk cap) (cap_total cap) data)) fs
      in (cap\<lparr>cap_total := cap_total cap + length data\<rparr>, fs))"


section \<open>Ancillary data\<close>

record cmsg =
  c_level :: int
  c_type :: int
  c_data :: "byte list"

definition SOL_SOCKET :: int where "SOL_SOCKET = 1"
definition SCM_RIGHTS :: int where "SCM_RIGHTS = 1"
definition MSG_CTRUNC :: nat where "MSG_CTRUNC = 8"
definition MAX_FDS :: nat where "MAX_FDS = 253"

definition dec_int :: "int \<Rightarrow> string" where
  "dec_int n = (if n < 0 then ''-'' @ dec_nat (nat (- n)) else dec_nat (nat n))"

definition cmsg_entry :: "cmsg \<Rightarrow> string" where
  "cmsg_entry m =
     ''    level='' @ dec_int (c_level m) @ '' type='' @ dec_int (c_type m) @ '' '' @
     ''len='' @ dec_nat (length (c_data m)) @ [LF] @ hexdump (c_data m) ''    '' @ [LF]"

definition anc_entry :: "cmsg list \<Rightarrow> nat \<Rightarrow> string" where
  "anc_entry anc flags =
     ''--- ancillary: '' @ dec_nat (length anc) @ '' cmsg '' @ ''(flags=0x'' @ hex_nat flags @ '') ---'' @ [LF] @
     concat (map cmsg_entry anc) @ [LF]"

text \<open>\<^verbatim>\<open>array.array("i", cdata[:usable])\<close>: four little-endian bytes an entry, signed.\<close>

fun int_array :: "byte list \<Rightarrow> int list" where
  "int_array (a # b # c # d # bs) =
     (let n = int (word_of_bytes True [a, b, c, d]) in (if n < 2 ^ 31 then n else n - 2 ^ 32) # int_array bs)"
| "int_array bs = []"

definition fds_of :: "cmsg \<Rightarrow> int list" where
  "fds_of m =
     (if c_level m = SOL_SOCKET \<and> c_type m = SCM_RIGHTS
      then let usable = length (c_data m) - length (c_data m) mod 4 in int_array (take usable (c_data m))
      else [])"


section \<open>The relay\<close>

record config =
  listen_path :: string
  outdir :: string
  bus_path :: string
  quiet :: bool

text \<open>
  The state of the relay: the connections by socket, each with its other end and its capture
  (of which that entry is the only holder), the sockets registered for reading, those closed,
  the captures on disk, what was printed, what each send passed on, the descriptors closed.
\<close>

record tap =
  t_conns :: "sock \<rightharpoonup> sock \<times> capture"
  t_watched :: "sock set"
  t_closed :: "sock set"
  t_conn_id :: nat
  t_files :: files
  t_stderr :: "string list"
  t_out :: "(sock \<times> byte list \<times> cmsg list) list"
  t_fds :: "int list"

datatype connect = Connected | ConnectFailed string

datatype received = Received "byte list" "cmsg list" nat | RecvError

text \<open>How many bytes a send passed on, and whether it then raised.\<close>

datatype sending = Sent nat | SendError nat

datatype event = Accept sock sock connect | Readable sock received sending

fun taken :: "sending \<Rightarrow> nat" where
  "taken (Sent n) = n"
| "taken (SendError n) = n"

definition say :: "string \<Rightarrow> tap \<Rightarrow> tap" where
  "say w st = st\<lparr>t_stderr := t_stderr st @ [w]\<rparr>"

definition accept_conn :: "config \<Rightarrow> sock \<Rightarrow> sock \<Rightarrow> connect \<Rightarrow> tap \<Rightarrow> tap" where
  "accept_conn cfg cli up r st =
     (case r of
        ConnectFailed e \<Rightarrow> say (''upstream connect failed: '' @ e) (st\<lparr>t_closed := insert cli (t_closed st)\<rparr>)
      | Connected \<Rightarrow>
          let st = st\<lparr>t_conn_id := t_conn_id st + 1\<rparr>;
              (c2s, fs) = new_capture (outdir cfg) (t_conn_id st) ''client-to-bus'' (t_files st);
              (s2c, fs) = new_capture (outdir cfg) (t_conn_id st) ''bus-to-client'' fs;
              st = st\<lparr>t_files := fs, t_conns := (t_conns st)(cli \<mapsto> (up, c2s), up \<mapsto> (cli, s2c)),
                      t_watched := insert up (insert cli (t_watched st))\<rparr>
          in if quiet cfg then st else say (''conn '' @ dec_nat (t_conn_id st) @ '' opened'') st)"

definition ctrunc_text :: "capture \<Rightarrow> string" where
  "ctrunc_text cap =
     ''conn '' @ dec_nat (cap_conn cap) @ '' '' @ cap_label cap @ '': MSG_CTRUNC '' @ EM_DASH @ '' the kernel dropped '' @
     ''descriptors (more than '' @ dec_nat MAX_FDS @ '' in one message); this capture '' @
     ''is NOT the traffic the peers sent''"

definition warn_ctrunc :: "capture \<Rightarrow> tap \<Rightarrow> tap" where
  "warn_ctrunc cap st =
     (let msg = ctrunc_text cap
      in (say ([LF] @ ''*** WARNING: '' @ msg @ '' ***'' @ [LF]) st)
           \<lparr>t_files := append_file (cap_txt cap) (bytes_of (''!!! '' @ msg @ '' !!!'' @ [LF, LF])) (t_files st)\<rparr>)"

text \<open>The loop over \<^verbatim>\<open>(peer, other)\<close> when a peer is gone.\<close>

definition drop_sock :: "sock \<Rightarrow> tap \<Rightarrow> tap" where
  "drop_sock s st = st\<lparr>t_watched := t_watched st - {s}, t_conns := (t_conns st)(s := None),
     t_closed := insert s (t_closed st)\<rparr>"

definition record_data :: "sock \<Rightarrow> sock \<Rightarrow> capture \<Rightarrow> byte list \<Rightarrow> tap \<Rightarrow> tap" where
  "record_data peer other cap data st =
     (let (cap, fs) = cap_write cap data (t_files st)
      in st\<lparr>t_files := fs, t_conns := (t_conns st)(peer \<mapsto> (other, cap))\<rparr>)"

text \<open>\<^verbatim>\<open>sendmsg\<close> and \<^verbatim>\<open>sendall\<close>: what the peer gets; an error of either is dropped.\<close>

definition send_on :: "sock \<Rightarrow> byte list \<Rightarrow> cmsg list \<Rightarrow> sending \<Rightarrow> tap \<Rightarrow> tap" where
  "send_on other data anc r st = st\<lparr>t_out := t_out st @ [(other, take (taken r) data, anc)]\<rparr>"

definition forward_anc :: "sock \<Rightarrow> capture \<Rightarrow> byte list \<Rightarrow> cmsg list \<Rightarrow> nat \<Rightarrow> sending \<Rightarrow> tap \<Rightarrow> tap" where
  "forward_anc other cap data anc flags r st =
     (let st = st\<lparr>t_files := append_file (cap_txt cap) (bytes_of (anc_entry anc flags)) (t_files st)\<rparr>;
          st = send_on other data anc r st
      in st\<lparr>t_fds := t_fds st @ concat (map fds_of anc)\<rparr>)"

definition on_readable :: "sock \<Rightarrow> received \<Rightarrow> sending \<Rightarrow> tap \<Rightarrow> tap" where
  "on_readable peer r s st =
     (case t_conns st peer of
        None \<Rightarrow> st
      | Some (other, cap) \<Rightarrow>
          let (data, anc, flags) = (case r of Received d a f \<Rightarrow> (d, a, f) | RecvError \<Rightarrow> ([], [], 0));
              st = (if and flags MSG_CTRUNC \<noteq> 0 then warn_ctrunc cap st else st)
          in if data = [] \<and> anc = [] then drop_sock other (drop_sock peer st)
             else
               let st = (if data \<noteq> [] then record_data peer other cap data st else st)
               in if anc \<noteq> [] then forward_anc other cap data anc flags s st
                  else if data \<noteq> [] then send_on other data [] s st
                  else st)"

fun handle :: "config \<Rightarrow> event \<Rightarrow> tap \<Rightarrow> tap" where
  "handle cfg (Accept cli up r) st = accept_conn cfg cli up r st"
| "handle cfg (Readable peer r s) st = on_readable peer r s st"

text \<open>What is done before the loop, in order, and at its end.\<close>

datatype action = Umask nat | Makedirs string | Unlink string | Bind string | Chmod string nat | Listen nat

definition startup :: "config \<Rightarrow> bool \<Rightarrow> action list" where
  "startup cfg stale =
     [Umask 63, Makedirs (outdir cfg)] @ (if stale then [Unlink (listen_path cfg)] else []) @
     [Bind (listen_path cfg), Chmod (listen_path cfg) 384, Listen 8]"

definition tap0 :: "config \<Rightarrow> files \<Rightarrow> tap" where
  "tap0 cfg fs = \<lparr>t_conns = Map.empty, t_watched = {}, t_closed = {}, t_conn_id = 0, t_files = fs,
     t_stderr = (if quiet cfg then [] else
       [''tap listening on '' @ listen_path cfg @ '' -> '' @ bus_path cfg, ''capturing into '' @ outdir cfg]),
     t_out = [], t_fds = []\<rparr>"

definition relay :: "config \<Rightarrow> bool \<Rightarrow> files \<Rightarrow> event list \<Rightarrow> action list \<times> tap \<times> action list" where
  "relay cfg stale fs events =
     (startup cfg stale, fold (handle cfg) events (tap0 cfg fs), [Unlink (listen_path cfg)])"

text \<open>
  The turns the operating system allows. A new socket is none of those in use or closed before;
  one that is readable was registered, though an earlier turn of the same batch may have closed
  it; a send takes no more than it is given, and one that returns from \<^verbatim>\<open>sendall\<close> took all.
\<close>

definition send_possible :: "received \<Rightarrow> sending \<Rightarrow> bool" where
  "send_possible r s \<longleftrightarrow>
     (case r of
        Received data anc flags \<Rightarrow> taken s \<le> length data \<and> (anc = [] \<longrightarrow> (\<forall>n. s = Sent n \<longrightarrow> n = length data))
      | RecvError \<Rightarrow> True)"

inductive tap_step :: "config \<Rightarrow> tap \<Rightarrow> event \<Rightarrow> tap \<Rightarrow> bool" for cfg where
  accept: "tap_step cfg st (Accept cli up r) (handle cfg (Accept cli up r) st)"
    if "cli \<noteq> up" "{cli, up} \<inter> (t_watched st \<union> t_closed st) = {}"
| readable: "tap_step cfg st (Readable peer r s) (handle cfg (Readable peer r s) st)"
    if "peer \<in> t_watched st \<union> t_closed st" "send_possible r s"

inductive tap_run :: "config \<Rightarrow> files \<Rightarrow> event list \<Rightarrow> tap \<Rightarrow> bool" for cfg fs where
  start: "tap_run cfg fs [] (tap0 cfg fs)"
| turn: "tap_run cfg fs es st \<Longrightarrow> tap_step cfg st e st' \<Longrightarrow> tap_run cfg fs (es @ [e]) st'"

inductive_cases tap_stepE: "tap_step cfg st e st'"
inductive_simps tap_step_accept: "tap_step cfg st (Accept cli up r) st'"
inductive_simps tap_step_readable: "tap_step cfg st (Readable peer r s) st'"
inductive_simps tap_run_Nil: "tap_run cfg fs [] st"

lemma tap_step_handle: "tap_step cfg st e st' \<Longrightarrow> st' = handle cfg e st"
  by (auto elim: tap_stepE)

lemma tap_run_fold: "tap_run cfg fs es st \<Longrightarrow> st = fold (handle cfg) es (tap0 cfg fs)"
  by (induction rule: tap_run.induct) (auto dest: tap_step_handle)

lemma tap_run_snoc: "tap_run cfg fs (es @ [e]) st' \<longleftrightarrow> (\<exists>st. tap_run cfg fs es st \<and> tap_step cfg st e st')"
  by (auto elim: tap_run.cases intro: tap_run.turn)

end
