(* ===== verification/DbusDecodeSpec.thy ===== *)
theory DbusDecodeSpec
  imports DbusDecode
begin

text \<open>
  What the decoder of \<open>DbusDecode\<close> promises: padding goes to the next multiple, a stream is
  partitioned into its messages and at most one tail, a message decodes the same wherever it
  lies in a buffer, and what an encoder of the wire format writes is read back.
\<close>


section \<open>Alignment\<close>

lemma align_bounds: "0 < a \<Longrightarrow> a dvd align n a \<and> align n a < n + a"
proof -
  assume a: "0 < a"
  have "int (align n a) = int n + (- int n) mod int a" using a by (simp add: align_def)
  moreover have "int a dvd int n + (- int n) mod int a"
    by (metis add.commute dvd_minus_mod minus_diff_eq uminus_add_conv_diff dvd_minus_iff mod_add_right_eq dvd_eq_mod_eq_0 add.right_inverse mod_0)
  moreover have "(- int n) mod int a < int a" using a by simp
  ultimately show ?thesis by (metis add_strict_left_mono of_nat_add of_nat_dvd_iff of_nat_less_iff)
qed

lemma align_unique:
  assumes "0 < a" "a dvd m" "n \<le> m" "m < n + a"
  shows "align n a = m"
proof -
  note b = align_bounds [OF assms(1), of n] align_ge [OF assms(1), of n]
  have close: "x = y" if "a dvd x" "a dvd y" "x \<le> y" "y < x + a" for x y
  proof (rule ccontr)
    assume "x \<noteq> y"
    with that have "a dvd y - x" "0 < y - x" by (simp_all add: dvd_diff_nat)
    from dvd_imp_le [OF this] that show False by simp
  qed
  show ?thesis
  proof (cases "align n a \<le> m")
    case True
    with close [of "align n a" m] b assms show ?thesis by simp
  next
    case False
    with close [of m "align n a"] b assms show ?thesis by simp
  qed
qed

lemma align_add: "0 < a \<Longrightarrow> a dvd k \<Longrightarrow> align (k + n) a = k + align n a"
  using align_bounds [of a n] align_ge [of a n] by (intro align_unique) auto


section \<open>A decoder run over a buffer\<close>

text \<open>
  The contract between a decoder of one message at an offset and the loop that runs it from one
  message to the next: each message ends past its start and inside the buffer.
\<close>

locale offset_decoder =
  fixes decode :: "'b list \<Rightarrow> nat \<Rightarrow> 'e + 'm \<times> nat" and stream :: "'b list \<Rightarrow> nat \<Rightarrow> 'e + 'm list"
  assumes progress: "decode buf off = Inr (m, nx) \<Longrightarrow> off < length buf \<Longrightarrow> off < nx \<and> nx \<le> length buf"
    and stream_end: "length buf \<le> off \<Longrightarrow> stream buf off = Inr []"
    and stream_step: "off < length buf \<Longrightarrow> stream buf off =
      bindE (decode buf off) (\<lambda>(m, nx). bindE (stream buf nx) (\<lambda>ms. Inr (m # ms)))"
begin

text \<open>The offsets of the messages: they start at \<open>off\<close>, increase and end at the end of the buffer.\<close>

inductive chain :: "'b list \<Rightarrow> nat \<Rightarrow> 'm list \<Rightarrow> bool" where
  finish: "off = length buf \<Longrightarrow> chain buf off []"
| step: "off < length buf \<Longrightarrow> decode buf off = Inr (m, nx) \<Longrightarrow> chain buf nx ms \<Longrightarrow> chain buf off (m # ms)"

lemma stream_chain: "off \<le> length buf \<Longrightarrow> stream buf off = Inr ms \<longleftrightarrow> chain buf off ms"
proof (induction "length buf - off" arbitrary: off ms rule: less_induct)
  case less
  show ?case
  proof (cases "off < length buf")
    case True
    show ?thesis
    proof (cases "decode buf off")
      case (Inl e)
      with stream_step [OF True] show ?thesis using True by (auto elim: chain.cases)
    next
      case (Inr r)
      obtain m nx where r: "r = (m, nx)" by fastforce
      from progress [OF Inr [unfolded r] True] have nx: "off < nx" "nx \<le> length buf" by auto
      have IH: "stream buf nx = Inr ms' \<longleftrightarrow> chain buf nx ms'" for ms'
        using less.hyps [of nx] nx True by simp
      show ?thesis
      proof
        assume "stream buf off = Inr ms"
        then have "bindE (stream buf nx) (\<lambda>ms. Inr (m # ms)) = Inr ms" by (simp add: stream_step [OF True] Inr r)
        with IH Inr r show "chain buf off ms" by (auto simp: bindE_Inr_iff intro: chain.step [OF True])
      next
        assume "chain buf off ms"
        with True Inr r obtain ms' where "ms = m # ms'" "chain buf nx ms'" by (auto elim: chain.cases)
        with IH have "stream buf nx = Inr ms'" by blast
        with \<open>ms = m # ms'\<close> show "stream buf off = Inr ms" by (simp add: stream_step [OF True] Inr r)
      qed
    qed
  next
    case False
    with less.prems stream_end [of buf off] show ?thesis by (auto intro: chain.intros elim: chain.cases)
  qed
qed

lemma stream_total:
  assumes "off \<le> length buf" "\<And>k. off \<le> k \<Longrightarrow> k < length buf \<Longrightarrow> \<exists>r. decode buf k = Inr r"
  shows "\<exists>ms. stream buf off = Inr ms"
  using assms
proof (induction "length buf - off" arbitrary: off rule: less_induct)
  case less
  show ?case
  proof (cases "off < length buf")
    case True
    with less.prems(2) [of off] obtain m nx where d: "decode buf off = Inr (m, nx)" by auto
    from progress [OF d True] less have "\<exists>ms. stream buf nx = Inr ms" by auto
    with d show ?thesis by (auto simp: stream_step [OF True])
  qed (use less.prems stream_end [of buf off] in auto)
qed

end

interpretation dbus: offset_decoder decode_one stream_from
proof
  show "decode_one buf off = Inr (m, nx) \<Longrightarrow> off < length buf \<Longrightarrow> off < nx \<and> nx \<le> length buf"
    for buf off m nx
    using decode_one_progress by blast
  show "length buf \<le> off \<Longrightarrow> stream_from buf off = Inr []" for buf off by (simp add: stream_from.simps)
  show "off < length buf \<Longrightarrow> stream_from buf off =
      bindE (decode_one buf off) (\<lambda>(m, nx). bindE (stream_from buf nx) (\<lambda>ms. Inr (m # ms)))" for buf off
    by (subst stream_from.simps, cases "decode_one buf off") (auto split: prod.split)
qed

section \<open>Messages and tail\<close>

lemma info_simps [simp]:
  "info_total (Message x) = m_total x" "info_total (Partial a n h) = 0"
  "is_partial (Message x) = False" "is_partial (Partial a n h) = True"
  by (simp_all add: info_total_def is_partial_def)

lemma decode_one_cases:
  assumes "decode_one buf off = Inr (m, nx)" "off < length buf"
  obtains (message) x where "m = Message x" "nx = off + m_total x" "0 < m_total x" "off + m_total x \<le> length buf"
  | (tail) n h where "m = Partial (int (length buf - off)) n h" "nx = length buf"
proof (cases m)
  case (Message x)
  with assms have "nx = off + m_total x"
    by (auto simp: decode_one_eq Let_def res_simps split: if_splits)
  with decode_one_progress [OF assms] message [OF Message] show ?thesis by simp
next
  case (Partial a n h)
  with assms have "a = int (length buf - off)" "nx = length buf"
    by (auto simp: decode_one_eq Let_def res_simps of_nat_diff split: if_splits)
  with Partial tail show ?thesis by blast
qed

lemma chain_partition:
  "dbus.chain buf off ms \<Longrightarrow> \<exists>rest. off + sum_list (map info_total ms) + rest = length buf \<and>
     list_all (\<lambda>m. \<not> is_partial m) (butlast ms) \<and> (list_ex is_partial ms \<longleftrightarrow> 0 < rest) \<and>
     (0 < rest \<longrightarrow> (\<exists>n h. last ms = Partial (int rest) n h))"
proof (induction rule: dbus.chain.induct)
  case (step off buf m nx ms)
  note IH = step.IH
  from step.hyps(2,1) show ?case
  proof (cases rule: decode_one_cases)
    case (message x)
    from IH obtain rest where r: "nx + sum_list (map info_total ms) + rest = length buf"
      "list_all (\<lambda>m. \<not> is_partial m) (butlast ms)" "list_ex is_partial ms \<longleftrightarrow> 0 < rest"
      "0 < rest \<longrightarrow> (\<exists>n h. last ms = Partial (int rest) n h)" by blast
    have "ms \<noteq> []" if "0 < rest" using r(3) that by auto
    with r message show ?thesis by (intro exI [of _ rest]) auto
  next
    case (tail n h)
    with step.hyps(3) have "ms = []" by (auto elim: dbus.chain.cases)
    with tail step.hyps(1) show ?thesis
      by (intro exI [of _ "length buf - off"]) auto
  qed
qed simp

lemma stream_partition:
  assumes "decode_stream buf = Inr ms"
  obtains rest where "sum_list (map info_total ms) + rest = length buf" "list_all (\<lambda>m. \<not> is_partial m) (butlast ms)"
    "list_ex is_partial ms \<longleftrightarrow> 0 < rest" "0 < rest \<Longrightarrow> \<exists>n h. last ms = Partial (int rest) n h"
proof -
  from assms have "dbus.chain buf 0 ms"
    using dbus.stream_chain [of 0 buf ms] by (simp add: decode_stream_def)
  from chain_partition [OF this] that show ?thesis by auto
qed


section \<open>How many messages and fields\<close>

lemma aligned_next:
  assumes "0 < a" "r_base r' = r_base r" "r_off (goto_aligned a r) < r_off r'"
  shows "r_off (goto_aligned a r) + a \<le> r_off (goto_aligned a r')"
proof -
  let ?n = "align (r_off r - r_base r) a" and ?n' = "align (r_off r' - r_base r') a"
  have "?n < ?n'"
    using assms(3) align_ge [OF assms(1), of "r_off r' - r_base r'"] by (simp add: goto_aligned_def assms(2))
  moreover have "a dvd ?n' - ?n" using align_bounds [OF assms(1)] by (simp add: dvd_diff_nat)
  ultimately have "a \<le> ?n' - ?n" using dvd_imp_le by fastforce
  with \<open>?n < ?n'\<close> show ?thesis by (simp add: goto_aligned_def assms(2))
qed

text \<open>Every field starts at a multiple of eight of its own, before the end.\<close>

lemma read_fields_count:
  "read_fields fend r = Inr fs \<Longrightarrow> fs = [] \<or> r_off (goto_aligned 8 r) + 8 * (length fs - 1) < fend"
proof (induction fend r arbitrary: fs rule: read_fields.induct)
  case (1 fend r)
  let ?r = "goto_aligned 8 r"
  show ?case
  proof (cases "fs = []")
    case False
    with "1.prems" have lim: "r_off r < fend" "\<not> fend \<le> r_off ?r"
      by (auto simp: read_fields.simps [of fend r] Let_def split: if_splits)
    with "1.prems" obtain f r' fs' where f: "read_field ?r = Inr (f, r')" "read_fields fend r' = Inr fs'" "fs = f # fs'"
      by (auto simp: read_fields.simps [of fend r] Let_def res_simps split: sum.splits)
    from "1.IH" [OF lim(1) refl lim(2) f(1) refl f(2)]
    have IH: "fs' = [] \<or> r_off (goto_aligned 8 r') + 8 * (length fs' - 1) < fend" by simp
    from read_field_forward [OF f(1)] have "r_off ?r < r_off r'" "r_base r' = r_base r" by (auto simp: reads_on_def)
    from aligned_next [OF _ this(2,1)] IH lim(2) f(3) show ?thesis by (cases fs') auto
  qed simp
qed

text \<open>What a decoded message's header says of its own size.\<close>

definition sized :: "message \<Rightarrow> bool" where
  "sized x \<longleftrightarrow> m_total x = align (16 + m_fields_len x) 8 + m_body_len x \<and> length (m_body x) = m_body_len x \<and>
     8 * length (m_field_order x) < m_fields_len x + 8 \<and> length (m_fields x) \<le> length (m_field_order x)"

lemma fields_dict_length: "length (fields_dict fs) \<le> length fs"
proof -
  have "length (fold (\<lambda>(code, v). AList.update (named FIELD code) v) fs al) \<le> length al + length fs" for al
  proof (induction fs arbitrary: al)
    case (Cons f fs)
    have "length (AList.update k v al) \<le> Suc (length al)" for k :: "string + nat" and v :: field_value
      by (induction al) auto
    with Cons [of "(\<lambda>(code, v). AList.update (named FIELD code) v) f al"] show ?case
      by (auto split: prod.split intro: order_trans)
  qed simp
  from this [of "[]"] show ?thesis by (simp add: fields_dict_def)
qed

lemma decode_one_sized:
  assumes "decode_one buf off = Inr (Message x, nx)"
  shows "sized x"
proof -
  from assms obtain fs where fs: "read_fields (off + 16 + m_fields_len x) (at_off buf (buf ! off = 0x6C) off 16) = Inr fs"
    "m_field_order x = map fst fs" "m_fields x = fields_dict fs"
    and len: "off + m_total x \<le> length buf" "m_total x = align (16 + m_fields_len x) 8 + m_body_len x"
      "m_body x = slice buf (off + align (16 + m_fields_len x) 8) (off + m_total x)"
    by (auto simp: decode_one_eq Let_def res_simps split: if_splits)
  have "r_off (goto_aligned 8 (at_off buf le off 16)) = off + 16" for le
    using align_multiple [of 8 16] by (simp add: goto_aligned_def)
  with read_fields_count [OF fs(1)] have "8 * length fs < m_fields_len x + 8" by auto
  with fs len fields_dict_length [of fs] show ?thesis by (simp add: sized_def slice_def)
qed

lemma chain_sized: "dbus.chain buf off ms \<Longrightarrow> Message x \<in> set ms \<Longrightarrow> sized x"
  by (induction rule: dbus.chain.induct) (auto dest: decode_one_sized)

lemma stream_sized: "decode_stream buf = Inr ms \<Longrightarrow> Message x \<in> set ms \<Longrightarrow> sized x"
  using dbus.stream_chain [of 0 buf ms] chain_sized by (simp add: decode_stream_def)

lemma sized_total: "sized x \<Longrightarrow> 16 + m_fields_len x + m_body_len x \<le> m_total x"
  using align_ge [of 8 "16 + m_fields_len x"] by (simp add: sized_def)

lemma totals_ge:
  "\<forall>x. Message x \<in> set ms \<longrightarrow> k \<le> m_total x \<Longrightarrow> k * length (filter (\<lambda>m. \<not> is_partial m) ms) \<le> sum_list (map info_total ms)"
proof (induction ms)
  case (Cons m ms)
  then show ?case by (cases m) auto
qed simp


section \<open>A message decodes the same anywhere\<close>

definition shift_reader :: "byte list \<Rightarrow> reader \<Rightarrow> reader" where
  "shift_reader p r = r\<lparr>r_buf := p @ r_buf r, r_off := length p + r_off r, r_base := length p + r_base r\<rparr>"

definition shifted :: "byte list \<Rightarrow> py_error + 'v \<times> reader \<Rightarrow> py_error + 'v \<times> reader" where
  "shifted p m = bindE m (\<lambda>(v, r). Inr (v, shift_reader p r))"

lemma shifted_simps [simp]: "shifted p (Inl e) = Inl e" "shifted p (Inr (v, r)) = Inr (v, shift_reader p r)"
  by (simp_all add: shifted_def)

lemma shift_reader_simps [simp]:
  "r_buf (shift_reader p r) = p @ r_buf r" "r_off (shift_reader p r) = length p + r_off r"
  "r_base (shift_reader p r) = length p + r_base r" "r_le (shift_reader p r) = r_le r"
  "(shift_reader p r)\<lparr>r_off := length p + k\<rparr> = shift_reader p (r\<lparr>r_off := k\<rparr>)"
  "(shift_reader p r)\<lparr>r_off := Suc (length p + k)\<rparr> = shift_reader p (r\<lparr>r_off := Suc k\<rparr>)"
  "(shift_reader p r)\<lparr>r_off := Suc (length p + k + n)\<rparr> = shift_reader p (r\<lparr>r_off := Suc (k + n)\<rparr>)"
  by (simp_all add: shift_reader_def)

lemma goto_aligned_shift [shift_simps]: "goto_aligned a (shift_reader p r) = shift_reader p (goto_aligned a r)"
  by (simp add: goto_aligned_def shift_reader_def)

lemma u8_shift [shift_simps]: "u8 (shift_reader p r) = shifted p (u8 r)"
proof -
  have "(shift_reader p r)\<lparr>r_off := Suc (length p + r_off r)\<rparr> = shift_reader p (r\<lparr>r_off := Suc (r_off r)\<rparr>)"
    by (simp add: shift_reader_def)
  then show ?thesis by (simp add: u8_def nth_append_shift)
qed

lemma u32_shift [shift_simps]: "u32 (shift_reader p r) = shifted p (u32 r)"
  using slice_shift [of p "r_buf r" "r_off (goto_aligned 4 r)" "r_off (goto_aligned 4 r) + 4"]
  by (simp add: u32_def Let_def goto_aligned_shift add.assoc)

lemma bind_shifted: "bindE (shifted p m) f = bindE m (\<lambda>(v, r). f (v, shift_reader p r))"
  by (cases m) (auto simp: shifted_def split: prod.split)

lemma shifted_bind: "shifted p (bindE m f) = bindE m (\<lambda>x. shifted p (f x))"
  by (cases m) auto

lemma read_string_shift [shift_simps]: "read_string (shift_reader p r) = shifted p (read_string r)"
proof -
  have "slice (p @ b) (length p + k) (length p + k + n) = slice b k (k + n)" for b :: "byte list" and k n
    using slice_shift [of p b k "k + n"] by (simp add: add.assoc)
  then show ?thesis
    by (simp add: read_string_def u32_shift bind_shifted shifted_bind case_prod_beta')
qed

lemma read_signature_shift [shift_simps]: "read_signature (shift_reader p r) = shifted p (read_signature r)"
proof -
  have "slice (p @ b) (length p + k) (length p + k + n) = slice b k (k + n)" for b :: "byte list" and k n
    using slice_shift [of p b k "k + n"] by (simp add: add.assoc)
  then show ?thesis
    by (simp add: read_signature_def u8_shift bind_shifted shifted_bind case_prod_beta')
qed

lemma read_field_shift [shift_simps]: "read_field (shift_reader p r) = shifted p (read_field r)"
proof -
  have "read_value s (shift_reader p r) = shifted p (read_value s r)" for s r
    by (simp add: read_value_def u32_shift read_string_shift read_signature_shift bind_shifted shifted_bind case_prod_beta')
  then show ?thesis
    by (simp add: read_field_def u8_shift read_signature_shift bind_shifted shifted_bind case_prod_beta')
qed

lemma read_fields_shift [shift_simps]: "read_fields (length p + fend) (shift_reader p r) = read_fields fend r"
proof (induction fend r rule: read_fields.induct)
  case (1 fend r)
  show ?case
  proof (cases "r_off r < fend \<and> \<not> fend \<le> r_off (goto_aligned 8 r)")
    case True
    then show ?thesis using "1.IH" [OF _ refl]
      by (subst read_fields.simps, subst (2) read_fields.simps)
        (auto simp: goto_aligned_shift read_field_shift shifted_def Let_def split: sum.split)
  next
    case False
    then show ?thesis
      by (subst read_fields.simps, subst (2) read_fields.simps) (auto simp: goto_aligned_shift Let_def)
  qed
qed

lemma decode_one_shift:
  "decode_one (p @ buf) (length p + off) = bindE (decode_one buf off) (\<lambda>(m, nx). Inr (m, length p + nx))"
proof -
  have u: "header_u32 (p @ buf) (length p + off) i = header_u32 buf off i" for i
    using slice_shift [of p buf "off + i" "off + i + 4"] by (simp add: header_u32_def nth_append_shift add.assoc)
  have at: "at_off (p @ buf) le (length p + off) k = shift_reader p (at_off buf le off k)" for le k
    by (simp add: at_off_def shift_reader_def)
  have nth: "(p @ buf) ! (length p + off + k) = buf ! (off + k)" for k
    using nth_append_shift [of p buf "off + k"] by (simp add: add.assoc)
  have sl: "slice (p @ buf) (length p + off + k) (length p + off + j) = slice buf (off + k) (off + j)" for k j
    using slice_shift [of p buf "off + k" "off + j"] by (simp add: add.assoc)
  have len: "int (length (p @ buf)) - int (length p + off) = int (length buf) - int off" by simp
  have fields: "read_fields (length p + off + 16 + n) (shift_reader p r) = read_fields (off + 16 + n) r" for n r
    using read_fields_shift [of p "off + 16 + n" r] by (simp add: add.assoc)
  show ?thesis
    unfolding decode_one_eq u at nth sl len fields nth_append_shift Let_def
    by (cases "read_fields (off + 16 + header_u32 buf off 12) (at_off buf (buf ! off = 0x6C) off 16)")
      (simp_all add: add.assoc)
qed

section \<open>An encoder of the wire format\<close>

text \<open>
  The reference: header fields as the D-Bus specification lays them out, each padded to eight
  bytes from the start of the message, with a variant signature of one character.
\<close>

datatype wire_value = WireUInt nat | WireString "byte list" | WirePath "byte list" | WireSig "byte list"

definition enc_u32 :: "bool \<Rightarrow> nat \<Rightarrow> byte list" where
  "enc_u32 le n =
     (let bs = [of_nat n, of_nat (n div 256), of_nat (n div 65536), of_nat (n div 16777216)]
      in if le then bs else rev bs)"

definition padding :: "nat \<Rightarrow> nat \<Rightarrow> byte list" where
  "padding a n = replicate (align n a - n) 0"

fun enc_value :: "bool \<Rightarrow> wire_value \<Rightarrow> byte list" where
  "enc_value le (WireUInt n) = enc_u32 le n"
| "enc_value le (WireString bs) = enc_u32 le (length bs) @ bs @ [0]"
| "enc_value le (WirePath bs) = enc_u32 le (length bs) @ bs @ [0]"
| "enc_value le (WireSig bs) = of_nat (length bs) # bs @ [0]"

fun value_sig :: "wire_value \<Rightarrow> string" where
  "value_sig (WireUInt n) = ''u''"
| "value_sig (WireString bs) = ''s''"
| "value_sig (WirePath bs) = ''o''"
| "value_sig (WireSig bs) = ''g''"

definition enc_field :: "bool \<Rightarrow> nat \<Rightarrow> byte \<times> wire_value \<Rightarrow> byte list" where
  "enc_field le k f = padding 8 k @ fst f # 1 # bytes_of (value_sig (snd f)) @ 0 # enc_value le (snd f)"

fun enc_fields :: "bool \<Rightarrow> nat \<Rightarrow> (byte \<times> wire_value) list \<Rightarrow> byte list" where
  "enc_fields le k [] = []"
| "enc_fields le k (f # fs) = enc_field le k f @ enc_fields le (k + length (enc_field le k f)) fs"

fun value_ok :: "wire_value \<Rightarrow> bool" where
  "value_ok (WireUInt n) \<longleftrightarrow> n < 2 ^ 32"
| "value_ok (WireString bs) \<longleftrightarrow> length bs < 2 ^ 32"
| "value_ok (WirePath bs) \<longleftrightarrow> length bs < 2 ^ 32"
| "value_ok (WireSig bs) \<longleftrightarrow> length bs < 256 \<and> None \<notin> set (utf8_pieces (map unat bs))"

fun value_read :: "wire_value \<Rightarrow> field_value" where
  "value_read (WireUInt n) = UInt n"
| "value_read (WireString bs) = Text (decode_replace bs)"
| "value_read (WirePath bs) = Text (decode_replace bs)"
| "value_read (WireSig bs) = Sig (map the (utf8_pieces (map unat bs)))"

lemma length_enc_u32 [simp]: "length (enc_u32 le n) = 4"
  by (simp add: enc_u32_def Let_def)

lemma word_of_enc_u32: "n < 2 ^ 32 \<Longrightarrow> word_of_bytes le (enc_u32 le n) = n"
proof -
  assume n: "n < 2 ^ 32"
  have b: "unat (of_nat k :: byte) = k mod 256" for k by (simp add: unat_of_nat)
  have d: "n div 256 = n div 2 ^ 8" "n div 65536 div 256 = n div 16777216" "n div 256 div 256 = n div 65536" by (simp_all add: div_mult2_eq [symmetric])
  have "n div 16777216 < 256" using n by (simp add: less_mult_imp_div_less)
  then have "n mod 256 + 256 * (n div 256 mod 256 + 256 * (n div 65536 mod 256 + 256 * (n div 16777216 mod 256))) = n"
    using mod_mult_div_eq [of n 256] mod_mult_div_eq [of "n div 256" 256] mod_mult_div_eq [of "n div 65536" 256] d
    by (metis mod_less)
  moreover have "n div 16777216 mod 256 = n div 16777216" using \<open>n div 16777216 < 256\<close> by simp
  ultimately have "n mod 256 + 256 * (n div 256 mod 256 + 256 * (n div 65536 mod 256 + 256 * (n div 16777216))) = n" by simp
  then show ?thesis using \<open>n div 16777216 mod 256 = n div 16777216\<close>
    by (simp add: word_of_bytes_def enc_u32_def Let_def b)
qed

text \<open>The reader with \<open>xs\<close> behind it and \<open>ys\<close> ahead.\<close>

definition between :: "byte list \<Rightarrow> byte list \<Rightarrow> bool \<Rightarrow> nat \<Rightarrow> reader" where
  "between xs ys le base = \<lparr>r_buf = xs @ ys, r_off = length xs, r_le = le, r_base = base\<rparr>"

lemma between_off [simp]: "r_off (between xs ys le base) = length xs"
  by (simp add: between_def)

lemma slice_between: "slice (xs @ ys @ zs) (length xs) (length xs + length ys) = ys"
  by (simp add: slice_def)

lemma u8_between: "u8 (between xs (b # ys) le base) = Inr (b, between (xs @ [b]) ys le base)"
  by (simp add: u8_def between_def)

lemma align_between:
  "base \<le> length xs \<Longrightarrow> 0 < a \<Longrightarrow>
     goto_aligned a (between xs (padding a (length xs - base) @ ys) le base) =
     between (xs @ padding a (length xs - base)) ys le base"
  using align_ge [of a "length xs - base"] by (simp add: between_def goto_aligned_def padding_def)

lemma padding_multiple [simp]: "a dvd n \<Longrightarrow> padding a n = []"
  by (simp add: padding_def align_multiple)

lemma u32_between:
  assumes "base \<le> length xs" "4 dvd length xs - base" "n < 2 ^ 32"
  shows "u32 (between xs (enc_u32 le n @ ys) le base) = Inr (n, between (xs @ enc_u32 le n) ys le base)"
proof -
  have "goto_aligned 4 (between xs (enc_u32 le n @ ys) le base) = between xs (enc_u32 le n @ ys) le base"
    using align_between [of base xs 4 "enc_u32 le n @ ys" le] assms by simp
  then show ?thesis
    using slice_between [of xs "enc_u32 le n" ys] assms(3)
    by (simp add: u32_def between_def word_of_enc_u32)
qed

lemma read_string_between:
  assumes "base \<le> length xs" "4 dvd length xs - base" "length bs < 2 ^ 32"
  shows "read_string (between xs (enc_u32 le (length bs) @ bs @ 0 # ys) le base) =
    Inr (decode_replace bs, between (xs @ enc_u32 le (length bs) @ bs @ [0]) ys le base)"
  using u32_between [OF assms, of le "bs @ 0 # ys"] slice_between [of "xs @ enc_u32 le (length bs)" bs "0 # ys"]
  by (simp add: read_string_def between_def)

lemma read_signature_between:
  assumes "length bs < 256" "None \<notin> set (utf8_pieces (map unat bs))"
  shows "read_signature (between xs (of_nat (length bs) # bs @ 0 # ys) le base) =
    Inr (map the (utf8_pieces (map unat bs)), between (xs @ of_nat (length bs) # bs @ [0]) ys le base)"
proof -
  have "unat (of_nat (length bs) :: byte) = length bs" using assms(1) by (simp add: unat_of_nat)
  moreover have "slice (xs @ of_nat (length bs) # bs @ 0 # ys) (Suc (length xs)) (Suc (length xs + length bs)) = bs"
    using slice_between [of "xs @ [of_nat (length bs)]" bs "0 # ys"] by simp
  ultimately show ?thesis
    using assms(2) u8_between [of xs "of_nat (length bs)" "bs @ 0 # ys" le base]
    by (simp add: read_signature_def decode_strict_def between_def)
qed

lemma sig_pieces:
  "utf8_pieces (map unat (bytes_of (value_sig v))) = map Some (ascii (value_sig v))" "length (value_sig v) = 1"
  by (cases v; code_simp; fail | cases v; simp)+

lemma read_value_between:
  assumes "base \<le> length xs" "4 dvd length xs - base" "value_ok v"
  shows "read_value (ascii (value_sig v)) (between xs (enc_value le v @ ys) le base) =
    Inr (value_read v, between (xs @ enc_value le v) ys le base)"
proof -
  have sigs: "ascii ''u'' = [117]" "ascii ''s'' = [115]" "ascii ''o'' = [111]" "ascii ''g'' = [103]" by code_simp+
  show ?thesis
    using assms u32_between [OF assms(1,2), of _ le ys] read_string_between [OF assms(1,2), of _ le ys]
      read_signature_between [of _ xs ys le base]
    by (cases v) (simp_all add: read_value_def sigs)
qed

definition field_tail :: "bool \<Rightarrow> byte \<times> wire_value \<Rightarrow> byte list" where
  "field_tail le f = fst f # 1 # bytes_of (value_sig (snd f)) @ 0 # enc_value le (snd f)"

lemma read_field_between:
  assumes "base \<le> length xs" "8 dvd length xs - base" "value_ok (snd f)"
  shows "read_field (between xs (field_tail le f @ ys) le base) =
    Inr ((unat (fst f), value_read (snd f)), between (xs @ field_tail le f) ys le base)"
proof -
  obtain c v where f: "f = (c, v)" by fastforce
  let ?s = "bytes_of (value_sig v)"
  have p: "utf8_pieces (map unat ?s) = map Some (ascii (value_sig v))" by (rule sig_pieces)
  have "length ?s = 1" using sig_pieces(2) [of v] by (simp only: bytes_of_def length_map)
  moreover have "map the (utf8_pieces (map unat ?s)) = ascii (value_sig v)" by (simp only: p map_map) (simp add: comp_def)
  moreover have "None \<notin> set (utf8_pieces (map unat ?s))" by (simp only: p) auto
  ultimately have s: "length ?s = 1" "map the (utf8_pieces (map unat ?s)) = ascii (value_sig v)"
    "None \<notin> set (utf8_pieces (map unat ?s))" by blast+
  have sig: "read_signature (between (xs @ [c]) (1 # ?s @ 0 # enc_value le v @ ys) le base) =
      Inr (ascii (value_sig v), between (xs @ c # 1 # ?s @ [0]) (enc_value le v @ ys) le base)"
    using read_signature_between [of ?s "xs @ [c]" "enc_value le v @ ys" le base] s by simp
  have "4 dvd length (xs @ c # 1 # ?s @ [0]) - base"
  proof -
    from assms(2) have "4 dvd length xs - base" by (rule dvd_trans [rotated]) simp
    moreover have "length (xs @ c # 1 # ?s @ [0]) - base = (length xs - base) + 4" using assms(1) s(1) by simp
    ultimately show ?thesis by simp
  qed
  with read_value_between [of base "xs @ c # 1 # ?s @ [0]" v le ys] assms
  have "read_value (ascii (value_sig v)) (between (xs @ c # 1 # ?s @ [0]) (enc_value le v @ ys) le base) =
      Inr (value_read v, between (xs @ c # 1 # ?s @ 0 # enc_value le v) ys le base)" by (simp add: f)
  with sig u8_between [of xs c "1 # ?s @ 0 # enc_value le v @ ys" le base] show ?thesis
    by (simp add: read_field_def field_tail_def f)
qed

lemma read_fields_between:
  assumes "base \<le> length xs" "list_all (\<lambda>f. value_ok (snd f)) fs"
  shows "read_fields (length xs + length (enc_fields le (length xs - base) fs))
      (between xs (enc_fields le (length xs - base) fs @ ys) le base) =
    Inr (map (\<lambda>(c, v). (unat c, value_read v)) fs)"
  using assms
proof (induction fs arbitrary: xs)
  case Nil
  then show ?case by (simp add: read_fields.simps)
next
  case (Cons f fs)
  let ?k = "length xs - base"
  let ?pad = "padding 8 ?k" and ?t = "field_tail le f"
  let ?xs' = "xs @ ?pad @ ?t"
  have enc: "enc_field le ?k f = ?pad @ ?t" by (simp add: enc_field_def field_tail_def)
  have k': "length ?xs' - base = ?k + length (enc_field le ?k f)" using Cons.prems(1) by (simp add: enc)
  let ?rest = "enc_fields le (length ?xs' - base) fs"
  have buf: "enc_fields le ?k (f # fs) = ?pad @ ?t @ ?rest" by (simp only: enc_fields.simps k') (simp only: enc append_assoc)
  have t: "0 < length ?t" by (simp add: field_tail_def)
  have "length (xs @ ?pad) - base = align ?k 8"
    using Cons.prems(1) align_ge [of 8 ?k] by (simp add: padding_def)
  then have dvd: "8 dvd length (xs @ ?pad) - base" using align_bounds [of 8 ?k] by simp
  have al: "goto_aligned 8 (between xs (?pad @ ?t @ ?rest @ ys) le base) = between (xs @ ?pad) (?t @ ?rest @ ys) le base"
    using align_between [of base xs 8] Cons.prems(1) by simp
  have rf: "read_field (between (xs @ ?pad) (?t @ ?rest @ ys) le base) =
      Inr ((unat (fst f), value_read (snd f)), between ?xs' (?rest @ ys) le base)"
    using read_field_between [of base "xs @ ?pad" f le "?rest @ ys"] Cons.prems dvd by simp
  have IH: "read_fields (length ?xs' + length ?rest) (between ?xs' (?rest @ ys) le base) =
      Inr (map (\<lambda>(c, v). (unat c, value_read v)) fs)"
    using Cons.prems by (intro Cons.IH) auto
  have "length xs + length (enc_fields le ?k (f # fs)) = length ?xs' + length ?rest" by (simp only: buf) simp
  moreover have "length xs < length ?xs' + length ?rest" "\<not> length ?xs' + length ?rest \<le> length (xs @ ?pad)" using t by simp_all
  ultimately show ?case
    using IH by (subst read_fields.simps)
      (simp only: buf append_assoc between_off if_True if_False al rf Let_def sum.case prod.case bindE.simps, auto split: prod.split)
qed


section \<open>Messages\<close>

record wire_message =
  w_le :: bool
  w_type :: byte
  w_flags :: byte
  w_proto :: byte
  w_serial :: nat
  w_fields :: "(byte \<times> wire_value) list"
  w_body :: "byte list"

definition encode :: "wire_message \<Rightarrow> byte list" where
  "encode w =
     (let le = w_le w; fs = enc_fields le 16 (w_fields w)
      in [if le then 0x6C else 0x42, w_type w, w_flags w, w_proto w] @
         enc_u32 le (length (w_body w)) @ enc_u32 le (w_serial w) @ enc_u32 le (length fs) @
         fs @ padding 8 (16 + length fs) @ w_body w)"

definition wire_ok :: "wire_message \<Rightarrow> bool" where
  "wire_ok w \<longleftrightarrow> w_serial w < 2 ^ 32 \<and> length (w_body w) < 2 ^ 32 \<and>
     length (enc_fields (w_le w) 16 (w_fields w)) < 2 ^ 32 \<and> list_all (\<lambda>f. value_ok (snd f)) (w_fields w)"

text \<open>The message a reader should see.\<close>

definition message_of :: "wire_message \<Rightarrow> message" where
  "message_of w =
     (let fs = map (\<lambda>(c, v). (unat c, value_read v)) (w_fields w);
          n = length (enc_fields (w_le w) 16 (w_fields w))
      in \<lparr>m_endian = (if w_le w then 0x6C else 0x42), m_type = named MSG_TYPE (unat (w_type w)), m_flags = w_flags w,
          m_flag_names = flag_names (w_flags w), m_proto = w_proto w, m_serial = w_serial w,
          m_body_len = length (w_body w), m_fields_len = n, m_field_order = map fst fs, m_fields = fields_dict fs,
          m_body = w_body w, m_total = length (encode w)\<rparr>)"

lemma length_encode: "length (encode w) =
    align (16 + length (enc_fields (w_le w) 16 (w_fields w))) 8 + length (w_body w)"
  using align_ge [of 8 "16 + length (enc_fields (w_le w) 16 (w_fields w))"]
  by (simp add: encode_def Let_def padding_def)

lemma header_read:
  assumes "length h = 4" "(h ! 0 = 0x6C) = le" "a < 2 ^ 32" "b < 2 ^ 32" "c < 2 ^ 32"
    and buf: "buf = h @ enc_u32 le a @ enc_u32 le b @ enc_u32 le c @ t"
  shows "header_u32 buf 0 4 = a" "header_u32 buf 0 8 = b" "header_u32 buf 0 12 = c"
proof -
  have le: "(buf ! 0 = 0x6C) = le" using assms(1,2) by (simp add: buf nth_append)
  show "header_u32 buf 0 4 = a" "header_u32 buf 0 8 = b" "header_u32 buf 0 12 = c"
    unfolding header_u32_def le unfolding buf
    using slice_between [of h "enc_u32 le a" "enc_u32 le b @ enc_u32 le c @ t"]
      slice_between [of "h @ enc_u32 le a" "enc_u32 le b" "enc_u32 le c @ t"]
      slice_between [of "h @ enc_u32 le a @ enc_u32 le b" "enc_u32 le c" t] assms
    by (simp_all add: word_of_enc_u32)
qed

lemma decode_encode_0:
  assumes "wire_ok w"
  shows "decode_one (encode w @ rest) 0 = Inr (Message (message_of w), length (encode w))"
proof -
  define le where "le = w_le w"
  define F where "F = enc_fields le 16 (w_fields w)"
  define P where "P = padding 8 (16 + length F)"
  define h where "h = [if le then 0x6C else 0x42, w_type w, w_flags w, w_proto w]"
  define B where "B = w_body w"
  let ?buf = "encode w @ rest"
  let ?u = "enc_u32 le"
  have buf: "?buf = h @ ?u (length B) @ ?u (w_serial w) @ ?u (length F) @ F @ P @ B @ rest"
    by (simp add: encode_def Let_def le_def F_def P_def h_def B_def)
  have h: "length h = 4" "?buf ! 0 = (if le then 0x6C else 0x42)" "?buf ! 1 = w_type w" "?buf ! 2 = w_flags w" "?buf ! 3 = w_proto w"
    by (simp_all add: buf h_def)
  have le: "(?buf ! 0 = 0x6C) = le" by (simp add: h(2))
  have ok: "w_serial w < 2 ^ 32" "length B < 2 ^ 32" "length F < 2 ^ 32" "list_all (\<lambda>f. value_ok (snd f)) (w_fields w)"
    using assms by (simp_all add: wire_ok_def le_def F_def B_def)
  have u: "header_u32 ?buf 0 4 = length B" "header_u32 ?buf 0 8 = w_serial w" "header_u32 ?buf 0 12 = length F"
    using header_read [OF h(1) _ ok(2,1,3) buf] by (simp_all add: h_def)
  have n: "length (encode w) = align (16 + length F) 8 + length B"
    by (simp add: length_encode le_def F_def B_def)
  have big: "16 \<le> length (encode w)" using align_ge [of 8 "16 + length F"] by (simp add: n)
  have fs: "read_fields (16 + length F) (at_off ?buf le 0 16) = Inr (map (\<lambda>(c, v). (unat c, value_read v)) (w_fields w))"
  proof -
    let ?xs = "h @ ?u (length B) @ ?u (w_serial w) @ ?u (length F)"
    have "at_off ?buf le 0 16 = between ?xs (F @ P @ B @ rest) le 0" by (simp add: at_off_def between_def buf h(1))
    with read_fields_between [of 0 ?xs "w_fields w" le "P @ B @ rest"] ok(4) show ?thesis
      by (simp add: h(1) F_def)
  qed
  have body: "slice ?buf (align (16 + length F) 8) (align (16 + length F) 8 + length B) = B"
    using slice_between [of "h @ ?u (length B) @ ?u (w_serial w) @ ?u (length F) @ F @ P" B rest] align_ge [of 8 "16 + length F"]
    unfolding buf by (simp add: h(1) P_def padding_def)
  have lens: "\<not> int (length ?buf) - int 0 < 16" "\<not> int (length ?buf) - int 0 < int (align (16 + length F) 8 + length B)"
    using big by (simp_all add: n)
  have m: "message_of w = \<lparr>m_endian = (if le then 0x6C else 0x42), m_type = named MSG_TYPE (unat (w_type w)),
      m_flags = w_flags w, m_flag_names = flag_names (w_flags w), m_proto = w_proto w, m_serial = w_serial w,
      m_body_len = length B, m_fields_len = length F,
      m_field_order = map fst (map (\<lambda>(c, v). (unat c, value_read v)) (w_fields w)),
      m_fields = fields_dict (map (\<lambda>(c, v). (unat c, value_read v)) (w_fields w)), m_body = B, m_total = length (encode w)\<rparr>"
    by (simp only: message_of_def Let_def le_def F_def B_def)
  show ?thesis
    unfolding decode_one_eq [of ?buf 0] Let_def u add_0 le if_not_P [OF lens(1)] if_not_P [OF lens(2)]
    unfolding fs body h(2) h(3) h(4) h(5) bindE.simps m n ..
qed

lemma decode_encode_at:
  assumes "wire_ok w"
  shows "decode_one (pre @ encode w @ rest) (length pre) = Inr (Message (message_of w), length pre + length (encode w))"
  using decode_one_shift [of pre "encode w @ rest" 0] decode_encode_0 [OF assms, of rest] by simp

lemma stream_encode:
  "list_all wire_ok ws \<Longrightarrow>
     stream_from (pre @ concat (map encode ws)) (length pre) = Inr (map (\<lambda>w. Message (message_of w)) ws)"
proof (induction ws arbitrary: pre)
  case Nil
  then show ?case by (simp add: stream_from.simps)
next
  case (Cons w ws)
  have "0 < length (encode w)" using align_ge [of 8 "16 + length (enc_fields (w_le w) 16 (w_fields w))"]
    by (simp add: length_encode)
  moreover have "stream_from (pre @ encode w @ concat (map encode ws)) (length pre + length (encode w)) =
      Inr (map (\<lambda>w. Message (message_of w)) ws)"
    using Cons.IH [of "pre @ encode w"] Cons.prems by simp
  ultimately show ?case
    using decode_encode_at [of w pre "concat (map encode ws)"] Cons.prems by (subst dbus.stream_step) simp_all
qed

text \<open>A message cut short: what its tail says of it.\<close>

definition cut_message :: "wire_message \<Rightarrow> nat \<Rightarrow> info" where
  "cut_message w k =
     (if k < 16 then Partial (int k) 16 None
      else Partial (int k) (length (encode w)) (Some (named MSG_TYPE (unat (w_type w)), w_serial w)))"

lemma decode_cut_0:
  assumes "wire_ok w" "k < length (encode w)"
  shows "decode_one (take k (encode w)) 0 = Inr (cut_message w k, k)"
proof (cases "k < 16")
  case True
  with assms(2) show ?thesis by (simp add: decode_one_eq cut_message_def)
next
  case False
  define le where "le = w_le w"
  define F where "F = enc_fields le 16 (w_fields w)"
  define h where "h = [if le then 0x6C else 0x42, w_type w, w_flags w, w_proto w]"
  let ?H = "h @ enc_u32 le (length (w_body w)) @ enc_u32 le (w_serial w) @ enc_u32 le (length F)"
  obtain t where t: "encode w = ?H @ t"
    by (simp add: encode_def Let_def le_def F_def h_def)
  have len: "length ?H = 16" by (simp add: h_def)
  let ?t = "take (k - 16) t"
  have b: "take k (encode w) = ?H @ ?t" using False by (simp only: t take_append len) (simp add: h_def)
  let ?buf = "?H @ ?t"
  have h: "?buf ! 0 = (if le then 0x6C else 0x42)" "?buf ! 1 = w_type w" by (simp_all add: h_def)
  have le: "(?buf ! 0 = 0x6C) = le" by (simp only: h) simp
  have ok: "w_serial w < 2 ^ 32" "length (w_body w) < 2 ^ 32" "length F < 2 ^ 32"
    using assms by (simp_all add: wire_ok_def le_def F_def)
  have u: "header_u32 ?buf 0 4 = length (w_body w)" "header_u32 ?buf 0 8 = w_serial w" "header_u32 ?buf 0 12 = length F"
    using header_read [of h le, OF _ _ ok(2,1,3), of ?buf ?t] by (simp_all add: h_def)
  have n: "length (encode w) = align (16 + length F) 8 + length (w_body w)"
    by (simp add: length_encode le_def F_def)
  have "length ?buf = k" using assms(2) b by (metis length_take min.absorb2 less_imp_le)
  then have lens: "\<not> int (length ?buf) - int 0 < 16" "int (length ?buf) - int 0 < int (align (16 + length F) 8 + length (w_body w))"
    using False assms(2) n by simp_all
  show ?thesis
    unfolding b decode_one_eq [of ?buf 0] Let_def u add_0 le if_not_P [OF lens(1)] if_P [OF lens(2)]
    unfolding h(2) using False \<open>length ?buf = k\<close> by (simp only: cut_message_def if_False n) simp
qed

lemma stream_cut:
  assumes "list_all wire_ok ws" "wire_ok w" "k < length (encode w)"
  shows "decode_stream (concat (map encode ws) @ take k (encode w)) =
    Inr (map (\<lambda>w. Message (message_of w)) ws @ (if k = 0 then [] else [cut_message w k]))"
proof -
  have "stream_from (pre @ concat (map encode ws) @ take k (encode w)) (length pre) =
      Inr (map (\<lambda>w. Message (message_of w)) ws @ (if k = 0 then [] else [cut_message w k]))" for pre
    using assms(1)
  proof (induction ws arbitrary: pre)
    case Nil
    have "decode_one (pre @ take k (encode w)) (length pre) = Inr (cut_message w k, length pre + k)"
      using decode_one_shift [of pre "take k (encode w)" 0] decode_cut_0 [OF assms(2,3)] by simp
    then show ?case
      using assms(3) by (cases "k = 0") (simp_all add: stream_from.simps [of _ "length pre"] stream_from.simps [of _ "length pre + k"])
  next
    case (Cons v ws)
    have "0 < length (encode v)" using align_ge [of 8 "16 + length (enc_fields (w_le v) 16 (w_fields v))"]
      by (simp add: length_encode)
    moreover have "stream_from (pre @ encode v @ concat (map encode ws) @ take k (encode w)) (length pre + length (encode v)) =
        Inr (map (\<lambda>w. Message (message_of w)) ws @ (if k = 0 then [] else [cut_message w k]))"
      using Cons.IH [of "pre @ encode v"] Cons.prems by simp
    ultimately show ?case
      using decode_encode_at [of v pre "concat (map encode ws) @ take k (encode w)"] Cons.prems
      by (subst dbus.stream_step) simp_all
  qed
  from this [of "[]"] show ?thesis by (simp add: decode_stream_def)
qed


section \<open>Reports\<close>

lemma decode_stream_Nil_iff: "decode_stream data = Inr [] \<longleftrightarrow> data = []"
proof
  assume "decode_stream data = Inr []"
  from stream_partition [OF this] show "data = []" by auto
qed (simp add: decode_stream_def stream_from.simps)

lemma report_file_cases:
  assumes "report_file data = Inr (out, bad)"
  obtains (sasl) "is_sasl data" "bad = 0" "out = [SaslText (filter (\<lambda>l. l \<noteq> []) (split_crlf data))]"
  | (empty) "data = []" "bad = 1" "out = [DecodedNothing]"
  | (messages) ms where "\<not> is_sasl data" "data \<noteq> []" "decode_stream data = Inr ms" "bad = 0"
      "out = MessageCount (length ms) # map info_line ms"
proof (cases "is_sasl data")
  case True
  with assms sasl show ?thesis by (auto simp: report_file_def)
next
  case False
  with assms obtain ms where ms: "decode_stream data = Inr ms"
    by (auto simp: report_file_def bindE_Inr_iff)
  show ?thesis
  proof (cases "ms = []")
    case True
    with ms have "data = []" by (simp add: decode_stream_Nil_iff)
    with assms False ms True empty show ?thesis by (simp add: report_file_def)
  next
    case nonempty: False
    obtain rest where "sum_list (map info_total ms) + rest = length data" "list_ex is_partial ms \<longleftrightarrow> 0 < rest"
      by (rule stream_partition [OF ms])
    then have slack: "\<not> (int (length data) - int (sum_list (map info_total ms)) \<noteq> 0 \<and> \<not> list_ex is_partial ms)" by linarith
    have "report_file data = Inr (MessageCount (length ms) # map info_line ms, 0)"
      unfolding report_file_def if_not_P [OF False] ms bindE.simps if_not_P [OF nonempty] Let_def if_not_P [OF slack] ..
    with assms have "bad = 0" "out = MessageCount (length ms) # map info_line ms" by simp_all
    moreover have "data \<noteq> []" using decode_stream_Nil_iff [of data] nonempty ms by simp
    ultimately show ?thesis using False ms messages by blast
  qed
qed

section \<open>Properties\<close>

definition sample_message :: wire_message where
  "sample_message = \<lparr>w_le = True, w_type = 1, w_flags = 0, w_proto = 1, w_serial = 7,
     w_fields = [(1, WirePath (bytes_of ''/org'')), (3, WireString (bytes_of ''Ping'')), (8, WireSig (bytes_of ''u''))],
     w_body = [42, 0, 0, 0]\<rparr>"

definition sample_reply :: wire_message where
  "sample_reply = \<lparr>w_le = False, w_type = 2, w_flags = 1, w_proto = 1, w_serial = 9,
     w_fields = [(5, WireUInt 7)], w_body = []\<rparr>"

lemma utf8_u: "utf8_pieces (map unat (bytes_of ''u'')) = [Some 117]"
  using sig_pieces(1) [of "WireUInt 0"] by (simp add: ascii_def)

lemma sample_ok: "list_all wire_ok [sample_message, sample_reply]"
proof -
  have "length (enc_fields True 16 (w_fields sample_message)) = 39" "length (enc_fields False 16 (w_fields sample_reply)) = 8"
    by (simp_all add: sample_message_def sample_reply_def enc_field_def padding_def align_def bytes_of_def)
  then show ?thesis
    by (simp add: wire_ok_def, simp add: sample_message_def sample_reply_def utf8_u, simp add: bytes_of_def)
qed

lemma sample_length: "16 < length (encode sample_message)" "16 < length (encode sample_reply)"
  using align_ge [of 8 "16 + length (enc_fields (w_le sample_message) 16 (w_fields sample_message))"]
    align_ge [of 8 "16 + length (enc_fields (w_le sample_reply) 16 (w_fields sample_reply))"]
  by (auto simp: length_encode) (simp_all add: sample_message_def sample_reply_def enc_field_def)

text \<open>\<^verbatim>\<open>align\<close> moves an offset to the next multiple: the result divides, does not
  go back, and no smaller multiple lies at or after the offset.
\<close>

theorem align_least:
  assumes "0 < a"
  shows "a dvd align n a \<and> n \<le> align n a \<and> (\<forall>m. a dvd m \<and> n \<le> m \<longrightarrow> align n a \<le> m)"
proof (intro conjI allI impI)
  fix m
  assume m: "a dvd m \<and> n \<le> m"
  show "align n a \<le> m"
  proof (rule ccontr)
    assume "\<not> align n a \<le> m"
    with m align_bounds [OF assms, of n] have "align n a = m" by (intro align_unique [OF assms]) auto
    with \<open>\<not> align n a \<le> m\<close> show False by simp
  qed
qed (use align_bounds [OF assms, of n] align_ge [OF assms, of n] in auto)

lemma align_least_witness: "8 dvd align 13 8 \<and> align 13 8 = 16"
  using align_least [of 8 13] by (simp add: align_def)

text \<open>C9: what a conforming sender puts on the wire is read back. Messages laid out as the
  specification says, in either byte order and back to back in one buffer, decode to exactly
  those messages. When a read ends inside a further message, the messages before it decode
  the same and the last entry tells how many bytes of it are there and, once its fixed header
  is in, its whole length, type and serial; those bytes, in front of the next read, decode to
  the message that was cut.
\<close>

theorem decode_stream_reads_back:
  assumes "list_all wire_ok ws" "wire_ok w" "list_all wire_ok vs" "0 < k" "k < length (encode w)"
  shows "decode_stream (concat (map encode ws) @ take k (encode w)) =
      Inr (map (\<lambda>w. Message (message_of w)) ws @ [cut_message w k]) \<and>
    decode_stream (take k (encode w) @ drop k (encode w) @ concat (map encode vs)) =
      Inr (map (\<lambda>w. Message (message_of w)) (w # vs))"
proof
  show "decode_stream (concat (map encode ws) @ take k (encode w)) =
      Inr (map (\<lambda>w. Message (message_of w)) ws @ [cut_message w k])"
    using stream_cut [OF assms(1,2,5)] assms(4) by simp
  have "take k (encode w) @ drop k (encode w) @ concat (map encode vs) = concat (map encode (w # vs))"
    by (simp only: append_assoc [symmetric] append_take_drop_id) simp
  then show "decode_stream (take k (encode w) @ drop k (encode w) @ concat (map encode vs)) =
      Inr (map (\<lambda>w. Message (message_of w)) (w # vs))"
    using stream_encode [of "w # vs" "[]"] assms(2,3) by (simp only: decode_stream_def list_all_iff list.set ball_simps append_Nil list.size simp_thms)
qed

lemma decode_stream_reads_back_witness:
  "decode_stream (concat (map encode [sample_message]) @ take 16 (encode sample_reply)) =
     Inr (map (\<lambda>w. Message (message_of w)) [sample_message] @ [cut_message sample_reply 16])"
  using decode_stream_reads_back [of "[sample_message]" sample_reply "[sample_message]" 16] sample_ok sample_length
  by simp

text \<open>C10: a decoded buffer is accounted for byte by byte. The lengths of its messages and of
  what is left add up to the buffer, only the last entry can be incomplete, there is one
  exactly when bytes are left, and it counts them. So the \<^verbatim>\<open>main\<close> of the tool can carry
  the tail into its next read.
\<close>

theorem decode_stream_accounts:
  assumes "decode_stream buf = Inr ms"
  shows "\<exists>rest. sum_list (map info_total ms) + rest = length buf \<and> list_all (\<lambda>m. \<not> is_partial m) (butlast ms) \<and>
    (list_ex is_partial ms \<longleftrightarrow> 0 < rest) \<and> (0 < rest \<longrightarrow> (\<exists>n h. last ms = Partial (int rest) n h))"
  by (rule stream_partition [OF assms]) blast

lemma decode_stream_accounts_witness:
  "\<exists>rest. sum_list (map info_total (map (\<lambda>w. Message (message_of w)) [sample_message, sample_reply])) + rest =
     length (encode sample_message @ encode sample_reply) \<and> rest = 0"
  using decode_stream_accounts [of "concat (map encode [sample_message, sample_reply])"]
    stream_encode [OF sample_ok, of "[]"] by (auto simp: decode_stream_def)

text \<open>C35: how much a read can decode to. Every complete message takes at least its fixed header and
  has the size its header gives, with at most one header field for each eight bytes of them, so a
  buffer holds at most one message for each sixteen of its bytes and one entry for what is left.\<close>

theorem decode_stream_bounded:
  assumes "decode_stream buf = Inr ms"
  shows "16 * length (filter (\<lambda>m. \<not> is_partial m) ms) \<le> length buf \<and> length ms \<le> length buf div 16 + 1 \<and>
    (\<forall>x. Message x \<in> set ms \<longrightarrow>
      m_total x = align (16 + m_fields_len x) 8 + length (m_body x) \<and> m_total x \<le> length buf \<and>
      8 * length (m_field_order x) < m_fields_len x + 8 \<and> length (m_fields x) \<le> length (m_field_order x))"
proof -
  obtain rest where acc: "sum_list (map info_total ms) + rest = length buf" "list_all (\<lambda>m. \<not> is_partial m) (butlast ms)"
    by (rule stream_partition [OF assms])
  have all: "sized x" if "Message x \<in> set ms" for x using stream_sized [OF assms that] .
  then have "\<forall>x. Message x \<in> set ms \<longrightarrow> 16 \<le> m_total x" using sized_total by force
  from totals_ge [OF this] acc(1) have 16: "16 * length (filter (\<lambda>m. \<not> is_partial m) ms) \<le> length buf" by simp
  have "length ms \<le> length (filter (\<lambda>m. \<not> is_partial m) ms) + 1"
  proof (cases ms rule: rev_cases)
    case (snoc ys y)
    with acc(2) have "filter (\<lambda>m. \<not> is_partial m) ys = ys" by (simp add: list_all_iff filter_id_conv)
    with snoc show ?thesis by simp
  qed simp
  moreover have "length (filter (\<lambda>m. \<not> is_partial m) ms) \<le> length buf div 16" using 16 by simp
  moreover have "m_total x \<le> length buf" if "Message x \<in> set ms" for x
  proof -
    from that have "m_total x \<le> sum_list (map info_total ms)" using member_le_sum_list [of "m_total x" "map info_total ms"] by force
    with acc(1) show ?thesis by simp
  qed
  ultimately show ?thesis using 16 all by (auto simp: sized_def)
qed

lemma decode_stream_bounded_witness:
  "16 * length (filter (\<lambda>m. \<not> is_partial m) (map (\<lambda>w. Message (message_of w)) [sample_message, sample_reply])) \<le>
     length (encode sample_message @ encode sample_reply)"
  using decode_stream_bounded [of "concat (map encode [sample_message, sample_reply])"]
    stream_encode [OF sample_ok, of "[]"] by (auto simp: decode_stream_def)

text \<open>C11: alignment is relative to the message. Whatever stands before it in the buffer, a
  message decodes to the same value or the same error, and ends the same distance on.
\<close>

theorem decode_one_anywhere:
  "decode_one (p @ buf) (length p + off) = bindE (decode_one buf off) (\<lambda>(m, nx). Inr (m, length p + nx))"
  by (rule decode_one_shift)

text \<open>C12: the decoder raises only over header fields of a message that is all there. A short
  buffer is never an exception, and neither is a message without header fields.
\<close>

theorem decode_error_in_fields:
  assumes "decode_one buf off = Inl e"
  shows "off + align (16 + header_u32 buf off 12) 8 + header_u32 buf off 4 \<le> length buf \<and>
    0 < header_u32 buf off 12 \<and>
    read_fields (off + 16 + header_u32 buf off 12) (at_off buf (buf ! off = 0x6C) off 16) = Inl e"
proof -
  from assms have "\<not> int (length buf) - int off < 16"
    "\<not> int (length buf) - int off < int (align (16 + header_u32 buf off 12) 8 + header_u32 buf off 4)"
    and e: "read_fields (off + 16 + header_u32 buf off 12) (at_off buf (buf ! off = 0x6C) off 16) = Inl e"
    by (auto simp: decode_one_eq Let_def bindE_Inl_iff split: if_splits)
  moreover have "0 < header_u32 buf off 12"
  proof (rule ccontr)
    assume "\<not> 0 < header_u32 buf off 12"
    with e show False by (simp add: read_fields.simps)
  qed
  ultimately show ?thesis by simp
qed

definition bad_signature :: "byte list" where
  "bad_signature = [0x6C, 1, 0, 1] @ [0, 0, 0, 0] @ [1, 0, 0, 0] @ [8, 0, 0, 0] @ [1, 1, 0xFF, 0, 0, 0, 0, 0]"

lemma decode_error_in_fields_witness:
  "decode_one bad_signature 0 = Inl UnicodeError \<and> 0 < header_u32 bad_signature 0 12"
proof -
  have p: "utf8_pieces [255] = [None]" by (simp add: utf8_pieces.simps [of "[255]"] utf8_next_def)
  have "decode_one bad_signature 0 = Inl UnicodeError"
    by (simp add: bad_signature_def decode_one_eq header_u32_def slice_def word_of_bytes_def align_def Let_def at_off_def
      read_fields.simps goto_aligned_def read_field_def u8_def read_signature_def decode_strict_def p)
  with decode_error_in_fields [of bad_signature 0] show ?thesis by simp
qed

text \<open>C13: the report counts a file as bad only when it is empty, and its \<^verbatim>\<open>trailing bytes\<close>
  line is never printed: a run that ends without an exception leaves no byte of a non-empty
  file unaccounted for, with one line per message and one for the tail.
\<close>

theorem report_file_status:
  assumes "report_file data = Inr (out, bad)"
  shows "bad = (if data = [] then 1 else 0) \<and> (\<forall>s. TrailingBytes s \<notin> set out) \<and>
    (\<not> is_sasl data \<and> data \<noteq> [] \<longrightarrow>
      (\<exists>ms. decode_stream data = Inr ms \<and> out = MessageCount (length ms) # map info_line ms))"
proof -
  have no_slack: "TrailingBytes s \<notin> set (map info_line ms)" for s ms
    by (auto simp: info_line_def split: info.splits)
  from assms show ?thesis
  proof (cases rule: report_file_cases)
    case sasl
    then have "data \<noteq> []" by (auto simp: is_sasl_def bytes_of_def)
    with sasl show ?thesis by simp
  next
    case empty
    then show ?thesis by simp
  next
    case (messages ms)
    with no_slack show ?thesis by auto
  qed
qed

lemma report_file_status_witness: "report_file [] = Inr ([DecodedNothing], 1) \<and> (1 :: nat) = (if ([] :: byte list) = [] then 1 else 0)"
proof -
  have "report_file [] = Inr ([DecodedNothing], 1)"
    by (simp add: report_file_def is_sasl_def bytes_of_def decode_stream_def stream_from.simps)
  with report_file_status [of "[]"] show ?thesis by simp
qed

end
