(* ===== verification/DbusTapSpec.thy ===== *)
theory DbusTapSpec
  imports DbusTap DbusDecodeSpec
begin

text \<open>
  What the tap promises: its dump can be read back, its connections stay paired and open, a
  capture holds exactly what its socket sent, what it forwards is what it received as long as
  the sends take it, and every descriptor it was handed is closed.
\<close>


section \<open>Reading a dump back\<close>

lemma join_with_Cons: "ws \<noteq> [] \<Longrightarrow> join_with sep (w # ws) = w @ sep @ join_with sep ws"
  by (cases ws) auto

lemma split_join:
  "ws \<noteq> [] \<Longrightarrow> (\<forall>w \<in> set ws. d \<notin> set w) \<Longrightarrow> split_char d (join_with [d] ws) = ws"
proof (induction ws)
  case (Cons w ws)
  then have "\<forall>c \<in> set w. \<not> d = c" by auto
  with Cons show ?case
    by (cases "ws = []") (simp_all add: split_char_def join_with_Cons split_by_no_sep [of w "(=) d"] split_by_append_sep [of "(=) d" d w])
qed simp

lemma split_ws_blanks: "split_ws (replicate k SP) = []"
  by (induction k) (simp_all add: split_ws_def is_space_def)

lemma split_ws_join:
  "(\<forall>w \<in> set ws. w \<noteq> [] \<and> (\<forall>c \<in> set w. \<not> is_space c)) \<Longrightarrow>
     split_ws (join_with [SP] ws @ replicate k SP) = ws"
proof (induction ws)
  case Nil
  then show ?case by (simp add: split_ws_blanks)
next
  case (Cons w ws)
  have sp: "is_space SP" by (simp add: is_space_def)
  show ?case
  proof (cases "ws = []")
    case True
    then show ?thesis
      using Cons.prems split_ws_Cons [OF _ _ sp, of w "replicate (k - 1) SP"]
      by (cases k) (simp_all add: split_ws_single split_ws_blanks)
  next
    case False
    with Cons sp show ?thesis by (simp add: join_with_Cons split_ws_Cons)
  qed
qed

lemma hex_digit_in: "d < 16 \<Longrightarrow> hex_digit d \<in> set ''0123456789abcdef''"
  unfolding hex_digit_def by (rule nth_mem) simp

lemma hex_digit_not_space: "d < 16 \<Longrightarrow> \<not> is_space (hex_digit d)"
  using hex_digit_in [of d] by (auto simp: is_space_def)

lemma hex_nat_clean: "\<forall>c \<in> set (hex_nat n). \<not> is_space c"
proof (induction n rule: hex_nat.induct)
  case (1 n)
  then show ?case by (subst hex_nat.simps) (auto simp: hex_digit_not_space)
qed

lemma hex8_clean: "c \<in> set (hex8 n) \<Longrightarrow> \<not> is_space c"
  using hex_nat_clean [of n] by (auto simp: hex8_def is_space_def)

definition hex_value :: "char \<Rightarrow> nat" where
  "hex_value c = (if is_digit09 c then of_char c - 48 else of_char c - 87)"

lemma hex_value_digit: "d < 16 \<Longrightarrow> hex_value (hex_digit d) = d"
proof -
  have "\<forall>d \<in> set [0..<16]. hex_value (hex_digit d) = d" by code_simp
  then show "d < 16 \<Longrightarrow> hex_value (hex_digit d) = d" by simp
qed

definition undump_word :: "string \<Rightarrow> byte" where
  "undump_word w = of_nat (16 * hex_value (w ! 0) + hex_value (w ! 1))"

lemma byte_bound: "unat (b :: byte) < 256"
  using unsigned_less [of b, where ?'a = nat] by simp

lemma undump_hex2: "undump_word (hex2 b) = b"
proof -
  note b = byte_bound [of b]
  from b have "unat b div 16 < 16" "unat b mod 16 < 16" by auto
  then show ?thesis by (simp add: undump_word_def hex2_def hex_value_digit)
qed

lemma hex2_clean: "hex2 b \<noteq> [] \<and> (\<forall>c \<in> set (hex2 b). \<not> is_space c)"
proof -
  note b = byte_bound [of b]
  from b have "unat b div 16 < 16" "unat b mod 16 < 16" by auto
  then show ?thesis by (simp add: hex2_def hex_digit_not_space)
qed

lemma length_join_hex: "length (join_with [SP] (map hex2 bs)) = 3 * length bs - 1"
proof (induction bs)
  case (Cons b bs)
  then show ?case by (cases "bs = []") (auto simp: join_with_Cons hex2_def)
qed simp

text \<open>The bytes a line of the dump shows, and a whole dump.\<close>

definition undump_line :: "string \<Rightarrow> string \<Rightarrow> byte list" where
  "undump_line indent s =
     map undump_word (split_ws (take 47 (drop 2 (dropWhile (\<lambda>c. c \<noteq> SP) (drop (length indent) s)))))"

definition undump :: "string \<Rightarrow> string \<Rightarrow> byte list" where
  "undump indent s = (if s = [] then [] else concat (map (undump_line indent) (split_char LF s)))"

lemma undump_dump_line: "undump_line indent (dump_line indent data off) = slice data off (off + 16)"
proof -
  let ?chunk = "slice data off (off + 16)"
  let ?hex = "join_with [SP] (map hex2 ?chunk)"
  have len: "length ?hex \<le> 47" by (simp add: length_join_hex length_slice)
  have hd: "dropWhile (\<lambda>c. c \<noteq> SP) (hex8 off @ SP # s) = SP # s" for s
  proof -
    have "\<forall>c \<in> set (hex8 off). c \<noteq> SP" using hex8_clean [of _ off] by (force simp: is_space_def)
    then show ?thesis by (simp add: dropWhile_append2)
  qed
  have "undump_line indent (dump_line indent data off) = map undump_word (split_ws (ljust 47 ?hex))"
    using len by (simp add: undump_line_def dump_line_def Let_def hd ljust_def)
  also have "split_ws (ljust 47 ?hex) = map hex2 ?chunk"
    unfolding ljust_def by (rule split_ws_join) (simp add: hex2_clean)
  finally show ?thesis by (simp add: undump_hex2 comp_def)
qed

lemma dump_line_no_LF: "LF \<notin> set indent \<Longrightarrow> LF \<notin> set (dump_line indent data off)"
proof -
  assume "LF \<notin> set indent"
  moreover have sp: "is_space LF" by (simp add: is_space_def)
  moreover have "LF \<notin> set (hex8 off)" using hex8_clean sp by blast
  moreover have "LF \<noteq> printable b" for b
  proof (cases "32 \<le> b \<and> b < 127")
    case True
    then have "32 \<le> unat b" "unat b < 127" by (simp_all add: word_le_nat_alt word_less_nat_alt)
    have p: "printable b = char_of (unat b)" using True by (simp add: printable_def)
    show ?thesis
    proof
      assume "LF = printable b"
      then have "of_char LF = (of_char (char_of (unat b) :: char) :: nat)" by (simp only: p)
      with \<open>unat b < 127\<close> \<open>32 \<le> unat b\<close> show False by simp
    qed
  qed (auto simp: printable_def)
  moreover have "LF \<notin> set (join_with [SP] (map hex2 bs))" for bs
  proof (induction bs)
    case (Cons b bs)
    then show ?case using hex2_clean [of b] sp by (cases "bs = []") (auto simp: join_with_Cons)
  qed simp
  ultimately show ?thesis by (auto simp: dump_line_def Let_def ljust_def)
qed

lemma concat_slices: "concat (map (\<lambda>i. slice s (k * i) (k * i + k)) [0..<n]) = take (k * n) s"
proof (induction n)
  case (Suc n)
  then show ?case by (simp add: slice_def take_add [symmetric] add.commute)
qed simp

lemma undump_hexdump: "LF \<notin> set indent \<Longrightarrow> undump indent (hexdump data indent) = data"
proof (cases "data = []")
  case False
  assume indent: "LF \<notin> set indent"
  let ?n = "(length data + 15) div 16"
  let ?lines = "map (\<lambda>i. dump_line indent data (16 * i)) [0..<?n]"
  have "0 < length data" using False by simp
  then have n: "0 < ?n" "length data \<le> 16 * ?n" by (simp_all add: div_greater_zero_iff Suc_le_eq)
  then have ne: "?lines \<noteq> []" by simp
  have sp: "split_char LF (hexdump data indent) = ?lines"
    unfolding hexdump_def using ne by (rule split_join) (auto simp: dump_line_no_LF indent)
  have "hexdump data indent \<noteq> []"
  proof
    assume "hexdump data indent = []"
    with sp have "?lines = [[]]" by (simp add: split_char_def)
    then have "dump_line indent data 0 = []" using n(1) by (cases ?n) (auto simp: upt_rec)
    then show False by (simp add: dump_line_def Let_def)
  qed
  with n(2) show ?thesis
    by (simp add: undump_def sp comp_def undump_dump_line concat_slices)
qed (simp add: hexdump_def undump_def)

section \<open>Names of captures\<close>

definition LABELS :: "string set" where
  "LABELS = {''client-to-bus'', ''bus-to-client''}"

lemma cap_path_inj:
  assumes "cap_path dir i l e = cap_path dir i' l' e'" "l \<in> LABELS" "l' \<in> LABELS" "e \<in> {''.bin'', ''.txt''}" "e' \<in> {''.bin'', ''.txt''}"
  shows "i = i' \<and> l = l' \<and> e = e'"
proof -
  have name: "takeWhile is_digit09 (dec_nat n @ ''-'' @ s) = dec_nat n" for n s
    using dec_nat_digits [of n] by (simp add: takeWhile_append2 is_digit09_def)
  have rest: "dropWhile is_digit09 (dec_nat n @ ''-'' @ s) = ''-'' @ s" for n s
    using dec_nat_digits [of n] by (simp add: dropWhile_append2 is_digit09_def)
  from assms(1) have eq: "dec_nat i @ ''-'' @ l @ e = dec_nat i' @ ''-'' @ l' @ e'"
    by (auto simp: cap_path_def path_join_def starts_with_def split: if_splits)
  from arg_cong [OF eq, of "takeWhile is_digit09"] have "i = i'" by (auto simp only: name dest: dec_nat_inj)
  moreover from arg_cong [OF eq, of "dropWhile is_digit09"] have "l @ e = l' @ e'" by (simp only: rest) simp
  ultimately show ?thesis using assms(2-) by (auto simp: LABELS_def)
qed


section \<open>What one capture holds\<close>

text \<open>The receives of a socket: data, ancillary messages, flags and what became of the send.\<close>

type_synonym reading = "byte list \<times> cmsg list \<times> nat \<times> sending"

definition reads :: "event list \<Rightarrow> sock \<Rightarrow> reading list" where
  "reads es p = concat (map (\<lambda>e. case e of Accept cli up r \<Rightarrow> []
     | Readable q r s \<Rightarrow> (case r of RecvError \<Rightarrow> [] | Received d a f \<Rightarrow> if q = p then [(d, a, f, s)] else [])) es)"

definition data_of :: "reading list \<Rightarrow> byte list" where
  "data_of rs = concat (map fst rs)"

definition chunks_of :: "reading list \<Rightarrow> nat" where
  "chunks_of rs = length (filter (\<lambda>r. fst r \<noteq> []) rs)"

lemma reads_simps [simp]:
  "reads [] p = []" "reads (es @ [Accept cli up r]) p = reads es p" "reads (es @ [Readable q RecvError s]) p = reads es p"
  "reads (es @ [Readable q (Received d a f) s]) p = reads es p @ (if q = p then [(d, a, f, s)] else [])"
  by (simp_all add: reads_def)

lemma of_readings [simp]:
  "data_of [] = []" "chunks_of [] = 0" "data_of (rs @ [r]) = data_of rs @ fst r"
  "chunks_of (rs @ [r]) = chunks_of rs + (if fst r = [] then 0 else 1)"
  by (simp_all add: data_of_def chunks_of_def)

text \<open>What a receive adds to the text of a capture, when so many chunks and bytes came before.\<close>

definition reading_text :: "nat \<Rightarrow> string \<Rightarrow> nat \<Rightarrow> nat \<Rightarrow> reading \<Rightarrow> string" where
  "reading_text conn label chunk offset r =
     (case r of (d, a, f, s) \<Rightarrow>
        (if and f MSG_CTRUNC \<noteq> 0
         then ''!!! '' @ ctrunc_text \<lparr>cap_bin = [], cap_txt = [], cap_label = label, cap_conn = conn, cap_chunk = 0, cap_total = 0\<rparr>
                @ '' !!!'' @ [LF, LF] else []) @
        (if d \<noteq> [] then chunk_entry (chunk + 1) offset d else []) @
        (if a \<noteq> [] then anc_entry a f else []))"

fun transcript :: "nat \<Rightarrow> string \<Rightarrow> nat \<Rightarrow> nat \<Rightarrow> reading list \<Rightarrow> string" where
  "transcript conn label chunk offset [] = []"
| "transcript conn label chunk offset (r # rs) = reading_text conn label chunk offset r @
     transcript conn label (chunk + (if fst r = [] then 0 else 1)) (offset + length (fst r)) rs"

lemma transcript_snoc:
  "transcript conn label chunk offset (rs @ [r]) = transcript conn label chunk offset rs @
     reading_text conn label (chunk + chunks_of rs) (offset + length (data_of rs)) r"
  by (induction rs arbitrary: chunk offset) (auto simp: chunks_of_def data_of_def add.assoc)

definition holds :: "string \<Rightarrow> files \<Rightarrow> capture \<Rightarrow> reading list \<Rightarrow> bool" where
  "holds dir fs c rs \<longleftrightarrow>
     cap_bin c = cap_path dir (cap_conn c) (cap_label c) ''.bin'' \<and> cap_txt c = cap_path dir (cap_conn c) (cap_label c) ''.txt'' \<and>
     fs (cap_bin c) = Some (data_of rs) \<and> cap_total c = length (data_of rs) \<and> cap_chunk c = chunks_of rs \<and>
     fs (cap_txt c) = Some (bytes_of (txt_header (cap_label c) @ transcript (cap_conn c) (cap_label c) 0 0 rs))"

lemma bytes_of_append [simp]: "bytes_of (s @ t) = bytes_of s @ bytes_of t" "bytes_of [] = []"
  by (simp_all add: bytes_of_def)

text \<open>The laws of the files a capture appends to.\<close>

locale append_store =
  fixes put :: "'k \<Rightarrow> 'b list \<Rightarrow> 's \<Rightarrow> 's" and content :: "'s \<Rightarrow> 'k \<Rightarrow> 'b list option"
  assumes same: "content s k = Some old \<Longrightarrow> content (put k d s) k = Some (old @ d)"
    and other: "k' \<noteq> k \<Longrightarrow> content (put k d s) k' = content s k'"
begin

lemma puts_same:
  "content s k = Some old \<Longrightarrow> content (fold (\<lambda>(k', d). put k' d) ps s) k =
     Some (old @ concat (map (\<lambda>(k', d). if k' = k then d else []) ps))"
proof (induction ps arbitrary: s old)
  case (Cons p ps)
  obtain k' d where p: "p = (k', d)" by fastforce
  show ?case
  proof (cases "k' = k")
    case True
    then show ?thesis using Cons.IH [OF same [OF Cons.prems, of d]] by (simp add: p)
  next
    case False
    have "content (put k' d s) k = Some old" using other [of k k' d s] False Cons.prems by simp
    from Cons.IH [OF this] False show ?thesis by (simp add: p)
  qed
qed simp

lemma puts_other: "(\<forall>p \<in> set ps. fst p \<noteq> k) \<Longrightarrow> content (fold (\<lambda>(k', d). put k' d) ps s) k = content s k"
  by (induction ps arbitrary: s) (auto simp: other)

end

interpretation disk: append_store append_file "\<lambda>fs. fs"
  by unfold_locales (auto simp: append_file_def)

text \<open>The appends of one turn, and the capture after it.\<close>

definition turn_puts :: "capture \<Rightarrow> reading \<Rightarrow> (string \<times> byte list) list" where
  "turn_puts c r =
     (case r of (d, a, f, s) \<Rightarrow>
        (if and f MSG_CTRUNC \<noteq> 0 then [(cap_txt c, bytes_of (''!!! '' @ ctrunc_text c @ '' !!!'' @ [LF, LF]))] else []) @
        (if d \<noteq> [] then [(cap_bin c, d), (cap_txt c, bytes_of (chunk_entry (cap_chunk c + 1) (cap_total c) d))] else []) @
        (if a \<noteq> [] then [(cap_txt c, bytes_of (anc_entry a f))] else []))"

definition turn_capture :: "capture \<Rightarrow> byte list \<Rightarrow> capture" where
  "turn_capture c d =
     (if d = [] then c else c\<lparr>cap_chunk := cap_chunk c + 1, cap_total := cap_total c + length d\<rparr>)"

definition turn_files :: "capture \<Rightarrow> reading \<Rightarrow> files \<Rightarrow> files" where
  "turn_files c r fs = fold (\<lambda>(k, d). append_file k d) (turn_puts c r) fs"

lemma turn_capture_simps [simp]:
  "cap_bin (turn_capture c d) = cap_bin c" "cap_txt (turn_capture c d) = cap_txt c"
  "cap_label (turn_capture c d) = cap_label c" "cap_conn (turn_capture c d) = cap_conn c"
  "cap_chunk (turn_capture c d) = cap_chunk c + (if d = [] then 0 else 1)"
  "cap_total (turn_capture c d) = cap_total c + length d"
  by (simp_all add: turn_capture_def)

lemma turn_puts_paths: "p \<in> set (turn_puts c r) \<Longrightarrow> fst p \<in> {cap_bin c, cap_txt c}"
  by (auto simp: turn_puts_def split: prod.splits if_splits)

lemma turn_files_other: "k \<noteq> cap_bin c \<Longrightarrow> k \<noteq> cap_txt c \<Longrightarrow> turn_files c r fs k = fs k"
  unfolding turn_files_def by (rule disk.puts_other) (use turn_puts_paths in fastforce)

lemma ctrunc_text_static: "ctrunc_text c =
    ctrunc_text \<lparr>cap_bin = [], cap_txt = [], cap_label = cap_label c, cap_conn = cap_conn c, cap_chunk = 0, cap_total = 0\<rparr>"
  by (simp add: ctrunc_text_def)

lemma holds_turn:
  assumes "holds dir fs c rs" "cap_label c \<in> LABELS"
  shows "holds dir (turn_files c r fs) (turn_capture c (fst r)) (rs @ [r])"
proof -
  obtain d a f s where r: "r = (d, a, f, s)" by (cases r) auto
  have ne: "cap_bin c \<noteq> cap_txt c"
    using assms cap_path_inj [of dir "cap_conn c" "cap_label c" "''.bin''" "cap_conn c" "cap_label c" "''.txt''"]
    by (auto simp: holds_def)
  have bin: "concat (map (\<lambda>(k, x). if k = cap_bin c then x else []) (turn_puts c r)) = d"
    using ne by (simp add: turn_puts_def r)
  have tx: "concat (map (\<lambda>(k, x). if k = cap_txt c then x else []) (turn_puts c r)) =
      bytes_of (reading_text (cap_conn c) (cap_label c) (cap_chunk c) (cap_total c) r)"
    using ne by (simp add: turn_puts_def r reading_text_def ctrunc_text_static [of c])
  from assms(1) have "fs (cap_bin c) = Some (data_of rs)"
    "fs (cap_txt c) = Some (bytes_of (txt_header (cap_label c) @ transcript (cap_conn c) (cap_label c) 0 0 rs))"
    unfolding holds_def by blast+
  from disk.puts_same [of fs "cap_bin c", OF this(1), of "turn_puts c r"]
    disk.puts_same [of fs "cap_txt c", OF this(2), of "turn_puts c r"]
  have "turn_files c r fs (cap_bin c) = Some (data_of rs @ d)"
    "turn_files c r fs (cap_txt c) = Some (bytes_of (txt_header (cap_label c) @ transcript (cap_conn c) (cap_label c) 0 0 rs) @
       bytes_of (reading_text (cap_conn c) (cap_label c) (cap_chunk c) (cap_total c) r))"
    unfolding turn_files_def bin tx by simp_all
  with assms(1) show ?thesis by (simp add: holds_def transcript_snoc r)
qed

section \<open>Pairs of sockets\<close>

text \<open>A connection's ends: the other socket, the number and the label of the capture.\<close>

definition ends :: "tap \<Rightarrow> sock \<rightharpoonup> sock \<times> nat \<times> string" where
  "ends st p = map_option (\<lambda>(q, c). (q, cap_conn c, cap_label c)) (t_conns st p)"

definition paired :: "(sock \<rightharpoonup> sock \<times> nat \<times> string) \<Rightarrow> nat \<Rightarrow> bool" where
  "paired E n \<longleftrightarrow>
     (\<forall>p q i l. E p = Some (q, i, l) \<longrightarrow>
        p \<noteq> q \<and> i \<le> n \<and> l \<in> LABELS \<and> (\<exists>l'. E q = Some (p, i, l') \<and> l' \<noteq> l)) \<and>
     (\<forall>p p' q q' i l. E p = Some (q, i, l) \<longrightarrow> E p' = Some (q', i, l) \<longrightarrow> p = p')"

lemma pairedD:
  assumes "paired E n" "E p = Some (q, i, l)"
  shows "p \<noteq> q" "i \<le> n" "l \<in> LABELS" "\<exists>l'. E q = Some (p, i, l') \<and> l' \<noteq> l" "E p' = Some (q', i, l) \<Longrightarrow> p' = p"
  using assms unfolding paired_def by blast+

lemma paired_accept:
  assumes "paired E n" "E cli = None" "E up = None" "cli \<noteq> up"
  shows "paired (E(cli \<mapsto> (up, n + 1, ''client-to-bus''), up \<mapsto> (cli, n + 1, ''bus-to-client''))) (n + 1)"
proof -
  let ?E = "E(cli \<mapsto> (up, n + 1, ''client-to-bus''), up \<mapsto> (cli, n + 1, ''bus-to-client''))"
  have cases: "(p = cli \<and> q = up \<and> i = n + 1 \<and> l = ''client-to-bus'') \<or> (p = up \<and> q = cli \<and> i = n + 1 \<and> l = ''bus-to-client'') \<or>
      (p \<noteq> cli \<and> p \<noteq> up \<and> q \<noteq> cli \<and> q \<noteq> up \<and> i \<le> n \<and> E p = Some (q, i, l))" if "?E p = Some (q, i, l)" for p q i l
  proof (cases "p = cli \<or> p = up")
    case True
    with that assms(4) show ?thesis by auto
  next
    case False
    with that have E: "E p = Some (q, i, l)" by simp
    from pairedD(4) [OF assms(1) E] have "E q \<noteq> None" by auto
    with E False pairedD(2) [OF assms(1) E] assms(2,3) show ?thesis by auto
  qed
  show ?thesis
    unfolding paired_def
  proof (intro conjI allI impI)
    fix p q i l
    assume E: "?E p = Some (q, i, l)"
    show "p \<noteq> q" "i \<le> n + 1" "l \<in> LABELS" using cases [OF E] pairedD(1-3) [OF assms(1), of p q i l] assms(4) by (elim disjE conjE; simp add: LABELS_def)+
    show "\<exists>l'. ?E q = Some (p, i, l') \<and> l' \<noteq> l"
      using cases [OF E] assms(4) pairedD(4) [OF assms(1), of p q i l] by (elim disjE conjE) simp_all
  next
    fix p p' q q' i l
    assume "?E p = Some (q, i, l)" "?E p' = Some (q', i, l)"
    from cases [OF this(1)] cases [OF this(2)] show "p = p'"
      using pairedD(5) [OF assms(1), of p q i l p' q'] by (elim disjE conjE) simp_all
  qed
qed

lemma paired_drop:
  assumes "paired E n" "E p = Some (q, i, l)"
  shows "paired (E(p := None, q := None)) n"
proof -
  obtain l' where q: "E q = Some (p, i, l')" using pairedD(4) [OF assms] by blast
  have E: "E x = Some (y, j, m) \<and> x \<notin> {p, q} \<and> y \<notin> {p, q}" if "(E(p := None, q := None)) x = Some (y, j, m)" for x y j m
  proof -
    from that have x: "x \<notin> {p, q}" "E x = Some (y, j, m)" by (auto split: if_splits)
    from pairedD(4) [OF assms(1) x(2)] obtain m' where "E y = Some (x, j, m')" by blast
    with x assms(2) q show ?thesis by auto
  qed
  show ?thesis
    unfolding paired_def
  proof (intro conjI allI impI)
    fix x y j m
    assume "(E(p := None, q := None)) x = Some (y, j, m)"
    note x = E [OF this]
    then have Ex: "E x = Some (y, j, m)" by simp
    show "x \<noteq> y" "j \<le> n" "m \<in> LABELS" by (rule pairedD(1-3) [OF assms(1) Ex])+
    show "\<exists>l'. (E(p := None, q := None)) y = Some (x, j, l') \<and> l' \<noteq> m" using x pairedD(4) [OF assms(1) Ex] by simp
  next
    fix x x' y y' j m
    assume "(E(p := None, q := None)) x = Some (y, j, m)" "(E(p := None, q := None)) x' = Some (y', j, m)"
    from E [OF this(1)] E [OF this(2)] show "x = x'"
      using pairedD(5) [OF assms(1), of x y j m x' y'] by simp
  qed
qed


section \<open>Turns\<close>

text \<open>The outcomes of a receive: nothing for a stale event, the end of both sockets, or a turn
  that records and forwards.\<close>

lemma readable_stale: "t_conns st p = None \<Longrightarrow> on_readable p r s st = st"
  by (simp add: on_readable_def)

lemma readable_gone:
  assumes "t_conns st p = Some (q, c)" "r = RecvError \<or> r = Received [] [] f"
  obtains fs err where "on_readable p r s st = st\<lparr>t_conns := (t_conns st)(p := None, q := None),
      t_watched := t_watched st - {p, q}, t_closed := insert q (insert p (t_closed st)), t_files := fs, t_stderr := err\<rparr>"
    "\<And>k. k \<noteq> cap_txt c \<Longrightarrow> fs k = t_files st k"
proof -
  let ?st = "if r \<noteq> RecvError \<and> and f MSG_CTRUNC \<noteq> 0 then warn_ctrunc c st else st"
  have "on_readable p r s st = drop_sock q (drop_sock p ?st)"
    using assms by (auto simp: on_readable_def)
  then have "on_readable p r s st = st\<lparr>t_conns := (t_conns st)(p := None, q := None),
      t_watched := t_watched st - {p, q}, t_closed := insert q (insert p (t_closed st)), t_files := t_files ?st, t_stderr := t_stderr ?st\<rparr>"
    by (intro tap.equality) (auto simp: drop_sock_def warn_ctrunc_def say_def Let_def)
  then show ?thesis
    by (rule that) (simp add: warn_ctrunc_def say_def Let_def append_file_def)
qed

lemma readable_moved:
  assumes "t_conns st p = Some (q, c)" "\<not> (d = [] \<and> a = [])"
  obtains err where "on_readable p (Received d a f) s st = st\<lparr>t_conns := (t_conns st)(p \<mapsto> (q, turn_capture c d)),
      t_files := turn_files c (d, a, f, s) (t_files st), t_out := t_out st @ [(q, take (taken s) d, a)],
      t_fds := t_fds st @ concat (map fds_of a), t_stderr := err\<rparr>"
proof -
  let ?st = "if and f MSG_CTRUNC \<noteq> 0 then warn_ctrunc c st else st"
  have same: "(t_conns st)(p \<mapsto> (q, c)) = t_conns st" using assms(1) by (rule map_upd_triv)
  have w: "t_conns ?st = t_conns st" "t_out ?st = t_out st" "t_fds ?st = t_fds st" "t_watched ?st = t_watched st"
    "t_closed ?st = t_closed st" "t_conn_id ?st = t_conn_id st"
    "t_files ?st = fold (\<lambda>(k, d). append_file k d) (if and f MSG_CTRUNC \<noteq> 0
       then [(cap_txt c, bytes_of (''!!! '' @ ctrunc_text c @ '' !!!'' @ [LF, LF]))] else []) (t_files st)"
    by (simp_all add: warn_ctrunc_def say_def Let_def)
  have "on_readable p (Received d a f) s st =
     (let st = (if d \<noteq> [] then record_data p q c d ?st else ?st)
      in if a \<noteq> [] then forward_anc q c d a f s st else send_on q d [] s st)"
    using assms by (auto simp: on_readable_def Let_def)
  also have "\<dots> = ?st\<lparr>t_conns := (t_conns st)(p \<mapsto> (q, turn_capture c d)),
      t_files := turn_files c (d, a, f, s) (t_files st), t_out := t_out st @ [(q, take (taken s) d, a)],
      t_fds := t_fds st @ concat (map fds_of a)\<rparr>"
    unfolding turn_files_def turn_puts_def prod.case fold_append comp_def w(7) [symmetric]
    using assms(2) same w(1-6)
    by (cases "d = []"; cases "a = []")
      (simp_all add: Let_def record_data_def forward_anc_def send_on_def cap_write_def turn_capture_def)
  finally have "on_readable p (Received d a f) s st = st\<lparr>t_conns := (t_conns st)(p \<mapsto> (q, turn_capture c d)),
      t_files := turn_files c (d, a, f, s) (t_files st), t_out := t_out st @ [(q, take (taken s) d, a)],
      t_fds := t_fds st @ concat (map fds_of a), t_stderr := t_stderr ?st\<rparr>"
    using w(1-6) by (simp only: tap.simps) (simp add: warn_ctrunc_def say_def Let_def)
  then show ?thesis by (rule that)
qed

lemma accept_connected:
  obtains err where "accept_conn cfg cli up Connected st = st\<lparr>t_conn_id := t_conn_id st + 1,
      t_files := snd (new_capture (outdir cfg) (t_conn_id st + 1) ''bus-to-client''
        (snd (new_capture (outdir cfg) (t_conn_id st + 1) ''client-to-bus'' (t_files st)))),
      t_conns := (t_conns st)(cli \<mapsto> (up, fst (new_capture (outdir cfg) (t_conn_id st + 1) ''client-to-bus'' (t_files st))),
        up \<mapsto> (cli, fst (new_capture (outdir cfg) (t_conn_id st + 1) ''bus-to-client'' (t_files st)))),
      t_watched := insert up (insert cli (t_watched st)), t_stderr := err\<rparr>"
proof (cases "quiet cfg")
  case True
  then show ?thesis
    by (intro that [of "t_stderr st"]) (simp add: accept_conn_def new_capture_def Let_def)
next
  case False
  then show ?thesis
    by (intro that [of "t_stderr st @ [''conn '' @ dec_nat (t_conn_id st + 1) @ '' opened'']"])
      (simp add: accept_conn_def new_capture_def Let_def say_def)
qed

section \<open>Runs\<close>

definition passed :: "tap \<Rightarrow> sock \<Rightarrow> (byte list \<times> cmsg list) list" where
  "passed st q = map snd (filter (\<lambda>m. fst m = q) (t_out st))"

definition passing :: "reading list \<Rightarrow> (byte list \<times> cmsg list) list" where
  "passing rs = map (\<lambda>(d, a, f, s). (take (taken s) d, a)) rs"

text \<open>What holds of the relay after the events \<open>es\<close>.\<close>

definition tap_ok :: "config \<Rightarrow> event list \<Rightarrow> tap \<Rightarrow> bool" where
  "tap_ok cfg es st \<longleftrightarrow>
     paired (ends st) (t_conn_id st) \<and> dom (t_conns st) = t_watched st \<and> t_watched st \<inter> t_closed st = {} \<and>
     (\<forall>p q c. t_conns st p = Some (q, c) \<longrightarrow>
        holds (outdir cfg) (t_files st) c (reads es p) \<and> passed st q = passing (reads es p)) \<and>
     (\<forall>p. p \<notin> t_watched st \<union> t_closed st \<longrightarrow> reads es p = [] \<and> passed st p = [])"

lemma tap_okD:
  assumes "tap_ok cfg es st"
  shows "paired (ends st) (t_conn_id st)" "dom (t_conns st) = t_watched st" "t_watched st \<inter> t_closed st = {}"
    "t_conns st p = Some (q, c) \<Longrightarrow> holds (outdir cfg) (t_files st) c (reads es p)"
    "t_conns st p = Some (q, c) \<Longrightarrow> passed st q = passing (reads es p)"
    "p \<notin> t_watched st \<Longrightarrow> p \<notin> t_closed st \<Longrightarrow> reads es p = [] \<and> passed st p = []"
  using assms unfolding tap_ok_def by blast+

lemma ends_Some: "t_conns st p = Some (q, c) \<Longrightarrow> ends st p = Some (q, cap_conn c, cap_label c)"
  by (simp add: ends_def)

lemma ends_update [simp]:
  "ends (st\<lparr>t_conns := (t_conns st)(p \<mapsto> (q, c)), t_files := fs, t_out := out, t_fds := fds, t_stderr := err\<rparr>) =
     (ends st)(p \<mapsto> (q, cap_conn c, cap_label c))"
  "ends (st\<lparr>t_conns := (t_conns st)(p := None, q := None), t_watched := w, t_closed := cl, t_files := fs, t_stderr := err\<rparr>) =
     (ends st)(p := None, q := None)"
  by (auto simp: ends_def)

text \<open>The partner of a connected socket, and the files of two connections.\<close>

lemma tap_partner:
  assumes "tap_ok cfg es st" "t_conns st p = Some (q, c)"
  obtains c' where "t_conns st q = Some (p, c')" "p \<noteq> q" "p \<in> t_watched st" "q \<in> t_watched st"
    "cap_conn c' = cap_conn c" "cap_label c' \<noteq> cap_label c"
proof -
  note pr = tap_okD(1) [OF assms(1)] and e = ends_Some [OF assms(2)]
  from pairedD(4) [OF pr e] obtain l' where "ends st q = Some (p, cap_conn c, l')" "l' \<noteq> cap_label c" by blast
  then obtain c' where c': "t_conns st q = Some (p, c')" "cap_conn c' = cap_conn c" "cap_label c' = l'"
    by (auto simp: ends_def)
  show ?thesis
  proof (rule that [OF c'(1) pairedD(1) [OF pr e] _ _ c'(2)])
    show "p \<in> t_watched st" "q \<in> t_watched st" using tap_okD(2) [OF assms(1)] assms(2) c'(1) by auto
    show "cap_label c' \<noteq> cap_label c" using c'(3) \<open>l' \<noteq> cap_label c\<close> by simp
  qed
qed

lemma tap_paths_differ:
  assumes "tap_ok cfg es st" "t_conns st p = Some (q, c)" "t_conns st p' = Some (q', c')" "p' \<noteq> p"
  shows "{cap_bin c, cap_txt c} \<inter> {cap_bin c', cap_txt c'} = {}"
proof -
  note ok = tap_okD(1) [OF assms(1)]
  note e = ends_Some [OF assms(2)] and e' = ends_Some [OF assms(3)]
  have h: "holds (outdir cfg) (t_files st) c (reads es p)" "holds (outdir cfg) (t_files st) c' (reads es p')"
    by (rule tap_okD(4) [OF assms(1,2)], rule tap_okD(4) [OF assms(1,3)])
  have "\<not> (cap_conn c' = cap_conn c \<and> cap_label c' = cap_label c)"
    using pairedD(5) [OF ok e, of p' q'] e' assms(4) by auto
  then have ne: "cap_path (outdir cfg) (cap_conn c) (cap_label c) x \<noteq> cap_path (outdir cfg) (cap_conn c') (cap_label c') y"
    if "x \<in> {''.bin'', ''.txt''}" "y \<in> {''.bin'', ''.txt''}" for x y
    using cap_path_inj [OF _ pairedD(3) [OF ok e] pairedD(3) [OF ok e'] that] by fastforce
  from h have names: "cap_bin c = cap_path (outdir cfg) (cap_conn c) (cap_label c) ''.bin''"
    "cap_txt c = cap_path (outdir cfg) (cap_conn c) (cap_label c) ''.txt''"
    "cap_bin c' = cap_path (outdir cfg) (cap_conn c') (cap_label c') ''.bin''"
    "cap_txt c' = cap_path (outdir cfg) (cap_conn c') (cap_label c') ''.txt''"
    unfolding holds_def by blast+
  show ?thesis unfolding names using ne by simp
qed

lemma holds_frame:
  "holds dir fs c rs \<Longrightarrow> fs' (cap_bin c) = fs (cap_bin c) \<Longrightarrow> fs' (cap_txt c) = fs (cap_txt c) \<Longrightarrow> holds dir fs' c rs"
  unfolding holds_def by metis

lemma tap_ok_moved:
  assumes ok: "tap_ok cfg es st" and p: "t_conns st p = Some (q, c)" and r: "\<not> (d = [] \<and> a = [])"
  shows "tap_ok cfg (es @ [Readable p (Received d a f) s]) (on_readable p (Received d a f) s st)"
proof -
  let ?r = "(d, a, f, s)"
  obtain err where st': "on_readable p (Received d a f) s st = st\<lparr>t_conns := (t_conns st)(p \<mapsto> (q, turn_capture c d)),
      t_files := turn_files c ?r (t_files st), t_out := t_out st @ [(q, take (taken s) d, a)],
      t_fds := t_fds st @ concat (map fds_of a), t_stderr := err\<rparr>"
    by (rule readable_moved [OF p r])
  let ?st = "st\<lparr>t_conns := (t_conns st)(p \<mapsto> (q, turn_capture c d)), t_files := turn_files c ?r (t_files st),
      t_out := t_out st @ [(q, take (taken s) d, a)], t_fds := t_fds st @ concat (map fds_of a), t_stderr := err\<rparr>"
  let ?es = "es @ [Readable p (Received d a f) s]"
  obtain c' where partner: "t_conns st q = Some (p, c')" "p \<noteq> q" "p \<in> t_watched st" "q \<in> t_watched st"
    by (rule tap_partner [OF ok p])
  have lab: "cap_label c \<in> LABELS" using pairedD(3) [OF tap_okD(1) [OF ok] ends_Some [OF p]] .
  have pass: "passed ?st x = passed st x @ (if x = q then [(take (taken s) d, a)] else [])" for x
    by (simp add: passed_def)
  have E: "ends ?st = ends st" using ends_Some [OF p] by (simp add: fun_upd_idem)
  have own: "holds (outdir cfg) (t_files ?st) (turn_capture c d) (reads ?es p)"
    using holds_turn [OF tap_okD(4) [OF ok p] lab, of ?r] by simp
  have ownp: "passed ?st q = passing (reads ?es p)"
    using tap_okD(5) [OF ok p] pass [of q] by (simp add: passing_def)
  have others: "holds (outdir cfg) (t_files ?st) k (reads ?es x) \<and> passed ?st y = passing (reads ?es x)"
    if x: "t_conns st x = Some (y, k)" "x \<noteq> p" for x y k
  proof
    from tap_paths_differ [OF ok p x] have "cap_bin k \<noteq> cap_bin c" "cap_bin k \<noteq> cap_txt c" "cap_txt k \<noteq> cap_bin c" "cap_txt k \<noteq> cap_txt c"
      by auto
    then show "holds (outdir cfg) (t_files ?st) k (reads ?es x)"
      using holds_frame [OF tap_okD(4) [OF ok x(1)], of "turn_files c ?r (t_files st)"] x(2)
      by (simp add: turn_files_other)
    have "y \<noteq> q" using tap_partner [OF ok x(1)] partner(1) x(2) by (metis option.inject prod.inject)
    then show "passed ?st y = passing (reads ?es x)" using tap_okD(5) [OF ok x(1)] pass [of y] x(2) by simp
  qed
  show ?thesis
    unfolding st' tap_ok_def E
  proof (intro conjI allI impI)
    show "dom (t_conns ?st) = t_watched ?st" using tap_okD(2) [OF ok] partner(3) by auto
  next
    fix x y k
    assume "t_conns ?st x = Some (y, k)"
    then have "x = p \<and> y = q \<and> k = turn_capture c d \<or> x \<noteq> p \<and> t_conns st x = Some (y, k)" by (auto split: if_splits)
    with own ownp others show "holds (outdir cfg) (t_files ?st) k (reads ?es x)" "passed ?st y = passing (reads ?es x)" by blast+
  next
    fix x
    assume "x \<notin> t_watched ?st \<union> t_closed ?st"
    then have "x \<notin> t_watched st" "x \<notin> t_closed st" by simp_all
    with tap_okD(6) [OF ok] partner show "reads ?es x = []" "passed ?st x = []"
      using pass [of x] by (auto)
  qed (use tap_okD(1,3) [OF ok] in simp_all)
qed

lemma tap_ok_gone:
  assumes ok: "tap_ok cfg es st" and p: "t_conns st p = Some (q, c)" and r: "r = RecvError \<or> r = Received [] [] f"
  shows "tap_ok cfg (es @ [Readable p r s]) (on_readable p r s st)"
proof -
  let ?es = "es @ [Readable p r s]"
  obtain fs err where st': "on_readable p r s st = st\<lparr>t_conns := (t_conns st)(p := None, q := None),
      t_watched := t_watched st - {p, q}, t_closed := insert q (insert p (t_closed st)), t_files := fs, t_stderr := err\<rparr>"
    and fs: "\<And>k. k \<noteq> cap_txt c \<Longrightarrow> fs k = t_files st k"
    using readable_gone [OF p r] by metis
  let ?st = "st\<lparr>t_conns := (t_conns st)(p := None, q := None),
      t_watched := t_watched st - {p, q}, t_closed := insert q (insert p (t_closed st)), t_files := fs, t_stderr := err\<rparr>"
  have pass: "passed ?st x = passed st x" for x by (simp add: passed_def)
  have rd: "x \<noteq> p \<Longrightarrow> reads ?es x = reads es x" for x using r by auto
  show ?thesis
    unfolding st' tap_ok_def pass
  proof (intro conjI allI impI)
    show "paired (ends ?st) (t_conn_id ?st)"
      using paired_drop [OF tap_okD(1) [OF ok] ends_Some [OF p]] by simp
    show "dom (t_conns ?st) = t_watched ?st" using tap_okD(2) [OF ok] by auto
    show "t_watched ?st \<inter> t_closed ?st = {}" using tap_okD(3) [OF ok] by auto
  next
    fix x y k
    assume "t_conns ?st x = Some (y, k)"
    then have x: "x \<noteq> p" "t_conns st x = Some (y, k)" by (auto split: if_splits)
    from tap_paths_differ [OF ok p x(2) x(1)] have "fs (cap_bin k) = t_files st (cap_bin k)" "fs (cap_txt k) = t_files st (cap_txt k)"
      by (auto intro!: fs)
    with holds_frame [OF tap_okD(4) [OF ok x(2)], of fs] rd [OF x(1)]
    show "holds (outdir cfg) (t_files ?st) k (reads ?es x)" by simp
    show "passed st y = passing (reads ?es x)" using tap_okD(5) [OF ok x(2)] rd [OF x(1)] by simp
  next
    fix x
    assume "x \<notin> t_watched ?st \<union> t_closed ?st"
    then have x: "x \<notin> t_watched st" "x \<notin> t_closed st" "x \<noteq> p" by auto
    with tap_okD(6) [OF ok x(1,2)] rd [OF x(3)] show "reads ?es x = []" "passed st x = []" by simp_all
  qed
qed

lemma map_upd2_cases:
  assumes "(m(a \<mapsto> u, b \<mapsto> v)) x = Some w"
  obtains "x = b" "w = v" | "x = a" "w = u" | "x \<noteq> a" "x \<noteq> b" "m x = Some w"
  using assms by (cases "x = b"; cases "x = a") auto

lemma tap_ok_accept:
  assumes ok: "tap_ok cfg es st" and fresh: "cli \<noteq> up" "{cli, up} \<inter> (t_watched st \<union> t_closed st) = {}"
  shows "tap_ok cfg (es @ [Accept cli up Connected]) (accept_conn cfg cli up Connected st)"
proof -
  let ?n = "t_conn_id st + 1"
  let ?b = "\<lambda>l. cap_path (outdir cfg) ?n l ''.bin''" and ?t = "\<lambda>l. cap_path (outdir cfg) ?n l ''.txt''"
  let ?cap = "\<lambda>l. \<lparr>cap_bin = ?b l, cap_txt = ?t l, cap_label = l, cap_conn = ?n, cap_chunk = 0, cap_total = 0\<rparr>"
  let ?c2s = "''client-to-bus''" and ?s2c = "''bus-to-client''"
  let ?fs = "(t_files st)(?b ?c2s \<mapsto> [], ?t ?c2s \<mapsto> bytes_of (txt_header ?c2s), ?b ?s2c \<mapsto> [], ?t ?s2c \<mapsto> bytes_of (txt_header ?s2c))"
  obtain err where st': "accept_conn cfg cli up Connected st = st\<lparr>t_conn_id := ?n, t_files := ?fs,
      t_conns := (t_conns st)(cli \<mapsto> (up, ?cap ?c2s), up \<mapsto> (cli, ?cap ?s2c)),
      t_watched := insert up (insert cli (t_watched st)), t_stderr := err\<rparr>"
    by (rule accept_connected [of cfg cli up st]) (simp add: new_capture_def Let_def)
  let ?st = "st\<lparr>t_conn_id := ?n, t_files := ?fs, t_conns := (t_conns st)(cli \<mapsto> (up, ?cap ?c2s), up \<mapsto> (cli, ?cap ?s2c)),
      t_watched := insert up (insert cli (t_watched st)), t_stderr := err\<rparr>"
  have conns: "t_conns ?st = (t_conns st)(cli \<mapsto> (up, ?cap ?c2s), up \<mapsto> (cli, ?cap ?s2c))" by simp
  have E: "ends ?st = (ends st)(cli \<mapsto> (up, ?n, ?c2s), up \<mapsto> (cli, ?n, ?s2c))" by (auto simp: ends_def)
  have none: "t_conns st cli = None" "t_conns st up = None" using tap_okD(2) [OF ok] fresh(2) by auto
  have labs: "?c2s \<in> LABELS" "?s2c \<in> LABELS" by (simp_all add: LABELS_def)
  have unseen: "reads es cli = []" "reads es up = []" "passed st cli = []" "passed st up = []"
    using tap_okD(6) [OF ok, of cli] tap_okD(6) [OF ok, of up] fresh(2) by auto
  have ne: "cap_path (outdir cfg) ?n l e \<noteq> cap_path (outdir cfg) ?n l' e'" if "l \<noteq> l' \<or> e \<noteq> e'" "l \<in> LABELS" "l' \<in> LABELS"
    "e \<in> {''.bin'', ''.txt''}" "e' \<in> {''.bin'', ''.txt''}" for l e l' e'
    using cap_path_inj [of "outdir cfg" ?n l e ?n l' e'] that by blast
  have pass: "passed ?st x = passed st x" for x by (simp add: passed_def)
  have new: "holds (outdir cfg) ?fs (?cap ?c2s) []" "holds (outdir cfg) ?fs (?cap ?s2c) []"
    using ne [of ?c2s ?c2s "''.bin''" "''.txt''"] ne [of ?s2c ?s2c "''.bin''" "''.txt''"] ne [of ?c2s ?s2c "''.bin''" "''.bin''"]
      ne [of ?c2s ?s2c "''.bin''" "''.txt''"] ne [of ?c2s ?s2c "''.txt''" "''.bin''"] ne [of ?c2s ?s2c "''.txt''" "''.txt''"] labs
    by (simp_all add: holds_def)
  have old: "holds (outdir cfg) ?fs k (reads es x)" if x: "t_conns st x = Some (y, k)" for x y k
  proof (rule holds_frame [OF tap_okD(4) [OF ok x]])
    note pr = tap_okD(1) [OF ok] and e = ends_Some [OF x]
    have "cap_path (outdir cfg) (cap_conn k) (cap_label k) e \<noteq> cap_path (outdir cfg) ?n l e'"
      if "l \<in> LABELS" "e \<in> {''.bin'', ''.txt''}" "e' \<in> {''.bin'', ''.txt''}" for l e e'
      using cap_path_inj [of "outdir cfg" "cap_conn k" "cap_label k" e ?n l e'] that pairedD(2,3) [OF pr e] by fastforce
    with labs tap_okD(4) [OF ok x] show "?fs (cap_bin k) = t_files st (cap_bin k)" "?fs (cap_txt k) = t_files st (cap_txt k)"
      by (simp_all add: holds_def)
  qed
  show ?thesis
    unfolding st' tap_ok_def pass
  proof (intro conjI allI impI)
    show "paired (ends ?st) (t_conn_id ?st)"
      unfolding E using paired_accept [OF tap_okD(1) [OF ok] _ _ fresh(1)] none by (simp add: ends_def)
    show "dom (t_conns ?st) = t_watched ?st" using tap_okD(2) [OF ok] by auto
    show "t_watched ?st \<inter> t_closed ?st = {}" using tap_okD(3) [OF ok] fresh(2) by auto
  next
    fix x y k
    assume "t_conns ?st x = Some (y, k)"
    then have "((t_conns st)(cli \<mapsto> (up, ?cap ?c2s), up \<mapsto> (cli, ?cap ?s2c))) x = Some (y, k)" unfolding conns .
    then have "holds (outdir cfg) ?fs k (reads es x) \<and> passed st y = passing (reads es x)"
    proof (cases rule: map_upd2_cases)
      case 1
      then show ?thesis unfolding prod.inject using new(2) unseen by (simp only: passing_def list.map)
    next
      case 2
      then show ?thesis unfolding prod.inject using new(1) unseen by (simp only: passing_def list.map)
    next
      case 3
      from old [OF 3(3)] tap_okD(5) [OF ok 3(3)] show ?thesis by blast
    qed
    then show "holds (outdir cfg) (t_files ?st) k (reads (es @ [Accept cli up Connected]) x)"
      "passed st y = passing (reads (es @ [Accept cli up Connected]) x)" by simp_all
  qed (use tap_okD(6) [OF ok] in auto)
qed

lemma tap_ok_step:
  assumes ok: "tap_ok cfg es st" and step: "tap_step cfg st e st'"
  shows "tap_ok cfg (es @ [e]) st'"
  using step
proof (cases rule: tap_step.cases)
  case (accept cli up r)
  show ?thesis
  proof (cases r)
    case Connected
    with tap_ok_accept [OF ok accept(3,4)] accept(1,2) show ?thesis by simp
  next
    case (ConnectFailed w)
    then have "st' = say (''upstream connect failed: '' @ w) (st\<lparr>t_closed := insert cli (t_closed st)\<rparr>)"
      using accept(2) by (simp add: accept_conn_def)
    then have same: "t_conns st' = t_conns st" "t_files st' = t_files st" "t_watched st' = t_watched st"
      "t_conn_id st' = t_conn_id st" "t_closed st' = insert cli (t_closed st)" "\<And>x. passed st' x = passed st x"
      by (simp_all add: say_def passed_def)
    then have "ends st' = ends st" by (intro ext) (simp add: ends_def)
    moreover have "cli \<notin> t_watched st" using accept(4) by simp
    ultimately show ?thesis
      using ok accept(1) by (simp add: tap_ok_def same)
  qed
next
  case (readable peer r s)
  show ?thesis
  proof (cases "t_conns st peer")
    case None
    then have st: "st' = st" using readable(2) by (simp add: readable_stale)
    have "peer \<notin> t_watched st" using None tap_okD(2) [OF ok] by auto
    moreover have "reads (es @ [e]) x = reads es x" if "x \<noteq> peer" for x
      using that readable(1) by (cases r) auto
    ultimately show ?thesis
      using ok readable(3) None unfolding st tap_ok_def by (metis UnCI UnE option.distinct(1))
  next
    case (Some b)
    obtain q c where "b = (q, c)" by fastforce
    with Some have p: "t_conns st peer = Some (q, c)" by simp
    show ?thesis
    proof (cases r)
      case (Received d a f)
      then show ?thesis
        using tap_ok_gone [OF ok p, of r f s] tap_ok_moved [OF ok p, of d a f s] readable(1,2) by auto
    next
      case RecvError
      then show ?thesis using tap_ok_gone [OF ok p, of r 0 s] readable(1,2) by simp
    qed
  qed
qed

lemma tap_ok_run: "tap_run cfg fs es st \<Longrightarrow> tap_ok cfg es st"
proof (induction rule: tap_run.induct)
  case start
  show ?case by (simp add: tap_ok_def tap0_def ends_def paired_def passed_def)
next
  case (turn es st e st')
  then show ?case by (blast intro: tap_ok_step)
qed


section \<open>Properties\<close>

definition sample_cfg :: config where
  "sample_cfg = \<lparr>listen_path = ''tap'', outdir = ''out'', bus_path = ''bus'', quiet = True\<rparr>"

definition sample_events :: "byte list \<Rightarrow> cmsg list \<Rightarrow> nat \<Rightarrow> event list" where
  "sample_events d a n = [Accept 3 4 Connected, Readable 3 (Received d a 0) (Sent n)]"

definition sample_tap :: "byte list \<Rightarrow> cmsg list \<Rightarrow> nat \<Rightarrow> tap" where
  "sample_tap d a n = fold (handle sample_cfg) (sample_events d a n) (tap0 sample_cfg Map.empty)"

lemma relayed_run:
  assumes "n \<le> length d" "a = [] \<longrightarrow> n = length d"
  shows "tap_run sample_cfg Map.empty (sample_events d a n) (sample_tap d a n)"
proof -
  let ?e = "Accept 3 4 Connected" and ?r = "Readable 3 (Received d a 0) (Sent n)"
  let ?st = "handle sample_cfg ?e (tap0 sample_cfg Map.empty)"
  have "tap_step sample_cfg (tap0 sample_cfg Map.empty) ?e ?st"
    by (rule tap_step.accept) (simp_all add: tap0_def)
  from tap_run.turn [OF tap_run.start this] have 1: "tap_run sample_cfg Map.empty [?e] ?st" by simp
  have "tap_step sample_cfg ?st ?r (handle sample_cfg ?r ?st)"
    by (rule tap_step.readable) (use assms in \<open>simp_all add: accept_conn_def new_capture_def Let_def say_def send_possible_def\<close>)
  from tap_run.turn [OF 1 this] show ?thesis by (simp add: sample_tap_def sample_events_def)
qed

lemma relayed_conn: "d \<noteq> [] \<Longrightarrow> \<exists>q c. t_conns (sample_tap d a n) 3 = Some (q, c)"
proof -
  assume "d \<noteq> []"
  let ?st = "accept_conn sample_cfg 3 4 Connected (tap0 sample_cfg Map.empty)"
  obtain c where c: "t_conns ?st 3 = Some (4, c)"
    by (rule accept_connected [of sample_cfg 3 4 "tap0 sample_cfg Map.empty"]) auto
  have "\<not> (d = [] \<and> a = [])" using \<open>d \<noteq> []\<close> by simp
  have "t_conns (on_readable 3 (Received d a 0) (Sent n) ?st) 3 = Some (4, turn_capture c d)"
    by (rule readable_moved [OF c \<open>\<not> (d = [] \<and> a = [])\<close>, of 0 "Sent n"]) simp
  then show "\<exists>q c. t_conns (sample_tap d a n) 3 = Some (q, c)" by (simp add: sample_tap_def sample_events_def)
qed

lemma relayed_reads [simp]: "reads (sample_events d a n) 3 = [(d, a, 0, Sent n)]"
  by (simp add: sample_events_def reads_def)

text \<open>C14: the connections of the relay stay paired. After any sequence of events, a socket that
  is connected is registered and open, its partner is another such socket connected back to it,
  and both ends belong to one connection number, recorded under the two different labels; no
  two sockets share a file. Nothing that was closed is connected or registered.\<close>

theorem tap_connections:
  assumes "tap_run cfg fs es st"
  shows "t_watched st \<inter> t_closed st = {} \<and> dom (t_conns st) = t_watched st \<and>
    (\<forall>p q c. t_conns st p = Some (q, c) \<longrightarrow>
      p \<noteq> q \<and> cap_conn c \<le> t_conn_id st \<and>
      (\<exists>c'. t_conns st q = Some (p, c') \<and> cap_conn c' = cap_conn c \<and> cap_label c' \<noteq> cap_label c) \<and>
      (\<forall>p' q' c'. t_conns st p' = Some (q', c') \<longrightarrow> p' \<noteq> p \<longrightarrow> {cap_bin c, cap_txt c} \<inter> {cap_bin c', cap_txt c'} = {}))"
proof -
  note ok = tap_ok_run [OF assms]
  show ?thesis
  proof (intro conjI allI impI tap_okD(2,3) [OF ok])
    fix p q c
    assume p: "t_conns st p = Some (q, c)"
    from tap_partner [OF ok p] show "p \<noteq> q" "\<exists>c'. t_conns st q = Some (p, c') \<and> cap_conn c' = cap_conn c \<and> cap_label c' \<noteq> cap_label c"
      by blast+
    show "cap_conn c \<le> t_conn_id st" by (rule pairedD(2) [OF tap_okD(1) [OF ok] ends_Some [OF p]])
    fix p' q' c'
    assume "t_conns st p' = Some (q', c')" "p' \<noteq> p"
    then show "{cap_bin c, cap_txt c} \<inter> {cap_bin c', cap_txt c'} = {}" by (rule tap_paths_differ [OF ok p])
  qed
qed

lemma tap_connections_witness: "\<exists>q c. t_conns (sample_tap [108, 1] [] 2) 3 = Some (q, c) \<and> q \<noteq> 3 \<and> t_watched (sample_tap [108, 1] [] 2) \<inter> t_closed (sample_tap [108, 1] [] 2) = {}"
proof -
  obtain q c where "t_conns (sample_tap [108, 1] [] 2) 3 = Some (q, c)" using relayed_conn [of "[108, 1]" "[]" 2] by auto
  with tap_connections [OF relayed_run [of 2 "[108, 1]" "[]"]] show ?thesis by fastforce
qed

text \<open>C15: a capture is the traffic. At every moment of a run, the binary file of a connected
  socket holds exactly the bytes received from it, in order; its counters are the number of
  non-empty receives and of those bytes; and its text is the header followed by the entries of
  its receives, each chunk with its number, size and offset.\<close>

theorem capture_is_traffic:
  assumes "tap_run cfg fs es st" "t_conns st p = Some (q, c)"
  shows "t_files st (cap_bin c) = Some (data_of (reads es p)) \<and> cap_total c = length (data_of (reads es p)) \<and>
    cap_chunk c = chunks_of (reads es p) \<and>
    t_files st (cap_txt c) = Some (bytes_of (txt_header (cap_label c) @ transcript (cap_conn c) (cap_label c) 0 0 (reads es p)))"
  using tap_okD(4) [OF tap_ok_run [OF assms(1)] assms(2)] unfolding holds_def by blast

lemma capture_is_traffic_witness:
  "\<exists>q c. t_conns (sample_tap [108, 1] [] 2) 3 = Some (q, c) \<and> t_files (sample_tap [108, 1] [] 2) (cap_bin c) = Some [108, 1]"
proof -
  obtain q c where c: "t_conns (sample_tap [108, 1] [] 2) 3 = Some (q, c)" using relayed_conn [of "[108, 1]" "[]" 2] by auto
  with capture_is_traffic [OF relayed_run c] show ?thesis by (simp add: data_of_def)
qed



text \<open>C17: a dump loses nothing: the hexadecimal columns of its lines, read back line by line,
  give the bytes that were dumped.\<close>

theorem hexdump_reads_back:
  assumes "LF \<notin> set indent"
  shows "undump indent (hexdump data indent) = data"
  by (rule undump_hexdump [OF assms])

lemma hexdump_reads_back_witness: "undump ''    '' (hexdump [1, 2, 255] ''    '') = [1, 2, 255]"
  by (rule hexdump_reads_back) simp

text \<open>C39: a send that takes less than it was given loses bytes for good: the capture has them,
  the partner never does, whatever follows.\<close>

theorem short_send_loses:
  assumes "tap_run cfg fs es st" "t_conns st p = Some (q, c)" "(d, a, f, s) \<in> set (reads es p)" "taken s < length d"
  shows "length (concat (map fst (passed st q))) < cap_total c"
proof -
  have le: "length (concat (map fst (passing rs))) \<le> length (data_of rs)" for rs
    by (induction rs) (auto simp: passing_def data_of_def)
  have app: "passing (xs @ r # ys) = passing xs @ passing [r] @ passing ys" "data_of (xs @ r # ys) = data_of xs @ fst r @ data_of ys" for xs r ys
    by (simp_all add: passing_def data_of_def)
  obtain xs ys where "reads es p = xs @ (d, a, f, s) # ys" using assms(3) by (auto simp: in_set_conv_decomp)
  then have "length (concat (map fst (passing (reads es p)))) < length (data_of (reads es p))"
    using le [of xs] le [of ys] assms(4) by (simp add: app) (simp add: passing_def)
  then show ?thesis
    using tap_okD(4) [OF tap_ok_run [OF assms(1)] assms(2)] tap_okD(5) [OF tap_ok_run [OF assms(1)] assms(2)] by (simp add: holds_def)
qed

lemma short_send_loses_witness:
  "\<exists>q c. t_conns (sample_tap [108, 1] [\<lparr>c_level = 1, c_type = 1, c_data = []\<rparr>] 1) 3 = Some (q, c) \<and>
     length (concat (map fst (passed (sample_tap [108, 1] [\<lparr>c_level = 1, c_type = 1, c_data = []\<rparr>] 1) q))) < cap_total c"
proof -
  let ?a = "[\<lparr>c_level = 1, c_type = 1, c_data = []\<rparr>]"
  obtain q c where c: "t_conns (sample_tap [108, 1] ?a 1) 3 = Some (q, c)" using relayed_conn [of "[108, 1]" ?a 1] by auto
  moreover have "length (concat (map fst (passed (sample_tap [108, 1] ?a 1) q))) < cap_total c"
    by (rule short_send_loses [OF relayed_run c, of "[108, 1]" ?a 0 "Sent 1"]) simp_all
  ultimately show ?thesis by blast
qed

end
