(* ===== verification/SecText.thy ===== *)
theory SecText
  imports CyrDecl
begin

text \<open>
  The text helpers of \<^verbatim>\<open>tools/security_scan.py\<close>: integer literals, matching brackets,
  the values of string literals in Cyrius and C, system paths, and which includes are refused.
\<close>


section \<open>Integer literals\<close>

definition no_underscores :: "string \<Rightarrow> string" where
  "no_underscores s = filter (\<lambda>c. c \<noteq> CHR ''_'') s"

definition radix_int :: "nat \<Rightarrow> string \<Rightarrow> string \<Rightarrow> nat option" where
  "radix_int base digits body =
     (if no_underscores body = [] \<or> list_ex (\<lambda>c. c \<notin> set (digits @ ''_'')) body then None
      else Some (int_base base (no_underscores body)))"

definition cyr_int :: "string \<Rightarrow> nat option" where
  "cyr_int tok =
     (if starts_with tok ''0x'' then radix_int 16 HEX (drop 2 tok)
      else if starts_with tok ''0o'' then radix_int 8 ''01234567'' (drop 2 tok)
      else if starts_with tok ''0b'' then radix_int 2 ''01'' (drop 2 tok)
      else if tok \<noteq> [] \<and> is_digit09 (hd tok) \<and> list_all (\<lambda>c. is_digit09 c \<or> c = CHR ''_'') (tl tok)
        then Some (int_base 10 (no_underscores tok))
      else None)"


section \<open>Brackets\<close>

text \<open>\<open>_close\<close> of the bracket \<open>o\<close> with \<open>c\<close>; \<^const>\<open>None\<close> stands for -1.\<close>

function close_br :: "char \<Rightarrow> char \<Rightarrow> string \<Rightarrow> int \<Rightarrow> nat \<Rightarrow> nat option" where
  "close_br ob cb code depth j =
     (if j < length code then
        if code ! j = ob then close_br ob cb code (depth + 1) (j + 1)
        else if code ! j = cb then (if depth - 1 = 0 then Some j else close_br ob cb code (depth - 1) (j + 1))
        else close_br ob cb code depth (j + 1)
      else None)"
  by pat_completeness auto
termination by (relation "measure (\<lambda>(ob, cb, code, depth, j). length code - j)") auto

declare close_br.simps [simp del]

definition close_bracket :: "string \<Rightarrow> nat \<Rightarrow> char \<Rightarrow> char \<Rightarrow> nat option" where
  "close_bracket code k ob cb = close_br ob cb code 0 k"

function arg_end :: "string \<Rightarrow> int \<Rightarrow> nat \<Rightarrow> nat option" where
  "arg_end code depth j =
     (if j < length code then
        let ch = code ! j in
        if ch \<in> set ''([{'' then arg_end code (depth + 1) (j + 1)
        else if ch \<in> set '')]}'' then (if depth - 1 = 0 then Some j else arg_end code (depth - 1) (j + 1))
        else if ch = CHR '','' \<and> depth = 1 then Some j
        else arg_end code depth (j + 1)
      else None)"
  by pat_completeness auto
termination by (relation "measure (\<lambda>(code, depth, j). length code - j)") (auto simp: Let_def)

declare arg_end.simps [simp del]

definition first_arg :: "string \<Rightarrow> nat \<Rightarrow> string option" where
  "first_arg code k = map_option (\<lambda>j. slice code (k + 1) j) (arg_end code 0 k)"


section \<open>Values of string literals\<close>

definition SIMPLE_CYR :: "(char \<times> nat) list" where
  "SIMPLE_CYR = [(CHR ''n'', 10), (CHR ''r'', 13), (CHR ''t'', 9), (CHR ''0'', 0), (BSL, 92), (DQ, 34), (SQ, 39),
     (CHR ''a'', 7), (CHR ''b'', 8), (CHR ''f'', 12), (CHR ''v'', 11), (LF, 10)]"

definition SIMPLE_C :: "(char \<times> nat) list" where
  "SIMPLE_C = [(CHR ''n'', 10), (CHR ''r'', 13), (CHR ''t'', 9), (BSL, 92), (DQ, 34), (SQ, 39), (CHR ''?'', 63),
     (CHR ''a'', 7), (CHR ''b'', 8), (CHR ''f'', 12), (CHR ''v'', 11), (CHR ''e'', 27), (CHR ''E'', 27)]"

text \<open>The \<^verbatim>\<open>ValueError\<close>s of \<open>cyr_unescape\<close>; an escape cut off by the end has no character.\<close>

datatype bad_escape = BadX | BadU | UnknownEscape "char option"

definition is_hex :: "string \<Rightarrow> bool" where
  "is_hex h \<longleftrightarrow> list_all (\<lambda>c. c \<in> set HEX) h"

text \<open>The bound of code points, compared as integers where it is evaluated.\<close>

definition no_code_point :: "nat \<Rightarrow> bool" where
  [simp, code del]: "no_code_point n \<longleftrightarrow> 0x10FFFF < n"

lemma no_code_point_code [code]: "no_code_point n \<longleftrightarrow> (0x10FFFF :: int) < int n"
  by simp

definition wrap_code_point :: "nat \<Rightarrow> nat" where
  [simp, code del]: "wrap_code_point n = n mod 0x110000"

lemma wrap_code_point_code [code]: "wrap_code_point n = (if (0x10FFFF :: int) < int n then nat (int n mod 0x110000) else n)"
  by (simp add: nat_mod_distrib)

text \<open>The digits of a \<^verbatim>\<open>\u\<close> escape and what follows it, from the text after the \<open>u\<close>.\<close>

definition u_digits :: "string \<Rightarrow> string \<times> string" where
  "u_digits r =
     (if take 1 r = ''{'' then
        let h = takeWhile (\<lambda>c. c \<noteq> CHR ''}'') (tl r)
        in if length h = length (tl r) then ([], []) else (h, drop (length h + 2) r)
      else (take 4 r, drop 4 r))"

lemma u_digits_shorter: "(h, rest) = u_digits r \<Longrightarrow> length rest < length r + 2"
  by (auto simp: u_digits_def Let_def split: if_splits)

function cyr_unescape :: "string \<Rightarrow> bad_escape + codepoints" where
  "cyr_unescape s =
     (case s of
        [] \<Rightarrow> Inr []
      | ch # r \<Rightarrow>
          if ch \<noteq> BSL then bindE (cyr_unescape r) (\<lambda>cs. Inr (of_char ch # cs))
          else case r of
            [] \<Rightarrow> Inl (UnknownEscape None)
          | e # r' \<Rightarrow>
              (case map_of SIMPLE_CYR e of
                 Some v \<Rightarrow> bindE (cyr_unescape r') (\<lambda>cs. Inr (v # cs))
               | None \<Rightarrow>
                   if e = CHR ''x'' then
                     if length (take 2 r') \<noteq> 2 \<or> \<not> is_hex (take 2 r') then Inl BadX
                     else bindE (cyr_unescape (drop 2 r')) (\<lambda>cs. Inr (int_base 16 (take 2 r') # cs))
                   else if e = CHR ''u'' then
                     let (h, rest) = u_digits r' in
                     if \<not> (1 \<le> length h \<and> length h \<le> 6) \<or> \<not> is_hex h \<or> no_code_point (int_base 16 h) then Inl BadU
                     else bindE (cyr_unescape rest) (\<lambda>cs. Inr (int_base 16 h # cs))
                   else Inl (UnknownEscape (Some e))))"
  by pat_completeness auto
termination
  by (relation "measure length") (auto dest: u_digits_shorter)

declare cyr_unescape.simps [simp del]

definition octal :: "char \<Rightarrow> bool" where
  "octal c \<longleftrightarrow> c \<in> set ''01234567''"

function c_unescape :: "string \<Rightarrow> codepoints" where
  "c_unescape s =
     (case s of
        [] \<Rightarrow> []
      | ch # r \<Rightarrow>
          if ch \<noteq> BSL \<or> r = [] then of_char ch # c_unescape r
          else
            let e = hd r; r' = tl r in
            if octal e then
              let h = takeWhile octal (take 3 r) in int_base 8 h # c_unescape (drop (length h) r)
            else if e = CHR ''x'' then
              let h = takeWhile (\<lambda>c. c \<in> set HEX) r'
              in wrap_code_point (int_base 16 (if h = [] then ''0'' else h)) # c_unescape (drop (length h) r')
            else if e = CHR ''u'' \<or> e = CHR ''U'' then
              let w = (if e = CHR ''u'' then 4 else 8); h = take w r'
              in if length h = w \<and> is_hex h then wrap_code_point (int_base 16 h) # c_unescape (drop w r')
                 else of_char e # c_unescape r'
            else (case map_of SIMPLE_C e of Some v \<Rightarrow> v | None \<Rightarrow> of_char e) # c_unescape r')"
  by pat_completeness auto
termination by (relation "measure length") (auto simp: Let_def neq_Nil_conv)

declare c_unescape.simps [simp del]


section \<open>System paths\<close>

text \<open>\<^verbatim>\<open>re.sub(r'/+', '/', s)\<close>.\<close>

fun collapse :: "codepoints \<Rightarrow> codepoints" where
  "collapse [] = []"
| "collapse (c # cs) = (if c = 47 \<and> take 1 cs = [47] then collapse cs else c # collapse cs)"

text \<open>\<^verbatim>\<open>posixpath.normpath\<close>: one component, and the path.\<close>

definition norm_step :: "bool \<Rightarrow> codepoints \<Rightarrow> codepoints list \<Rightarrow> codepoints list" where
  "norm_step rooted part acc =
     (if part = [] \<or> part = ascii ''.'' then acc
      else if part \<noteq> ascii ''..'' \<or> (\<not> rooted \<and> acc = []) \<or> (acc \<noteq> [] \<and> last acc = ascii ''..'') then acc @ [part]
      else butlast acc)"

definition normpath :: "codepoints \<Rightarrow> codepoints" where
  "normpath p =
     (if p = [] then ascii ''.''
      else
        let slashes = (if take 1 p \<noteq> [47] then 0 else if take 2 p = [47, 47] \<and> take 3 p \<noteq> [47, 47, 47] then 2 else 1 :: nat);
            comps = fold (norm_step (slashes \<noteq> 0)) (split_on 47 p) [];
            q = replicate slashes 47 @ join_on 47 comps
        in if q = [] then ascii ''.'' else q)"

definition SYS_DIRS :: "codepoints list" where
  "SYS_DIRS = map ascii [''etc'', ''bin'', ''sbin'']"

definition in_sys_dirs :: "codepoints \<Rightarrow> bool" where
  "in_sys_dirs p \<longleftrightarrow> (let parts = split_on 47 p in 1 < length parts \<and> parts ! 1 \<in> set SYS_DIRS)"

text \<open>The normalised suffixes of a piece that start at a slash, in order; the first in a system
  directory.\<close>

definition slash_suffixes :: "codepoints \<Rightarrow> codepoints list" where
  "slash_suffixes seg = map (\<lambda>i. drop i seg) (filter (\<lambda>i. seg ! i = 47) [0..<length seg])"

definition system_path :: "codepoints \<Rightarrow> codepoints option" where
  "system_path s =
     List.find in_sys_dirs
       (concat (map (\<lambda>seg. map normpath (slash_suffixes (collapse seg))) (split_on 0 s)))"


section \<open>Includes\<close>

definition CYR_EXT :: "string list" where "CYR_EXT = [''.cyr'', ''.tcyr'', ''.bcyr'', ''.fcyr'']"
definition C_EXT :: "string list" where "C_EXT = [''.c'', ''.h'']"

definition lang_of :: "string \<Rightarrow> lang option" where
  "lang_of path =
     (if list_ex (ends_with path) C_EXT then Some C
      else if list_ex (ends_with path) CYR_EXT then Some Cyr
      else None)"

definition C_SYSTEM_HEADER :: rx where
  "C_SYSTEM_HEADER =
     (let first = Cls (\<lambda>c. c \<in> set ''ABCDEFGHIJKLMNOPQRSTUVWXYZabcdefghijklmnopqrstuvwxyz0123456789_'');
          more = Star (Cls (\<lambda>c. c \<in> set ''ABCDEFGHIJKLMNOPQRSTUVWXYZabcdefghijklmnopqrstuvwxyz0123456789_+.-''))
      in Seqs [Star (Cls blank_char), Lit ''<'',
           Grp 1 (Seqs [first, more, Star (Seqs [Lit ''/'', first, more]), Lit ''.h'']), Lit ''>'', Star (Cls blank_char)])"

datatype c_include_why = Embedded | NotSystemHeader | LeavesSystemPath

definition c_include_problem :: "string \<Rightarrow> string \<Rightarrow> c_include_why option" where
  "c_include_problem word rest =
     (if word = ''embed'' then Some Embedded
      else case fullmatch C_SYSTEM_HEADER rest of
          None \<Rightarrow> Some NotSystemHeader
        | Some m \<Rightarrow>
            if ''..'' \<in> set (split_char (CHR ''/'') (group_or_empty rest m 1)) then Some LeavesSystemPath else None)"

datatype include_why = NotLiteral | AbsolutePath | HasDotDot | OutsideDirs | NotCyrius | NotStdlib | NoSuchFile

definition has_infix :: "'a list \<Rightarrow> 'a list \<Rightarrow> bool" where
  "has_infix w s \<longleftrightarrow> list_ex (\<lambda>i. take (length w) (drop i s) = w) [0..<Suc (length s)]"

text \<open>\<^verbatim>\<open>s.rsplit(".", 1)[0]\<close>.\<close>

definition before_last_dot :: "codepoints \<Rightarrow> codepoints" where
  "before_last_dot s = (if 46 \<in> set s then rev (tl (dropWhile (\<lambda>c. c \<noteq> 46) (rev s))) else s)"

definition cp_starts :: "codepoints \<Rightarrow> string \<Rightarrow> bool" where
  "cp_starts s w \<longleftrightarrow> take (length w) s = ascii w"

definition cp_ends :: "codepoints \<Rightarrow> string \<Rightarrow> bool" where
  "cp_ends s w \<longleftrightarrow> length w \<le> length s \<and> drop (length s - length w) s = ascii w"

definition include_problem ::
    "codepoints option \<Rightarrow> codepoints set \<Rightarrow> (codepoints \<Rightarrow> bool) option \<Rightarrow> include_why option" where
  "include_problem inc stdlib exists =
     (case inc of
        None \<Rightarrow> Some NotLiteral
      | Some s \<Rightarrow>
          if cp_starts s ''/'' then Some AbsolutePath
          else if has_infix (ascii ''..'') s then Some HasDotDot
          else if \<not> list_ex (cp_starts s) [''src/'', ''lib/'', ''tests/''] then Some OutsideDirs
          else if \<not> list_ex (cp_ends s) CYR_EXT then Some NotCyrius
          else if cp_starts s ''lib/'' then
            (let md = before_last_dot (drop 4 s) in if 47 \<in> set md \<or> md \<notin> stdlib then Some NotStdlib else None)
          else case exists of
              None \<Rightarrow> None
            | Some f \<Rightarrow> if f s then None else Some NoSuchFile)"

end
