(* ===== verification/SecScan.thy ===== *)
theory SecScan
  imports "HOL-Library.AList" SecText
begin

text \<open>
  The scan of one file in \<^verbatim>\<open>tools/security_scan.py\<close>: its patterns, the string runs of a C
  source, and \<open>scan_text\<close> with every check in the order of the code. The texts of the
  findings are values of a datatype.
\<close>


section \<open>Patterns\<close>

definition rx_W :: rx where "rx_W = Behind False ident_char"
definition rx_E :: rx where "rx_E = Ahead False (Cls ident_char)"
definition rx_word :: rx where "rx_word = Star (Cls ident_char)"
definition rx_sp :: rx where "rx_sp = Star (Cls is_space)"
definition rx_bl :: rx where "rx_bl = Star (Cls blank_char)"
definition rx_line :: rx where "rx_line = Star (Cls (\<lambda>c. c \<noteq> LF))"

text \<open>\<^verbatim>\<open>(?i:w)\<close> for a word in lower case.\<close>

definition same_letter :: "char \<Rightarrow> char \<Rightarrow> bool" where
  "same_letter c d \<longleftrightarrow> d = c \<or> is_upper d \<and> of_char d + 32 = (of_char c :: nat)"

definition LitI :: "string \<Rightarrow> rx" where "LitI w = Seqs (map (\<lambda>c. Cls (same_letter c)) w)"

definition SPAWN_WORDS :: "string list" where
  "SPAWN_WORDS = [''system'', ''popen'', ''execv'', ''execvp'', ''execvpe'', ''execve'', ''execveat'', ''fexecve'', ''execl'',
     ''execlp'', ''execle'', ''fork'', ''vfork'', ''clone'', ''clone3'', ''posix_spawn'', ''posix_spawnp'', ''pidfd_spawn'',
     ''pidfd_spawnp'', ''daemon'', ''forkpty'', ''wordexp'', ''_Fork'', ''dlsym'', ''dlvsym'', ''dlopen'', ''dlmopen'', ''syscall'']"

definition rx_PFX :: rx where
  "rx_PFX = Opt (Alt (Lit ''__libc_'') (Plus (Chr (CHR ''_''))))"

definition SPAWN_C :: rx where
  "SPAWN_C = Seqs [rx_W, Grp 1 (Seq rx_PFX (Words SPAWN_WORDS)), rx_E]"

definition rx_EXTERN :: rx where
  "rx_EXTERN = Seq rx_PFX (Words (filter (\<lambda>w. w \<noteq> ''syscall'') SPAWN_WORDS))"

definition rx_TYPARAMS :: rx where
  "rx_TYPARAMS = Opt (Seqs [Chr (CHR ''<''), Star (Cls (\<lambda>c. c \<notin> set ''<>(){};'')), Chr (CHR ''>'')])"

definition SPAWN_CYR_EXTERN :: rx where
  "SPAWN_CYR_EXTERN =
     Alt (Seqs [Chr (CHR ''&''), rx_sp, rx_W, Grp 1 rx_EXTERN, rx_E])
         (Seqs [rx_W, Grp 2 rx_EXTERN, rx_E, Ahead True (Seqs [rx_sp, rx_TYPARAMS, rx_sp, Chr (CHR ''('')])])"

definition SPAWN_CYR :: rx where
  "SPAWN_CYR = Seqs [rx_W, Grp 1 (Seqs [Lit ''sys_'', LStar (Cls ident_char),
     Words [''exec'', ''fork'', ''clone'', ''spawn'', ''system''], rx_word]), rx_E]"

definition SPAWN_CONST :: rx where
  "SPAWN_CONST = Seqs [rx_W, Grp 1 (Seqs [Words [''SYS'', ''__NR''], Chr (CHR ''_''), LStar (Cls ident_char),
     Alts (map LitI [''exec'', ''fork'', ''clone'', ''spawn'']), rx_word]), rx_E]"

definition MEMEXEC :: rx where
  "MEMEXEC = Seqs [rx_W, Grp 1 (Alts [
     Seq (Opt (Words [''sys_'', ''SYS_'', ''__NR_'']))
       (Alts (map LitI [''mmap'', ''mmap2'', ''mmap64'', ''mprotect'', ''pkey_mprotect'', ''mremap'', ''process_vm_writev'', ''ptrace''])),
     Lit ''PROT_EXEC'',
     Seq (Lit ''cyr_mmap'') rx_word]), rx_E]"

definition SYSCALL_NAMES :: "string list" where "SYSCALL_NAMES = [''SYS_EXIT'', ''SYS_FCNTL'']"
definition SYSCALL_NUMBERS :: "nat list" where "SYSCALL_NUMBERS = [60, 48, 228]"

definition SYSCALL :: rx where "SYSCALL = Seqs [rx_W, Lit ''syscall'', rx_E]"

definition SYS_NAME :: rx where
  "SYS_NAME = Seqs [Lit ''SYS_'', Plus (Cls (\<lambda>c. is_upper c \<or> is_digit09 c \<or> c = CHR ''_''))]"

definition SYS_DECL :: rx where
  "SYS_DECL = Seqs [rx_W, Words [''var'', ''const'', ''fn'', ''enum'', ''struct'', ''union'', ''trait'', ''impl''],
     Plus (Cls is_space), Grp 1 (Seq (Lit ''SYS_'') rx_word)]"

definition SYS_ASSIGN :: rx where
  "SYS_ASSIGN = Seqs [rx_W, Grp 1 (Seq (Lit ''SYS_'') rx_word), rx_sp, Chr (CHR ''=''), Ahead False (Chr (CHR ''=''))]"

definition SYS_ANY :: rx where "SYS_ANY = Seqs [rx_W, Lit ''SYS_'', rx_word]"

definition ENUM_OPEN :: rx where
  "ENUM_OPEN = Seqs [rx_W, Lit ''enum'', rx_E, Star (Cls (\<lambda>c. c \<notin> set ''{;'')), Chr (CHR ''{'')]"

definition FN_PARAMS :: rx where
  "FN_PARAMS = Seqs [rx_W, Lit ''fn'', rx_sp, Opt rx_IDENT, rx_sp, rx_TYPARAMS, rx_sp, Chr (CHR ''('')]"

definition ASM_CYR :: rx where "ASM_CYR = Seqs [rx_W, Lit ''asm'', rx_E]"
definition ASM_C :: rx where "ASM_C = Seqs [rx_W, Words [''asm'', ''__asm'', ''__asm__''], rx_E]"
definition INCLUDE :: rx where "INCLUDE = Seqs [rx_W, Lit ''include'', rx_sp, Chr DQ]"

definition BUFFER :: rx where
  "BUFFER = Seqs [rx_W, Lit ''var'', Plus (Cls is_space), Grp 1 rx_IDENT, rx_sp, Chr (CHR ''[''),
     Grp 2 (Star (Cls (\<lambda>c. c \<noteq> CHR '']'' \<and> c \<noteq> LF))), Chr (CHR '']'')]"

definition BUFFER_MAX :: nat where "BUFFER_MAX = 65536"

definition CYR_DIRECTIVES_REFUSED :: "string list" where
  "CYR_DIRECTIVES_REFUSED = [''ref'', ''pe_import'', ''define'']"

definition CYR_LINE_REFUSED :: rx where
  "CYR_LINE_REFUSED = Seqs [Bol, rx_bl, Chr HASH, Grp 1 (Words [''define'', ''ref'']), rx_E]"

definition C_INCLUDE_LINE :: rx where
  "C_INCLUDE_LINE = Seqs [Bol, rx_bl, Words [''#'', ''%:''], rx_bl, Grp 1 (Words [''include'', ''include_next'', ''import'', ''embed'']),
     rx_E, Grp 2 rx_line, Eol]"

definition C_DIRECTIVE_REST :: rx where
  "C_DIRECTIVE_REST = Seqs [Bol, rx_bl, Opt (Words [''#'', ''%:'']), Grp 1 rx_line, Eol]"


section \<open>String runs of a C source\<close>

definition C_DEFINE :: rx where
  "C_DEFINE = Seqs [Bol, rx_bl, Chr HASH, rx_bl, Lit ''define'', Plus (Cls blank_char), Grp 1 rx_IDENT, Plus (Cls blank_char),
     Grp 2 rx_line, Eol]"

definition ENC_PREFIXES :: "string list" where "ENC_PREFIXES = [''L'', ''u'', ''U'', ''u8'', ''R'']"

type_synonym item = "nat \<times> nat \<times> codepoints"

text \<open>The value of one literal: between the parentheses of a raw string, unescaped otherwise.\<close>

definition c_value :: "string \<Rightarrow> nat \<times> nat \<times> bool \<Rightarrow> codepoints" where
  "c_value src lit =
     (case lit of (s, e, raw) \<Rightarrow>
        let t = slice src s e in
        if raw then
          (case find_at t ''('' 0 of
             None \<Rightarrow> []
           | Some k \<Rightarrow> let d = slice t 1 k in ascii (slice t (k + 1) (length t - length d - 2)))
        else c_unescape (if t \<noteq> [] \<and> last t = DQ \<and> 1 < length t then slice t 1 (length t - 1) else drop 1 t))"

text \<open>The code of a define's body outside its literals, and their values.\<close>

fun define_parts :: "string \<Rightarrow> nat \<Rightarrow> nat \<Rightarrow> nat \<Rightarrow> item list \<Rightarrow> string \<times> codepoints list" where
  "define_parts code a b pos [] = (slice code pos b, [])"
| "define_parts code a b pos ((s, e, v) # items) =
     (if a \<le> s \<and> s < b then
        let (rest, parts) = define_parts code a b e items in (slice code pos s @ rest, v # parts)
      else define_parts code a b pos items)"

text \<open>\<^verbatim>\<open>s.replace(old, "", 1)\<close>.\<close>

definition remove_first :: "string \<Rightarrow> string \<Rightarrow> string" where
  "remove_first old s = (case find_at s old 0 of None \<Rightarrow> s | Some i \<Rightarrow> take i s @ drop (i + length old) s)"

text \<open>The names of the rest that are macros: each is replaced once and its value appended.\<close>

fun expand_names :: "(string \<times> codepoints) list \<Rightarrow> string list \<Rightarrow> string \<Rightarrow> codepoints list \<Rightarrow> string \<times> codepoints list" where
  "expand_names macros [] rest parts = (rest, parts)"
| "expand_names macros (n # ns) rest parts =
     (case map_of macros n of
        Some v \<Rightarrow> if n \<notin> set ENC_PREFIXES then expand_names macros ns (remove_first n rest) (parts @ [v])
                  else expand_names macros ns rest parts
      | None \<Rightarrow> expand_names macros ns rest parts)"

definition only_prefixes :: "string \<Rightarrow> bool" where
  "only_prefixes s \<longleftrightarrow> fullmatch (Star (Alts [Cls is_space, Lit ''u8'', Lit ''u'', Lit ''U'', Lit ''L'', Lit ''R''])) s \<noteq> None"

definition add_macro :: "string \<Rightarrow> item list \<Rightarrow> rmatch \<Rightarrow> (string \<times> codepoints) list \<Rightarrow> (string \<times> codepoints) list" where
  "add_macro code items m macros =
     (case group_span m 2 of
        None \<Rightarrow> macros
      | Some (a, b) \<Rightarrow>
          let (rest, parts) = define_parts code a b a items;
              (rest, parts) = expand_names macros (findall rx_IDENT rest) rest parts
          in if parts \<noteq> [] \<and> only_prefixes rest then AList.update (group_or_empty code m 1) (concat parts) macros
             else macros)"

definition macros_of :: "string \<Rightarrow> item list \<Rightarrow> (string \<times> codepoints) list" where
  "macros_of code items =
     (let ms = finditer C_DEFINE code in fold (add_macro code items) ms (fold (add_macro code items) ms []))"

text \<open>The uses of the macros in the code, but for the name a define gives.\<close>

definition line_before :: "string \<Rightarrow> nat \<Rightarrow> string" where
  "line_before s i = rev (takeWhile (\<lambda>c. c \<noteq> LF) (rev (take i s)))"

definition macro_uses :: "string \<Rightarrow> (string \<times> codepoints) list \<Rightarrow> item list" where
  "macro_uses code macros =
     concat (map (\<lambda>(n, v).
       map (\<lambda>m. (m_start m, m_end m, v))
         (filter (\<lambda>m. match_in (Seqs [rx_bl, Chr HASH, rx_bl, Lit ''define'', Plus (Cls blank_char), End])
                        (line_before code (m_start m)) 0 (length (line_before code (m_start m))) = None)
            (finditer (Seqs [rx_W, Lit n, rx_E]) code))) macros)"

definition RUN_GAP :: rx where
  "RUN_GAP = Seqs [rx_sp, Opt (Words [''u8'', ''u'', ''U'', ''L'']), Opt (Chr (CHR ''R''))]"

fun group_runs :: "string \<Rightarrow> item list \<Rightarrow> item list list" where
  "group_runs code [] = []"
| "group_runs code [x] = [[x]]"
| "group_runs code (x # y # items) =
     (case group_runs code (y # items) of
        [] \<Rightarrow> [[x]]
      | r # rs \<Rightarrow> if fullmatch RUN_GAP (slice code (fst (snd x)) (fst y)) \<noteq> None then (x # r) # rs else [x] # r # rs)"

definition c_strings :: "string \<Rightarrow> string \<Rightarrow> (nat \<times> codepoints) list" where
  "c_strings src code =
     (let lits = literals src C in
      if lits = [] then []
      else
        let items = map (\<lambda>l. (fst l, fst (snd l), c_value src l)) lits;
            items = sort (items @ macro_uses code (macros_of code items));
            runs = filter (\<lambda>r. 1 < length r) (group_runs code items)
        in map (\<lambda>(s, e, v). (s, v)) items @
           map (\<lambda>r. (fst (hd r), concat (map (\<lambda>(s, e, v). v) r))) runs)"


section \<open>Findings\<close>

datatype label =
    SpawnConst string
  | MemExec string
  | CSpawn string
  | InlineAsm
  | PasteStringize
  | CInclude string c_include_why
  | ReachesPath codepoints
  | TwoWays why
  | SpawnHelper string
  | SpawnSymbol string
  | AsmBlock
  | SyscallNotCalled
  | SyscallNameRefused string
  | SyscallBadNumber string
  | SyscallNumberRefused string nat
  | SyscallComputed string
  | DeclaresSys string
  | AssignsSys string
  | MemberSys string
  | ParamSys string
  | BufferBadSize string
  | BufferTooBig nat
  | DirectiveRefused string
  | LineRefused string
  | IncludeRefused "codepoints option" include_why
  | BadLiteral bad_escape

type_synonym hit = "nat \<times> label \<times> string"

definition line_text :: "string \<Rightarrow> nat \<Rightarrow> string" where
  "line_text src ln = (let lines = splitlines src in if ln \<le> length lines then strip_ws (lines ! (ln - 1)) else [])"

definition hit_at :: "string \<Rightarrow> nat \<Rightarrow> label \<Rightarrow> hit" where
  "hit_at src pos l = (let ln = line_at src pos in (ln, l, line_text src ln))"

definition each :: "rx \<Rightarrow> string \<Rightarrow> string \<Rightarrow> (rmatch \<Rightarrow> label) \<Rightarrow> hit list" where
  "each r code src f = map (\<lambda>m. hit_at src (m_start m) (f m)) (finditer r code)"

definition both_langs :: "string \<Rightarrow> string \<Rightarrow> hit list" where
  "both_langs src code =
     each SPAWN_CONST code src (\<lambda>m. SpawnConst (group_or_empty code m 1)) @
     each MEMEXEC code src (\<lambda>m. MemExec (group_or_empty code m 1))"

text \<open>The part of \<open>scan_text\<close> for C.\<close>

definition paste_hits :: "string \<Rightarrow> string \<Rightarrow> hit list" where
  "paste_hits src code =
     concat (map (\<lambda>m. case re_search (Words [''#'', ''%:'']) (group_or_empty code m 1) of
         None \<Rightarrow> []
       | Some k \<Rightarrow> (case group_span m 1 of
             None \<Rightarrow> []
           | Some (a, b) \<Rightarrow> [hit_at src (a + m_start k) PasteStringize])) (finditer C_DIRECTIVE_REST code))"

definition scan_c :: "string \<Rightarrow> hit list" where
  "scan_c src =
     (let code = strip src C False; lits = strip src C True in
      both_langs src code @
      each SPAWN_C code src (\<lambda>m. CSpawn (group_or_empty code m 1)) @
      each ASM_C code src (\<lambda>m. InlineAsm) @
      paste_hits src code @
      concat (map (\<lambda>m. case c_include_problem (group_or_empty lits m 1) (group_or_empty lits m 2) of
          None \<Rightarrow> []
        | Some y \<Rightarrow> [hit_at src (m_start m) (CInclude (group_or_empty lits m 1) y)]) (finditer C_INCLUDE_LINE lits)) @
      concat (map (\<lambda>(pos, v). case system_path v of None \<Rightarrow> [] | Some p \<Rightarrow> [hit_at src pos (ReachesPath p)])
        (c_strings src code)))"

text \<open>The checks of the Cyrius part, one definition for each of its loops with a body.\<close>

definition DIGIT_TOKEN :: rx where
  "DIGIT_TOKEN = Seq (Cls is_digit09) rx_word"

definition syscall_label :: "string \<Rightarrow> rmatch \<Rightarrow> label option" where
  "syscall_label code m =
     (let k = skip_while (\<lambda>c. c \<in> {SP, TAB, LF}) code (m_end m) (length code) in
      if length code \<le> k \<or> code ! k \<noteq> CHR ''('' then Some SyscallNotCalled
      else
        let a = strip_ws (case first_arg code k of None \<Rightarrow> [] | Some t \<Rightarrow> t) in
        if fullmatch SYS_NAME a \<noteq> None then (if a \<in> set SYSCALL_NAMES then None else Some (SyscallNameRefused a))
        else if fullmatch DIGIT_TOKEN a \<noteq> None then
          (case cyr_int a of
             None \<Rightarrow> Some (SyscallBadNumber a)
           | Some v \<Rightarrow> if v \<in> set SYSCALL_NUMBERS then None else Some (SyscallNumberRefused a v))
        else Some (SyscallComputed a))"

definition syscall_hits :: "string \<Rightarrow> string \<Rightarrow> hit list" where
  "syscall_hits src code =
     concat (map (\<lambda>m. case syscall_label code m of None \<Rightarrow> [] | Some l \<Rightarrow> [hit_at src (m_start m) l])
       (finditer SYSCALL code))"

text \<open>\<^verbatim>\<open>SYS_*\<close> names inside the brackets a pattern's match ends with.\<close>

definition bracket_hits :: "string \<Rightarrow> string \<Rightarrow> rx \<Rightarrow> (string \<Rightarrow> label) \<Rightarrow> hit list" where
  "bracket_hits src code r f =
     concat (map (\<lambda>m.
       let k = m_end m - 1;
           body = (case close_bracket code k (code ! k) (if code ! k = CHR ''{'' then CHR ''}'' else CHR '')'') of
                     Some e \<Rightarrow> if 0 < e then slice code k e else drop k code
                   | None \<Rightarrow> drop k code)
       in map (\<lambda>s. hit_at src (k + m_start s) (f (slice body (m_start s) (m_end s)))) (finditer SYS_ANY body))
       (finditer r code))"

definition buffer_label :: "string \<Rightarrow> rmatch \<Rightarrow> label option" where
  "buffer_label code m =
     (let size = strip_ws (group_or_empty code m 2) in
      case cyr_int size of
        None \<Rightarrow> Some (BufferBadSize size)
      | Some v \<Rightarrow> if BUFFER_MAX \<le> v then Some (BufferTooBig v) else None)"

text \<open>For evaluation: the comparison on integers in binary.\<close>

lemma buffer_label_code [code]:
  "buffer_label code m =
     (let size = strip_ws (group_or_empty code m 2) in
      case cyr_int size of
        None \<Rightarrow> Some (BufferBadSize size)
      | Some v \<Rightarrow> if (65536 :: int) \<le> int v then Some (BufferTooBig v) else None)"
  by (simp add: buffer_label_def BUFFER_MAX_def Let_def split: option.split)

definition buffer_hits :: "string \<Rightarrow> string \<Rightarrow> hit list" where
  "buffer_hits src code =
     concat (map (\<lambda>m. case buffer_label code m of None \<Rightarrow> [] | Some l \<Rightarrow> [hit_at src (m_start m) l]) (finditer BUFFER code))"

definition directive_hits :: "string \<Rightarrow> hit list" where
  "directive_hits src =
     (let refused = filter (\<lambda>d. snd d \<in> set CYR_DIRECTIVES_REFUSED) (directives src)
      in map (\<lambda>(ln, word). (ln, DirectiveRefused word, line_text src ln)) refused @
         concat (map (\<lambda>m.
           let word = group_or_empty src m 1; ln = line_at src (m_start m)
           in if (ln, word) \<in> set refused then [] else [hit_at src (m_start m) (LineRefused word)]) (finditer CYR_LINE_REFUSED src)))"

text \<open>The value of the literal an include names, \<^const>\<open>None\<close> when it is not one.\<close>

definition include_value :: "string \<Rightarrow> (nat \<times> nat \<times> bool) list \<Rightarrow> nat \<Rightarrow> codepoints option" where
  "include_value lits strs q =
     (case map_of (rev (map (\<lambda>(s, e, raw). (s, (e, raw))) strs)) q of
        None \<Rightarrow> None
      | Some (e, raw) \<Rightarrow>
          let body = slice lits (q + 1) (e - 1) in
          if raw then Some (ascii body)
          else case cyr_unescape body of Inl x \<Rightarrow> None | Inr v \<Rightarrow> Some v)"

definition include_hits ::
    "string \<Rightarrow> string \<Rightarrow> string \<Rightarrow> codepoints set \<Rightarrow> (codepoints \<Rightarrow> bool) option \<Rightarrow> hit list" where
  "include_hits src code lits stdlib exists =
     concat (map (\<lambda>m.
       let inc = include_value lits (literals src Cyr) (m_end m - 1) in
       case include_problem inc stdlib exists of
         None \<Rightarrow> []
       | Some y \<Rightarrow> [hit_at src (m_start m) (IncludeRefused inc y)]) (finditer INCLUDE code))"

definition literal_body :: "string \<Rightarrow> nat \<Rightarrow> nat \<Rightarrow> string" where
  "literal_body src s e = (if s + 2 \<le> e \<and> src ! (e - 1) = DQ then slice src (s + 1) (e - 1) else slice src (s + 1) e)"

definition literal_label :: "string \<Rightarrow> nat \<times> nat \<times> bool \<Rightarrow> label option" where
  "literal_label src lit =
     (case lit of (s, e, raw) \<Rightarrow>
        (case (if raw then Inr (ascii (literal_body src s e)) else cyr_unescape (literal_body src s e)) of
           Inl x \<Rightarrow> Some (BadLiteral x)
         | Inr v \<Rightarrow> map_option ReachesPath (system_path v)))"

definition literal_hits :: "string \<Rightarrow> hit list" where
  "literal_hits src =
     concat (map (\<lambda>lit. case literal_label src lit of None \<Rightarrow> [] | Some l \<Rightarrow> [hit_at src (fst lit) l]) (literals src Cyr))"

definition scan_cyr :: "string \<Rightarrow> codepoints set \<Rightarrow> (codepoints \<Rightarrow> bool) option \<Rightarrow> hit list" where
  "scan_cyr src stdlib exists =
     (let code = strip src Cyr False; lits = strip src Cyr True in
      both_langs src code @
      map (\<lambda>(ln, y). (ln, TwoWays y, line_text src ln)) (hazards src) @
      each SPAWN_CYR code src (\<lambda>m. SpawnHelper (group_or_empty code m 1)) @
      each SPAWN_CYR_EXTERN code src
        (\<lambda>m. SpawnSymbol (if group_or_empty code m 1 \<noteq> [] then group_or_empty code m 1 else group_or_empty code m 2)) @
      each ASM_CYR code src (\<lambda>m. AsmBlock) @
      syscall_hits src code @
      each SYS_DECL code src (\<lambda>m. DeclaresSys (group_or_empty code m 1)) @
      each SYS_ASSIGN code src (\<lambda>m. AssignsSys (group_or_empty code m 1)) @
      bracket_hits src code ENUM_OPEN MemberSys @
      bracket_hits src code FN_PARAMS ParamSys @
      buffer_hits src code @
      directive_hits src @
      include_hits src code lits stdlib exists @
      literal_hits src)"

definition scan_text ::
    "string \<Rightarrow> string \<Rightarrow> codepoints set \<Rightarrow> (codepoints \<Rightarrow> bool) option \<Rightarrow> hit list" where
  "scan_text path src stdlib exists =
     (case lang_of path of
        None \<Rightarrow> []
      | Some C \<Rightarrow> scan_c (normalize_c src)
      | Some Cyr \<Rightarrow> scan_cyr src stdlib exists)"

end
