(* ===== verification/SecManifest.thy ===== *)
theory SecManifest
  imports SecScan
begin

text \<open>
  The judgement of \<^verbatim>\<open>cyrius.cyml\<close> and the walk over the tree in
  \<^verbatim>\<open>tools/security_scan.py\<close>. The file system is a parameter: what each path is, what a
  file holds and what \<^verbatim>\<open>os.walk\<close> lists. Paths are relative to the root.
\<close>


section \<open>The manifest's lines\<close>

fun uncomment_from :: "bool \<Rightarrow> string \<Rightarrow> string" where
  "uncomment_from q [] = []"
| "uncomment_from q (ch # s) =
     (let q = (if ch = DQ then \<not> q else q)
      in if ch = HASH \<and> \<not> q then [] else ch # uncomment_from q s)"

definition uncomment :: "string \<Rightarrow> string" where
  "uncomment s = uncomment_from False s"

text \<open>The value of a key, with the following lines while an array is open.\<close>

fun join_value :: "string \<Rightarrow> string list \<Rightarrow> string \<times> string list" where
  "join_value v [] = (v, [])"
| "join_value v (l # ls) =
     (if starts_with v ''['' \<and> count_list v (CHR '']'') < count_list v (CHR ''['')
      then join_value (v @ '' '' @ strip_ws (uncomment l)) ls
      else (v, l # ls))"

lemma join_value_shorter: "length (snd (join_value v ls)) \<le> length ls"
  by (induction v ls rule: join_value.induct) auto

definition key_char :: "char \<Rightarrow> bool" where
  "key_char c \<longleftrightarrow> ident_char c \<or> c = CHR ''-''"

definition TABLE_LINE :: rx where
  "TABLE_LINE = Seqs [Chr (CHR ''[''), rx_sp, Grp 1 (Plus (Cls (\<lambda>c. key_char c \<or> c = CHR ''.''))), rx_sp, Chr (CHR '']'')]"

definition KEY_LINE :: rx where
  "KEY_LINE = Seqs [Grp 1 (Plus (Cls key_char)), rx_sp, Chr (CHR ''=''), rx_sp, Grp 2 rx_line]"

datatype cyml_error = BadTable nat string | BadLine nat string

type_synonym entry = "nat \<times> string option \<times> string \<times> string"

text \<open>The loop over the lines: \<open>n\<close> is the number of the next line, \<open>sec\<close> the open table.\<close>

function cyml_loop :: "nat \<Rightarrow> string option \<Rightarrow> string list \<Rightarrow> cyml_error + (nat \<times> string) list \<times> entry list" where
  "cyml_loop n sec [] = Inr ([], [])"
| "cyml_loop n sec (l # ls) =
     (let s = strip_ws (uncomment l) in
      if s = [] then cyml_loop (n + 1) sec ls
      else if starts_with s ''['' then
        (case fullmatch TABLE_LINE s of
           None \<Rightarrow> Inl (BadTable n s)
         | Some m \<Rightarrow>
             let name = group_or_empty s m 1
             in bindE (cyml_loop (n + 1) (Some name) ls) (\<lambda>(secs, es). Inr ((n, name) # secs, es)))
      else
        (case fullmatch KEY_LINE s of
           None \<Rightarrow> Inl (BadLine n s)
         | Some m \<Rightarrow>
             let (v, rest) = join_value (group_or_empty s m 2) ls
             in bindE (cyml_loop (n + 1 + (length ls - length rest)) sec rest)
                  (\<lambda>(secs, es). Inr (secs, (n, sec, group_or_empty s m 1, v) # es))))"
  by pat_completeness auto
termination
proof (relation "measure (\<lambda>(n, sec, ls). length ls)", goal_cases)
  case (4 n sec l ls s m p v rest)
  then show ?case using join_value_shorter [of "group_or_empty s m 2" ls] by (metis (no_types, lifting) case_prod_conv in_measure le_imp_less_Suc length_Cons snd_conv)
qed auto

declare cyml_loop.simps(2) [simp del]

definition cyml_entries :: "string \<Rightarrow> cyml_error + (nat \<times> string) list \<times> entry list" where
  "cyml_entries text0 = cyml_loop 1 None (splitlines text0)"

definition rx_QUOTED :: rx where
  "rx_QUOTED = Seqs [Chr DQ, Star (Cls (\<lambda>c. c \<noteq> DQ \<and> c \<noteq> BSL)), Chr DQ]"

definition LIST_VALUE :: rx where
  "LIST_VALUE = Seqs [Chr (CHR ''[''), rx_sp,
     Opt (Seqs [rx_QUOTED, rx_sp, Star (Seqs [Chr (CHR '',''), rx_sp, rx_QUOTED, rx_sp]), Opt (Chr (CHR '','')), rx_sp]),
     Chr (CHR '']'')]"

definition cyml_list :: "string \<Rightarrow> string list option" where
  "cyml_list v =
     (if fullmatch LIST_VALUE v = None then None
      else Some (findall1 (Seqs [Chr DQ, Grp 1 (Star (Cls (\<lambda>c. c \<noteq> DQ \<and> c \<noteq> BSL))), Chr DQ]) v))"

text \<open>The module names of \<^verbatim>\<open>tools/stdlib_allowed.txt\<close>; \<^const>\<open>None\<close> when it cannot be opened.\<close>

definition stdlib_allowed :: "string option \<Rightarrow> string list option" where
  "stdlib_allowed file =
     map_option (\<lambda>t. map (\<lambda>l. hd (split_ws l))
       (filter (\<lambda>l. strip_ws l \<noteq> [] \<and> \<not> starts_with (lstrip_ws l) ''#'') (splitlines t))) file"


section \<open>The manifest's judgement\<close>

definition EXTRA_STDLIB :: "string list" where "EXTRA_STDLIB = [''bench'']"
definition MANIFEST_SECTIONS :: "string list" where "MANIFEST_SECTIONS = [''package'', ''build'', ''lib'', ''deps'']"
definition BUILD_KEYS :: "string list" where "BUILD_KEYS = [''entry'', ''test'', ''output'']"

definition DENIED_STDLIB :: "string list" where
  "DENIED_STDLIB = split_ws (join_with [SP] [
     ''async async_agnos async_macos audit_walk callback dynlib fdlopen freelist mabda mmap pam patra'',
     ''process process_agnos process_win regression regression_agnos sandhi sankoch sigil'',
     ''thread thread_agnos thread_local thread_macos thread_win tls tls_native vani ws_server yantra yukti'',
     ''cffi net http ws''])"

datatype manifest_why =
    Unreadable "cyml_error option"
  | TableNotJudged nat string
  | TableTwice nat string
  | KeyTwice nat "string option" string
  | OutsideTable nat string
  | DepsKey nat string
  | BuildKey nat string
  | NoStdlib
  | StdlibNotList nat
  | ModuleTwice nat string
  | ModuleDenied nat string
  | AllowedMissing
  | NotAllowedList nat "string list" "string list" bool
  | PathNotPlain nat string string
  | PathRefused nat string string string

definition table_problems :: "(nat \<times> string) list \<Rightarrow> manifest_why list" where
  "table_problems secs =
     concat (map (\<lambda>(ln, s).
       if s \<notin> set MANIFEST_SECTIONS then [TableNotJudged ln s]
       else if 1 < count_list (map snd secs) s then [TableTwice ln s] else []) secs)"

type_synonym keys = "((string option \<times> string) \<times> (nat \<times> string)) list"

definition entry_problems :: "entry \<Rightarrow> keys \<Rightarrow> manifest_why list" where
  "entry_problems e keys =
     (case e of (ln, sec, key, v) \<Rightarrow>
        (if map_of keys (sec, key) \<noteq> None then [KeyTwice ln sec key] else []) @
        (if sec = None then [OutsideTable ln key]
         else if sec = Some ''deps'' \<and> key \<noteq> ''stdlib'' then [DepsKey ln key]
         else if sec = Some ''build'' \<and> key \<notin> set BUILD_KEYS then [BuildKey ln key]
         else []))"

fun key_loop :: "entry list \<Rightarrow> keys \<Rightarrow> manifest_why list \<times> keys" where
  "key_loop [] keys = ([], keys)"
| "key_loop (e # es) keys =
     (let bad = entry_problems e keys;
          (rest, keys) = key_loop es (AList.update (fst (snd e), fst (snd (snd e))) (fst e, snd (snd (snd e))) keys)
      in (bad @ rest, keys))"

definition sorted_names :: "string list \<Rightarrow> string list" where
  "sorted_names xs = sort (remdups xs)"

definition stdlib_problems :: "keys \<Rightarrow> string list option \<Rightarrow> manifest_why list \<times> string list" where
  "stdlib_problems keys allowed =
     (case map_of keys (Some ''deps'', ''stdlib'') of
        None \<Rightarrow> ([NoStdlib], [])
      | Some (ln, v) \<Rightarrow>
          let listed = cyml_list v;
              mods = (case listed of None \<Rightarrow> [] | Some ms \<Rightarrow> ms)
          in ((if listed = None then [StdlibNotList ln] else []) @
              map (ModuleTwice ln) (sorted_names (filter (\<lambda>x. 1 < count_list mods x) mods)) @
              map (ModuleDenied ln) (sorted_names (filter (\<lambda>x. x \<in> set DENIED_STDLIB) mods)) @
              (case allowed of
                 None \<Rightarrow> [AllowedMissing]
               | Some al \<Rightarrow>
                   if set mods \<noteq> set al \<or> \<not> distinct al
                   then [NotAllowedList ln (sorted_names (filter (\<lambda>x. x \<notin> set al) mods))
                           (sorted_names (filter (\<lambda>x. x \<notin> set mods) al)) (\<not> distinct al)]
                   else []), mods))"

definition path_problems :: "(codepoints \<Rightarrow> bool) \<Rightarrow> keys \<Rightarrow> manifest_why list" where
  "path_problems exists keys =
     concat (map (\<lambda>((sec, key), (ln, v)).
       if (sec, key) \<notin> {(Some ''build'', ''entry''), (Some ''build'', ''test''), (Some ''lib'', ''modules'')} then []
       else
         let files = (if sec = Some ''build''
               then (if fullmatch rx_QUOTED v \<noteq> None then Some [slice v 1 (length v - 1)] else None)
               else cyml_list v);
             top = (if sec = Some ''lib'' then [''src/''] else [''src/'', ''tests/''])
         in case files of
              None \<Rightarrow> [PathNotPlain ln (the sec) key]
            | Some fs \<Rightarrow>
                map (PathRefused ln (the sec) key)
                  (filter (\<lambda>f. starts_with f ''/'' \<or> ''..'' \<in> set (split_char (CHR ''/'') f) \<or>
                     \<not> list_ex (starts_with f) top \<or> \<not> exists (ascii f)) fs))
       (sort_key (\<lambda>kv. fst (snd kv)) keys))"

definition manifest_problems ::
    "string option \<Rightarrow> string list option \<Rightarrow> (codepoints \<Rightarrow> bool) \<Rightarrow> string list \<times> manifest_why list" where
  "manifest_problems file allowed exists =
     (case file of
        None \<Rightarrow> (EXTRA_STDLIB, [Unreadable None])
      | Some t \<Rightarrow>
          (case cyml_entries t of
             Inl e \<Rightarrow> (EXTRA_STDLIB, [Unreadable (Some e)])
           | Inr (secs, es) \<Rightarrow>
               let (bad, keys) = key_loop es [];
                   (bad', mods) = stdlib_problems keys allowed
               in (EXTRA_STDLIB @ mods, table_problems secs @ bad @ bad' @ path_problems exists keys)))"


section \<open>The tree\<close>

datatype kind = Missing | Regular | Symlink | Special

text \<open>The file system: the kind of a path, the text of a file (\<^const>\<open>None\<close> when reading raises) and
  the triples of \<^verbatim>\<open>os.walk\<close>.\<close>

record tree =
  tr_kind :: "codepoints \<Rightarrow> kind"
  tr_read :: "string \<Rightarrow> string option"
  tr_walk :: "string \<Rightarrow> (string \<times> string list \<times> string list) list"

definition SCOPE :: "string list" where "SCOPE = [''src'', ''tests'', ''deps'']"
definition BUNDLE :: string where "BUNDLE = ''dist/samvada.cyr''"
definition DATA_DIR :: string where "DATA_DIR = ''tests/fixtures''"
definition STDLIB_ALLOWED :: string where "STDLIB_ALLOWED = ''tools/stdlib_allowed.txt''"

datatype tree_finding =
    ManifestFinding manifest_why
  | InFile string hit
  | ScannerFailed string
  | SymlinkInScope string
  | NotRegular string
  | NotLexed string

definition tree_exists :: "tree \<Rightarrow> codepoints \<Rightarrow> bool" where
  "tree_exists tr s \<longleftrightarrow> tr_kind tr s = Regular \<and> list_ex (cp_ends s) CYR_EXT"

definition scan_file :: "tree \<Rightarrow> codepoints set \<Rightarrow> string \<Rightarrow> tree_finding list" where
  "scan_file tr stdlib p =
     (case tr_read tr p of
        None \<Rightarrow> [ScannerFailed p]
      | Some src \<Rightarrow> map (InFile p) (scan_text p src stdlib (Some (tree_exists tr))))"

definition bundle_findings :: "tree \<Rightarrow> codepoints set \<Rightarrow> tree_finding list" where
  "bundle_findings tr stdlib =
     (case tr_kind tr (ascii BUNDLE) of
        Missing \<Rightarrow> []
      | Regular \<Rightarrow> scan_file tr stdlib BUNDLE
      | _ \<Rightarrow> [NotRegular BUNDLE])"

definition file_findings :: "tree \<Rightarrow> codepoints set \<Rightarrow> string \<Rightarrow> tree_finding list" where
  "file_findings tr stdlib r =
     (if tr_kind tr (ascii r) = Symlink then [SymlinkInScope r]
      else if tr_kind tr (ascii r) \<noteq> Regular then [NotRegular r]
      else if lang_of r = None then (if starts_with (r @ ''/'') (DATA_DIR @ ''/'') then [] else [NotLexed r])
      else scan_file tr stdlib r)"

definition top_findings :: "tree \<Rightarrow> codepoints set \<Rightarrow> string \<Rightarrow> tree_finding list" where
  "top_findings tr stdlib top0 =
     (if tr_kind tr (ascii top0) = Symlink then [SymlinkInScope top0]
      else
        concat (map (\<lambda>(d, dirs, files).
          concat (map (\<lambda>n. if tr_kind tr (ascii (path_join d n)) = Symlink then [SymlinkInScope (path_join d n)] else []) (sort dirs)) @
          concat (map (\<lambda>f. file_findings tr stdlib (path_join d f)) (sort files))) (tr_walk tr top0)))"

definition scan_tree :: "tree \<Rightarrow> tree_finding list" where
  "scan_tree tr =
     (let (mods, bad) = manifest_problems (tr_read tr ''cyrius.cyml'') (stdlib_allowed (tr_read tr STDLIB_ALLOWED)) (tree_exists tr);
          stdlib = set (map ascii mods)
      in map ManifestFinding bad @ bundle_findings tr stdlib @ concat (map (top_findings tr stdlib) SCOPE))"


section \<open>The scan\<close>

text \<open>\<^verbatim>\<open>main\<close> with the arguments after the program's name, without its self-test: what it
  prints and its exit status.\<close>

datatype scan_line = ScanUsage | ScanFail tree_finding | ScanComplete nat

definition scan_main :: "(string \<Rightarrow> tree) \<Rightarrow> string list \<Rightarrow> scan_line list \<times> nat" where
  "scan_main tree_at argv =
     (case argv of
        [root] \<Rightarrow>
          let findings = scan_tree (tree_at root)
          in (map ScanFail findings @ [ScanComplete (length findings)], if findings \<noteq> [] then 1 else 0)
      | _ \<Rightarrow> ([ScanUsage], 2))"

end
