(* ===== verification/SecTextSpec.thy ===== *)
theory SecTextSpec
  imports SecText
begin

text \<open>
  What the text helpers of the security scan promise: a string literal's value is exactly what
  its characters and escapes spell, a system path is recognised by where walking it leads, and
  an include that is accepted stays below the scanned directories.
\<close>


section \<open>Walking a path\<close>

text \<open>The reference: each component of a path entered from the root, as the file system does.\<close>

definition enter :: "codepoints \<Rightarrow> codepoints list \<Rightarrow> codepoints list" where
  "enter part here =
     (if part = [] \<or> part = ascii ''.'' then here else if part = ascii ''..'' then butlast here else here @ [part])"

definition lands :: "codepoints \<Rightarrow> codepoints list" where
  "lands p = fold enter (split_on 47 p) []"

definition below_system :: "codepoints \<Rightarrow> bool" where
  "below_system p \<longleftrightarrow> (case lands p of [] \<Rightarrow> False | d # ds \<Rightarrow> d \<in> set SYS_DIRS)"

lemma fold_enter_nonempty: "fold enter parts here = fold enter (filter (\<lambda>w. w \<noteq> []) parts) here"
  by (induction parts arbitrary: here) (simp_all add: enter_def)

lemma split_on_collapse: "filter (\<lambda>w. w \<noteq> []) (split_on 47 (collapse p)) = filter (\<lambda>w. w \<noteq> []) (split_on 47 p) \<and>
   hd (split_on 47 (collapse p)) = hd (split_on 47 p)"
proof (induction p)
  case (Cons c cs)
  show ?case
  proof (cases "c = 47 \<and> take 1 cs = [47]")
    case True
    then obtain ds where "cs = 47 # ds" by (cases cs) auto
    with Cons True show ?thesis by simp
  next
    case False
    have ne: "split_on 47 cs \<noteq> []" "split_on 47 (collapse cs) \<noteq> []" by simp_all
    then obtain w ws v vs where "split_on 47 cs = w # ws" "split_on 47 (collapse cs) = v # vs" by (meson neq_Nil_conv)
    with Cons False show ?thesis by (cases "c = 47") (auto split: if_splits)
  qed
qed simp

lemma lands_collapse: "lands (collapse p) = lands p"
  using split_on_collapse [of p] fold_enter_nonempty [of "split_on 47 p"] fold_enter_nonempty [of "split_on 47 (collapse p)"]
  by (simp add: lands_def)

lemma enter_set: "set (enter w here) \<subseteq> insert w (set here)"
  by (auto simp: enter_def dest: in_set_butlastD)

lemma lands_parts: "set (fold enter parts here) \<subseteq> set parts \<union> set here"
proof (induction parts arbitrary: here)
  case (Cons w ws)
  from Cons.IH [of "enter w here"] enter_set [of w here] show ?case by auto
qed simp

lemma norm_step_rooted: "ascii ''..'' \<notin> set acc \<Longrightarrow> norm_step True part acc = enter part acc"
proof -
  assume "ascii ''..'' \<notin> set acc"
  then have "acc = [] \<or> last acc \<noteq> ascii ''..''" by auto (metis last_in_set)
  then show ?thesis by (auto simp: norm_step_def enter_def)
qed

definition proper :: "codepoints \<Rightarrow> bool" where
  "proper w \<longleftrightarrow> w \<noteq> [] \<and> w \<noteq> ascii ''.'' \<and> w \<noteq> ascii ''..''"

lemma enter_proper: "(\<forall>w \<in> set here. proper w) \<Longrightarrow> \<forall>w \<in> set (enter part here). proper w"
  by (auto simp: enter_def proper_def dest: in_set_butlastD)

lemma fold_norm_step_rooted:
  "(\<forall>w \<in> set acc. proper w) \<Longrightarrow>
     fold (norm_step True) parts acc = fold enter parts acc \<and> (\<forall>w \<in> set (fold enter parts acc). proper w)"
proof (induction parts arbitrary: acc)
  case (Cons part parts)
  have "ascii ''..'' \<notin> set acc" using Cons.prems unfolding proper_def by blast
  then have "norm_step True part acc = enter part acc" by (rule norm_step_rooted)
  then show ?case using Cons.IH [OF enter_proper [OF Cons.prems]] by simp
qed simp

text \<open>On a path with one leading slash, normalising its text and splitting it again is walking it.\<close>

lemma in_sys_dirs_normpath:
  assumes "take 1 p = [47]" "take 2 p \<noteq> [47, 47]"
  shows "in_sys_dirs (normpath p) \<longleftrightarrow> below_system p"
proof -
  have clean: "fold (norm_step True) (split_on 47 p) [] = lands p" "\<forall>w \<in> set (lands p). w \<noteq> []"
    using fold_norm_step_rooted [of "[]" "split_on 47 p"] by (simp_all add: lands_def proper_def)
  have no_slash: "\<forall>w \<in> set (lands p). 47 \<notin> set w"
    using lands_parts [of "split_on 47 p" "[]"] split_on_clean [of _ 47 p] unfolding lands_def by auto
  from assms have "p \<noteq> []" by auto
  with assms clean(1) have n: "normpath p = 47 # join_on 47 (lands p)" by (simp add: normpath_def Let_def)
  have "split_on 47 (normpath p) = [] # split_on 47 (join_on 47 (lands p))" by (simp add: n)
  moreover have "\<not> in_sys_dirs (normpath p) \<and> \<not> below_system p" if "lands p = []"
    using that by (simp add: in_sys_dirs_def n below_system_def SYS_DIRS_def ascii_def)
  moreover have "split_on 47 (join_on 47 (lands p)) = lands p" if "lands p \<noteq> []"
    using that no_slash by (rule split_join_on)
  ultimately show ?thesis
    by (cases "lands p") (auto simp: in_sys_dirs_def below_system_def Let_def)
qed

lemma slash_suffixes_Cons: "slash_suffixes (c # cs) = (if c = 47 then [c # cs] else []) @ slash_suffixes cs"
proof -
  have "[0..<length (c # cs)] = 0 # map Suc [0..<length cs]" by (simp add: upt_conv_Cons map_Suc_upt del: upt_Suc)
  then show ?thesis by (simp add: slash_suffixes_def filter_map comp_def del: upt_Suc)
qed

lemma slash_suffixes_Nil [simp]: "slash_suffixes [] = []"
  by (simp add: slash_suffixes_def)

lemma slash_suffixes_iff: "p \<in> set (slash_suffixes seg) \<longleftrightarrow> (\<exists>pre q. p = 47 # q \<and> seg = pre @ 47 # q)"
proof (induction seg)
  case (Cons c cs)
  have "(\<exists>pre q. p = 47 # q \<and> c # cs = pre @ 47 # q) \<longleftrightarrow> c = 47 \<and> p = c # cs \<or> (\<exists>pre q. p = 47 # q \<and> cs = pre @ 47 # q)"
    by (auto simp: Cons_eq_append_conv)
  with Cons show ?case by (auto simp: slash_suffixes_Cons)
qed simp

lemma slash_suffixes_collapse: "set (slash_suffixes (collapse seg)) = collapse ` set (slash_suffixes seg)"
proof (induction seg)
  case (Cons c cs)
  show ?case
  proof (cases "c = 47 \<and> take 1 cs = [47]")
    case True
    then obtain ds where cs: "cs = 47 # ds" by (cases cs) auto
    then have "cs \<in> set (slash_suffixes cs)" by (simp add: slash_suffixes_Cons)
    then have "collapse cs \<in> collapse ` set (slash_suffixes cs)" by (rule imageI)
    moreover have "collapse (c # cs) = collapse cs" using True by simp
    moreover have "set (slash_suffixes (c # cs)) = insert (c # cs) (set (slash_suffixes cs))" using True by (simp add: slash_suffixes_Cons)
    ultimately show ?thesis using Cons by (simp only: image_insert insert_absorb)
  next
    case False
    then have "collapse (c # cs) = c # collapse cs" by auto
    with Cons show ?thesis by (cases "c = 47") (simp_all add: slash_suffixes_Cons)
  qed
qed simp

lemma collapse_rooted: "take 1 p = [47] \<Longrightarrow> take 1 (collapse p) = [47] \<and> take 2 (collapse p) \<noteq> [47, 47]"
proof (induction p)
  case (Cons c cs)
  then have c: "c = 47" by simp
  show ?case
  proof (cases cs)
    case (Cons d ds)
    show ?thesis
    proof (cases "d = 47")
      case True
      with c Cons Cons.IH show ?thesis by simp
    next
      case False
      then have "collapse cs = d # collapse ds" using Cons by simp
      with c False Cons show ?thesis by simp
    qed
  qed (simp add: c)
qed simp

lemma system_path_None:
  "system_path s = None \<longleftrightarrow> (\<forall>seg \<in> set (split_on 0 s). \<forall>pre q. seg = pre @ 47 # q \<longrightarrow> \<not> below_system (47 # q))"
proof -
  have "in_sys_dirs (normpath (collapse p)) \<longleftrightarrow> below_system p" if "p \<in> set (slash_suffixes seg)" for p seg
  proof -
    from that obtain q where "p = 47 # q" by (auto simp: slash_suffixes_iff)
    then have "take 1 p = [47]" by simp
    from collapse_rooted [OF this] in_sys_dirs_normpath [of "collapse p"] show ?thesis
      by (simp add: below_system_def lands_collapse)
  qed
  then have "(\<exists>p \<in> set (slash_suffixes (collapse seg)). in_sys_dirs (normpath p)) \<longleftrightarrow>
      (\<exists>p \<in> set (slash_suffixes seg). below_system p)" for seg
    by (simp add: slash_suffixes_collapse)
  then have "(\<exists>p \<in> set (concat (map (\<lambda>seg. map normpath (slash_suffixes (collapse seg))) (split_on 0 s))). in_sys_dirs p) \<longleftrightarrow>
      (\<exists>seg \<in> set (split_on 0 s). \<exists>p \<in> set (slash_suffixes seg). below_system p)" by simp
  then show ?thesis
    unfolding system_path_def find_None_iff slash_suffixes_iff Bex_def by blast
qed


section \<open>Values of Cyrius literals\<close>

text \<open>The reference: how a body spells its characters, one after the other.\<close>

inductive spelled :: "string \<Rightarrow> codepoints \<Rightarrow> bool" where
  empty: "spelled [] []"
| plain: "spelled s vs \<Longrightarrow> c \<noteq> BSL \<Longrightarrow> spelled (c # s) (of_char c # vs)"
| simple: "spelled s vs \<Longrightarrow> (e, v) \<in> set SIMPLE_CYR \<Longrightarrow> spelled (BSL # e # s) (v # vs)"
| byte: "spelled s vs \<Longrightarrow> length h = 2 \<Longrightarrow> is_hex h \<Longrightarrow> spelled (BSL # CHR ''x'' # h @ s) (int_base 16 h # vs)"
| braces: "spelled s vs \<Longrightarrow> 1 \<le> length h \<Longrightarrow> length h \<le> 6 \<Longrightarrow> is_hex h \<Longrightarrow> int_base 16 h \<le> 0x10FFFF \<Longrightarrow>
    spelled (BSL # CHR ''u'' # CHR ''{'' # h @ CHR ''}'' # s) (int_base 16 h # vs)"
| four: "spelled s vs \<Longrightarrow> length h = 4 \<Longrightarrow> is_hex h \<Longrightarrow> spelled (BSL # CHR ''u'' # h @ s) (int_base 16 h # vs)"
| short: "1 \<le> length h \<Longrightarrow> length h \<le> 3 \<Longrightarrow> is_hex h \<Longrightarrow> spelled (BSL # CHR ''u'' # h) [int_base 16 h]"

lemma SIMPLE_CYR_map_of: "map_of SIMPLE_CYR e = Some v \<longleftrightarrow> (e, v) \<in> set SIMPLE_CYR"
proof
  assume "(e, v) \<in> set SIMPLE_CYR"
  moreover have "distinct (map fst SIMPLE_CYR)" by (simp add: SIMPLE_CYR_def)
  ultimately show "map_of SIMPLE_CYR e = Some v" by (rule map_of_is_SomeI [rotated])
qed (rule map_of_SomeD)

lemma is_hex_take: "is_hex h \<Longrightarrow> is_hex (take n h)" "is_hex (h @ t) \<longleftrightarrow> is_hex h \<and> is_hex t"
  by (auto simp: is_hex_def list_all_iff dest: in_set_takeD)

lemma int_base_bound: "is_hex h \<Longrightarrow> int_base 16 h < 16 ^ length h"
proof -
  have digit: "hexit c < 16" if "c \<in> set HEX" for c
  proof -
    have "\<forall>c \<in> set HEX. hexit c < 16" by code_simp
    with that show ?thesis by blast
  qed
  have "foldl (\<lambda>n c. 16 * n + hexit c) a h < (a + 1) * 16 ^ length h" if "is_hex h" for a
    using that
  proof (induction h arbitrary: a)
    case (Cons c h)
    then have c: "hexit c < 16" and h: "is_hex h" using digit by (simp_all add: is_hex_def)
    have "foldl (\<lambda>n c. 16 * n + hexit c) a (c # h) < (16 * a + hexit c + 1) * 16 ^ length h"
      using Cons.IH [OF h] by simp
    also have "\<dots> \<le> (16 * (a + 1)) * 16 ^ length h" using c by (intro mult_right_mono) auto
    finally show ?case by (simp add: algebra_simps)
  qed simp
  from this [of 0] show "is_hex h \<Longrightarrow> int_base 16 h < 16 ^ length h" by (simp add: int_base_def)
qed

lemma u_digits_brace: "CHR ''}'' \<notin> set h \<Longrightarrow> u_digits (CHR ''{'' # h @ CHR ''}'' # s) = (h, s)"
proof -
  assume "CHR ''}'' \<notin> set h"
  then have "\<forall>c \<in> set h. c \<noteq> CHR ''}''" by auto
  then have "takeWhile (\<lambda>c. c \<noteq> CHR ''}'') (h @ CHR ''}'' # s) = h" by (simp add: takeWhile_append2)
  then show ?thesis by (simp add: u_digits_def Let_def)
qed

lemma u_digits_plain: "take 1 r \<noteq> ''{'' \<Longrightarrow> u_digits r = (take 4 r, drop 4 r)"
  by (simp add: u_digits_def)

lemma hex_no_brace: "is_hex h \<Longrightarrow> CHR ''{'' \<notin> set h \<and> CHR ''}'' \<notin> set h"
proof -
  have "\<forall>c \<in> set HEX. c \<noteq> CHR ''{'' \<and> c \<noteq> CHR ''}''" by code_simp
  then show "is_hex h \<Longrightarrow> CHR ''{'' \<notin> set h \<and> CHR ''}'' \<notin> set h" by (auto simp: is_hex_def list_all_iff)
qed

lemma unescape_simps:
  "cyr_unescape [] = Inr []"
  "c \<noteq> BSL \<Longrightarrow> cyr_unescape (c # s) = bindE (cyr_unescape s) (\<lambda>cs. Inr (of_char c # cs))"
  "cyr_unescape [BSL] = Inl (UnknownEscape None)"
  "map_of SIMPLE_CYR e = Some v \<Longrightarrow> cyr_unescape (BSL # e # s) = bindE (cyr_unescape s) (\<lambda>cs. Inr (v # cs))"
  by (subst cyr_unescape.simps, simp)+

lemma not_simple: "map_of SIMPLE_CYR (CHR ''x'') = None" "map_of SIMPLE_CYR (CHR ''u'') = None"
  by (simp_all add: SIMPLE_CYR_def)

lemma unescape_x: "cyr_unescape (BSL # CHR ''x'' # r) =
    (if length (take 2 r) \<noteq> 2 \<or> \<not> is_hex (take 2 r) then Inl BadX
     else bindE (cyr_unescape (drop 2 r)) (\<lambda>cs. Inr (int_base 16 (take 2 r) # cs)))"
  by (subst cyr_unescape.simps) (simp add: not_simple)

lemma unescape_u: "cyr_unescape (BSL # CHR ''u'' # r) =
    (let (h, rest) = u_digits r in
     if \<not> (1 \<le> length h \<and> length h \<le> 6) \<or> \<not> is_hex h \<or> 0x10FFFF < int_base 16 h then Inl BadU
     else bindE (cyr_unescape rest) (\<lambda>cs. Inr (int_base 16 h # cs)))"
  by (subst cyr_unescape.simps) (simp add: not_simple)

lemma hex_u_digits: "is_hex h \<Longrightarrow> h \<noteq> [] \<Longrightarrow> length h = 4 \<or> length h \<le> 3 \<and> s = [] \<Longrightarrow> u_digits (h @ s) = (h, s)"
proof -
  assume h: "is_hex h" "h \<noteq> []" "length h = 4 \<or> length h \<le> 3 \<and> s = []"
  then have "take 1 (h @ s) \<noteq> ''{''" using hex_no_brace [OF h(1)] by (cases h) auto
  with h show ?thesis by (auto simp: u_digits_plain)
qed

lemma unescape_spelled: "spelled s vs \<Longrightarrow> cyr_unescape s = Inr vs"
proof (induction rule: spelled.induct)
  case (simple s vs e v)
  then show ?case by (simp add: unescape_simps SIMPLE_CYR_map_of [symmetric])
next
  case (byte s vs h)
  then show ?case by (simp add: unescape_x)
next
  case (braces s vs h)
  then show ?case using hex_no_brace [of h] by (simp add: unescape_u u_digits_brace)
next
  case (four s vs h)
  from four have "int_base 16 h < 65536" using int_base_bound [of h] by simp
  moreover from four have "u_digits (h @ s) = (h, s)" by (intro hex_u_digits) auto
  ultimately show ?case using four by (simp add: unescape_u)
next
  case (short h)
  have "(16::nat) ^ length h \<le> 16 ^ 3" using short(2) by (intro power_increasing) auto
  then have "int_base 16 h < 4096" using int_base_bound [OF short(3)] by simp
  moreover have "u_digits (h @ []) = (h, [])" using short by (intro hex_u_digits) auto
  ultimately show ?case using short by (simp add: unescape_u unescape_simps)
qed (simp_all add: unescape_simps)

lemma spelled_u:
  assumes "u_digits r = (h, rest)" "spelled rest ws" "1 \<le> length h" "length h \<le> 6" "is_hex h" "int_base 16 h \<le> 0x10FFFF"
  shows "spelled (BSL # CHR ''u'' # r) (int_base 16 h # ws)"
proof (cases "take 1 r = ''{''")
  case True
  then obtain t where r: "r = CHR ''{'' # t" by (cases r) auto
  let ?h = "takeWhile (\<lambda>c. c \<noteq> CHR ''}'') t"
  from assms(1,3) r have "length ?h \<noteq> length t" and h: "h = ?h" and rest: "rest = drop (length ?h + 1) t"
    by (auto simp: u_digits_def Let_def split: if_splits)
  then have "dropWhile (\<lambda>c. c \<noteq> CHR ''}'') t \<noteq> []" by (metis append_Nil2 takeWhile_dropWhile_id)
  then obtain x xs where d: "dropWhile (\<lambda>c. c \<noteq> CHR ''}'') t = x # xs" by (meson neq_Nil_conv)
  then have "x = CHR ''}''" using hd_dropWhile [of "\<lambda>c. c \<noteq> CHR ''}''" t] by simp
  then have t: "t = h @ CHR ''}'' # xs" using d h by (metis takeWhile_dropWhile_id)
  have "rest = xs" unfolding rest h [symmetric] by (subst t) simp
  with spelled.braces [OF assms(2-6)] r t show ?thesis by simp
next
  case False
  then have h: "h = take 4 r" "rest = drop 4 r" using assms(1) by (simp_all add: u_digits_plain)
  show ?thesis
  proof (cases "4 \<le> length r")
    case True
    with spelled.four [OF assms(2) _ assms(5)] h show ?thesis by simp
  next
    case False
    then have "h = r" "rest = []" using h by simp_all
    moreover from assms(2) \<open>rest = []\<close> have "ws = []" by (auto elim: spelled.cases)
    ultimately show ?thesis using spelled.short [of h] assms(3,5) False by simp
  qed
qed

lemma spelled_unescape: "cyr_unescape s = Inr vs \<Longrightarrow> spelled s vs"
proof (induction s arbitrary: vs rule: length_induct)
  case (1 s)
  have IH: "cyr_unescape t = Inr ws \<Longrightarrow> length t < length s \<Longrightarrow> spelled t ws" for t ws using 1 by blast
  show ?case
  proof (cases s)
    case Nil
    with "1.prems" show ?thesis by (simp add: unescape_simps spelled.empty)
  next
    case s: (Cons c r)
    show ?thesis
    proof (cases "c = BSL")
      case False
      with s "1.prems" obtain ws where "cyr_unescape r = Inr ws" "vs = of_char c # ws" by (auto simp: unescape_simps bindE_Inr_iff)
      with s False IH show ?thesis by (auto intro: spelled.plain)
    next
      case c: True
      show ?thesis
      proof (cases r)
        case Nil
        with s c "1.prems" show ?thesis by (simp add: unescape_simps)
      next
        case r: (Cons e r')
        consider (simple) v where "map_of SIMPLE_CYR e = Some v" | (x) "e = CHR ''x''" | (u) "e = CHR ''u''"
          | (bad) "map_of SIMPLE_CYR e = None" "e \<noteq> CHR ''x''" "e \<noteq> CHR ''u''" by (cases "map_of SIMPLE_CYR e") auto
        then show ?thesis
        proof cases
          case (simple v)
          with s c r "1.prems" obtain ws where "cyr_unescape r' = Inr ws" "vs = v # ws" by (auto simp: unescape_simps bindE_Inr_iff)
          with s c r IH simple show ?thesis by (auto intro: spelled.simple simp: SIMPLE_CYR_map_of)
        next
          case x
          with s c r "1.prems" obtain ws where h: "length (take 2 r') = 2" "is_hex (take 2 r')" "cyr_unescape (drop 2 r') = Inr ws"
            "vs = int_base 16 (take 2 r') # ws" by (auto simp: unescape_x bindE_Inr_iff split: if_splits)
          from spelled.byte [OF IH [OF h(3)] h(1,2)] show ?thesis using s c r x h(4) by simp
        next
          case u
          obtain h rest where ud: "u_digits r' = (h, rest)" by fastforce
          with u s c r "1.prems" obtain ws where h: "1 \<le> length h" "length h \<le> 6" "is_hex h" "int_base 16 h \<le> 0x10FFFF"
            "cyr_unescape rest = Inr ws" "vs = int_base 16 h # ws" by (auto simp: unescape_u bindE_Inr_iff split: if_splits)
          from u_digits_shorter [OF ud [symmetric]] have "spelled rest ws" using s r by (intro IH [OF h(5)]) simp
          with spelled_u [OF ud] h u s c r show ?thesis by simp
        next
          case bad
          with s c r "1.prems" show ?thesis by (subst (asm) cyr_unescape.simps) simp
        qed
      qed
    qed
  qed
qed

section \<open>Accepted includes\<close>

lemma split_on_parts: "has_infix (ascii ''..'') s = False \<Longrightarrow> ascii ''..'' \<notin> set (split_on 47 s)"
proof -
  have infix_part: "w \<in> set (split_on d s) \<Longrightarrow> \<exists>pre post. s = pre @ w @ post" for w d and s :: codepoints
  proof (induction s arbitrary: w)
    case (Cons c s)
    obtain v vs where v: "split_on d s = v # vs" by (meson neq_Nil_conv split_on_not_Nil)
    have pre: "\<exists>post. s = v @ post"
      using v
    proof (induction s arbitrary: v vs)
      case (Cons a s)
      obtain u us where "split_on d s = u # us" by (meson neq_Nil_conv split_on_not_Nil)
      with Cons show ?case by (auto split: if_splits)
    qed simp
    from Cons.prems v consider "w = []" | "w = c # v" | "w \<in> set (split_on d s)" by (auto split: if_splits)
    then show ?case
    proof cases
      case 3
      from Cons.IH [OF this] show ?thesis by (metis append_Cons)
    next
      case 2
      with pre show ?thesis by (metis append_Cons append_Nil)
    next
      case 1
      then show ?thesis by (metis append_Nil)
    qed
  qed simp
  assume none: "has_infix (ascii ''..'') s = False"
  show ?thesis
  proof
    assume "ascii ''..'' \<in> set (split_on 47 s)"
    from infix_part [OF this] obtain pre post where s: "s = pre @ ascii ''..'' @ post" by blast
    then have "length pre \<in> set [0..<Suc (length s)]" by (simp add: ascii_def del: upt_Suc)
    moreover have "take (length (ascii ''..'')) (drop (length pre) s) = ascii ''..''" by (simp add: s)
    ultimately show False using none unfolding has_infix_def list_ex_iff by blast
  qed
qed

lemma include_problem_None:
  assumes "include_problem (Some s) stdlib exists = None"
  shows "has_infix (ascii ''..'') s = False" "list_ex (cp_starts s) [''src/'', ''lib/'', ''tests/'']" "list_ex (cp_ends s) CYR_EXT"
    "if cp_starts s ''lib/'' then before_last_dot (drop 4 s) \<in> stdlib else \<forall>f. exists = Some f \<longrightarrow> f s"
proof -
  obtain rooted dots tops exts lib slash listed where abbr: "rooted = cp_starts s ''/''" "dots = has_infix (ascii ''..'') s"
    "tops = list_ex (cp_starts s) [''src/'', ''lib/'', ''tests/'']" "exts = list_ex (cp_ends s) CYR_EXT" "lib = cp_starts s ''lib/''"
    "slash = (47 \<in> set (before_last_dot (drop 4 s)))" "listed = (before_last_dot (drop 4 s) \<in> stdlib)" by blast
  from assms have "(if rooted then Some AbsolutePath else if dots then Some HasDotDot else if \<not> tops then Some OutsideDirs
      else if \<not> exts then Some NotCyrius else if lib then (if slash \<or> \<not> listed then Some NotStdlib else None)
      else case exists of None \<Rightarrow> None | Some f \<Rightarrow> if f s then None else Some NoSuchFile) = None"
    unfolding abbr include_problem_def option.case Let_def .
  then have "\<not> dots \<and> tops \<and> exts \<and> (if lib then listed else \<forall>f. exists = Some f \<longrightarrow> f s)"
    by (auto split: if_splits option.splits)
  then show "has_infix (ascii ''..'') s = False" "list_ex (cp_starts s) [''src/'', ''lib/'', ''tests/'']" "list_ex (cp_ends s) CYR_EXT"
    "if cp_starts s ''lib/'' then before_last_dot (drop 4 s) \<in> stdlib else \<forall>f. exists = Some f \<longrightarrow> f s"
    unfolding abbr by blast+
qed

lemma fold_enter_hd: "here \<noteq> [] \<Longrightarrow> ascii ''..'' \<notin> set parts \<Longrightarrow> hd (fold enter parts here) = hd here \<and> fold enter parts here \<noteq> []"
proof (induction parts arbitrary: here)
  case (Cons w ws)
  then have "enter w here \<noteq> []" "hd (enter w here) = hd here" by (auto simp: enter_def)
  with Cons show ?case by simp
qed simp

lemma lands_in_top:
  assumes "cp_starts s (d @ ''/'')" "CHR ''/'' \<notin> set d" "proper (ascii d)" "has_infix (ascii ''..'') s = False"
  shows "\<exists>rest. lands s = ascii d # rest"
proof -
  have d: "47 \<notin> set (ascii d)"
  proof
    assume "47 \<in> set (ascii d)"
    then obtain c where "c \<in> set d" "of_char c = (47 :: nat)" by (auto simp: ascii_def)
    moreover have "of_char CHR ''/'' = (47 :: nat)" by simp
    ultimately have "c = CHR ''/''" by (metis of_char_eq_iff)
    with \<open>c \<in> set d\<close> assms(2) show False by simp
  qed
  from assms(1) have "s = ascii (d @ ''/'') @ drop (length (d @ ''/'')) s" by (metis append_take_drop_id cp_starts_def)
  then obtain t where s: "s = ascii d @ 47 # t" by (auto simp: ascii_def)
  then have sp: "split_on 47 s = ascii d # split_on 47 t" using d by (simp add: split_on_append)
  have "ascii ''..'' \<notin> set (split_on 47 t)" using split_on_parts [OF assms(4)] sp by simp
  moreover have "enter (ascii d) [] = [ascii d]" using assms(3) by (simp add: enter_def proper_def)
  ultimately have "hd (lands s) = ascii d \<and> lands s \<noteq> []"
    using fold_enter_hd [of "[ascii d]" "split_on 47 t"] by (simp add: lands_def sp)
  then show ?thesis by (metis list.collapse)
qed

text \<open>An include the scan accepts is confined: entered from the root of the repository its
  path leads below src, lib or tests, it names a Cyrius file, a lib file is a module of the
  manifest's list and any other is a file the scan reads.\<close>

lemma include_problem_inside:
  assumes "include_problem (Some s) stdlib exists = None"
  shows "(\<exists>d \<in> {''src'', ''lib'', ''tests''}. \<exists>rest. lands s = ascii d # rest) \<and> list_ex (cp_ends s) CYR_EXT \<and>
    (if cp_starts s ''lib/'' then before_last_dot (drop 4 s) \<in> stdlib else \<forall>f. exists = Some f \<longrightarrow> f s)"
proof -
  note ok = include_problem_None [OF assms]
  from ok(2) have "\<exists>d \<in> {''src'', ''lib'', ''tests''}. cp_starts s (d @ ''/'')" by simp
  then obtain d where d: "d \<in> {''src'', ''lib'', ''tests''}" "cp_starts s (d @ ''/'')" by blast
  then have "CHR ''/'' \<notin> set d" "proper (ascii d)" by (auto simp: proper_def ascii_def)
  from lands_in_top [OF d(2) this ok(1)] d(1) ok(3,4) show ?thesis by blast
qed


section \<open>Properties\<close>

text \<open>\<^verbatim>\<open>cyr_unescape\<close> returns the value a literal spells, and raises on every body that
  spells none. A body spells its characters one after the other: plainly, by one of the simple
  escapes, as two hexadecimal digits, in braces with one to six, or as four (at the end of the
  body also fewer); so however a string is written, the scan judges the same value.\<close>

theorem literal_value: "cyr_unescape s = Inr vs \<longleftrightarrow> spelled s vs"
  using unescape_spelled spelled_unescape by blast

text \<open>C25: \<^verbatim>\<open>system_path\<close> misses nothing and invents nothing. It accepts a value exactly when
  no slash in it, in any of the pieces between NUL characters, starts a path that leads into
  /etc, /bin or /sbin when its components are entered one by one from the root, with empty and
  dot components ignored and dot-dot going up.\<close>

theorem system_path_spec:
  "system_path s = None \<longleftrightarrow> (\<forall>seg \<in> set (split_on 0 s). \<forall>pre q. seg = pre @ 47 # q \<longrightarrow> \<not> below_system (47 # q))"
  by (rule system_path_None)

lemma system_path_spec_witness: "system_path (ascii ''/usr/x'') = None \<and> \<not> below_system (ascii ''/x'')"
proof -
  have n: "system_path (ascii ''/usr/x'') = None" by code_simp
  have "split_on 0 (ascii ''/usr/x'') = [ascii ''/usr/x'']" by (simp add: ascii_def)
  then have "ascii ''/usr/x'' \<in> set (split_on 0 (ascii ''/usr/x''))" by simp
  moreover have "ascii ''/usr/x'' = ascii ''/usr'' @ 47 # ascii ''x''" by (simp add: ascii_def)
  ultimately have "\<not> below_system (47 # ascii ''x'')" using n system_path_spec by blast
  with n show ?thesis by (simp add: ascii_def)
qed

end
