(* ===== verification/PyReLang.thy ===== *)
theory PyReLang
  imports PyRe
begin

text \<open>
  The words of a pattern, apart from any text: a pattern without lookarounds and anchors accepts
  a word, and then its matcher can take that word wherever it stands. Negative facts about a
  text (nothing matches) so become facts about the words it cannot contain.
\<close>


section \<open>Ways to match\<close>

text \<open>\<open>fits r s i j\<close>: the pattern can match from \<open>i\<close> to \<open>j\<close>, whatever was captured before.\<close>

definition fits :: "rx \<Rightarrow> string \<Rightarrow> nat \<Rightarrow> nat \<Rightarrow> bool" where
  "fits r s i j \<longleftrightarrow> (\<forall>g. \<exists>h. (j, h) \<in> set (rx_m r s (length s) i g))"

lemma fits_Seq: "fits a s i k \<Longrightarrow> fits b s k j \<Longrightarrow> fits (Seq a b) s i j"
  unfolding fits_def rx_m_basic_mem by meson

lemma fits_Seqs: "fits r s i k \<Longrightarrow> fits (Seqs (q # rs)) s k j \<Longrightarrow> fits (Seqs (r # q # rs)) s i j"
  by (simp add: fits_Seq)

lemma fits_Alt: "fits a s i j \<or> fits b s i j \<Longrightarrow> fits (Alt a b) s i j"
  unfolding fits_def rx_m_basic_mem by blast

lemma fits_Grp: "fits r s i j \<Longrightarrow> fits (Grp k r) s i j"
  unfolding fits_def rx_m_basic_mem by blast

lemma fits_Ahead: "fits r s i j \<Longrightarrow> fits (Ahead True r) s i i"
proof -
  assume r: "fits r s i j"
  have "rx_m r s (length s) i g \<noteq> []" for g using r unfolding fits_def by (metis empty_iff list.set(1))
  then show ?thesis unfolding fits_def rx_m_basic_mem by simp
qed

lemma star_m_lazy: "set (star_m False k f i g) = set (star_m True k f i g)"
proof (induction k arbitrary: i g)
  case (Suc k)
  have "set (concat (map (\<lambda>(j, h). if i < j then star_m False k f j h else []) (f i g))) =
      set (concat (map (\<lambda>(j, h). if i < j then star_m True k f j h else []) (f i g)))"
    using Suc.IH by (auto split: if_splits)
  then show ?case by (simp add: Let_def)
qed simp

lemma star_m_fuel: "x \<in> set (star_m True k f i g) \<Longrightarrow> k \<le> n \<Longrightarrow> x \<in> set (star_m True n f i g)"
proof (induction k arbitrary: n i g)
  case 0
  then show ?case by (cases n) (simp_all add: Let_def)
next
  case (Suc k)
  then obtain n' where n: "n = Suc n'" "k \<le> n'" by (cases n) auto
  with Suc.prems(1) Suc.IH [of _ _ n'] show ?case by (auto simp: Let_def split: if_splits) blast+
qed

lemma fits_star_step:
  assumes "fits r s i k" "fits (Star r) s k j" "i < k" "k \<le> length s"
  shows "fits (Star r) s i j"
  unfolding fits_def
proof
  fix g
  from assms(1) obtain h where h: "(k, h) \<in> set (rx_m r s (length s) i g)" unfolding fits_def by blast
  from assms(2) obtain h' where "(j, h') \<in> set (rx_m (Star r) s (length s) k h)" unfolding fits_def by blast
  then have "(j, h') \<in> set (star_m True (length s - k) (rx_m r s (length s)) k h)" by simp
  then have h': "(j, h') \<in> set (star_m True (length s - i - 1) (rx_m r s (length s)) k h)"
    by (rule star_m_fuel) (use assms(3) in simp)
  obtain m where m: "length s - i = Suc m" using assms(3,4) by (cases "length s - i") auto
  have "(j, h') \<in> set (star_m True (Suc m) (rx_m r s (length s)) i g)"
    using h h' assms(3) m by (auto simp: Let_def intro!: bexI [of _ "(k, h)"])
  then show "\<exists>h. (j, h) \<in> set (rx_m (Star r) s (length s) i g)" by (auto simp: m)
qed


section \<open>Accepted words\<close>

inductive accepts :: "rx \<Rightarrow> string \<Rightarrow> bool" where
  eps: "accepts Eps []"
| cls: "P c \<Longrightarrow> accepts (Cls P) [c]"
| seq: "accepts a x \<Longrightarrow> accepts b y \<Longrightarrow> accepts (Seq a b) (x @ y)"
| left: "accepts a x \<Longrightarrow> accepts (Alt a b) x"
| right: "accepts b x \<Longrightarrow> accepts (Alt a b) x"
| grp: "accepts r x \<Longrightarrow> accepts (Grp k r) x"
| star_stop: "accepts (Star r) []"
| star_go: "accepts r x \<Longrightarrow> accepts (Star r) y \<Longrightarrow> x \<noteq> [] \<Longrightarrow> accepts (Star r) (x @ y)"
| lazy: "accepts (Star r) x \<Longrightarrow> accepts (LStar r) x"

lemma startswith_at_append: "startswith_at s (u @ v) i \<longleftrightarrow> startswith_at s u i \<and> startswith_at s v (i + length u)"
proof
  let ?D = "drop i s"
  assume "startswith_at s (u @ v) i"
  then have X: "take (length u + length v) ?D = u @ v" by (simp add: startswith_at_def)
  from arg_cong [OF X, of "take (length u)"] arg_cong [OF X, of "drop (length u)"]
  show "startswith_at s u i \<and> startswith_at s v (i + length u)"
    by (simp add: startswith_at_def min_def drop_take add.commute)
qed (simp add: startswith_at_def take_add add.commute)

lemma accepts_fits: "accepts r x \<Longrightarrow> startswith_at s x i \<Longrightarrow> i + length x \<le> length s \<Longrightarrow> fits r s i (i + length x)"
proof (induction arbitrary: i rule: accepts.induct)
  case (cls P c)
  then have "s ! i = c" "i < length s" using startswith_at_nth [of s "[c]" i 0] by simp_all
  with cls(1) show ?case unfolding fits_def rx_m_basic_mem by simp
next
  case (seq a x b y)
  then have "fits a s i (i + length x)" "fits b s (i + length x) (i + length x + length y)"
    using seq.IH(1) [of i] seq.IH(2) [of "i + length x"] by (simp_all add: startswith_at_append)
  from fits_Seq [OF this] show ?case by (simp add: add.assoc)
next
  case (star_stop r)
  have "(i, g) \<in> set (star_m True k f i g)" for k g and f :: "nat \<Rightarrow> groups \<Rightarrow> (nat \<times> groups) list"
    by (cases k) (simp_all add: Let_def)
  then show ?case by (auto simp: fits_def)
next
  case (star_go r x y)
  then have "fits r s i (i + length x)" "fits (Star r) s (i + length x) (i + length x + length y)"
    using star_go.IH(1) [of i] star_go.IH(2) [of "i + length x"] by (simp_all add: startswith_at_append)
  from fits_star_step [OF this] star_go show ?case by (simp add: add.assoc)
next
  case (lazy r x)
  then show ?case by (simp add: fits_def star_m_lazy)
next
  case eps
  then show ?case by (simp add: fits_def)
qed (simp_all add: fits_Alt fits_Grp)

text \<open>The derived forms.\<close>

lemma accepts_Seqs: "accepts r x \<Longrightarrow> accepts (Seqs (q # rs)) y \<Longrightarrow> accepts (Seqs (r # q # rs)) (x @ y)"
  by (simp add: accepts.seq)

lemma accepts_Seqs1: "accepts r x \<Longrightarrow> accepts (Seqs [r]) x"
  by simp

lemma accepts_Chr: "accepts (Chr c) [c]"
  by (simp add: Chr_def accepts.cls)

lemma accepts_Lit: "accepts (Lit w) w"
proof (induction w rule: induct_list012)
  case (3 c d w)
  from accepts.seq [OF accepts_Chr [of c] 3(2)] show ?case by (simp add: Lit_def)
qed (simp_all add: Lit_def accepts.eps accepts_Chr)

lemma accepts_Alts: "r \<in> set rs \<Longrightarrow> accepts r x \<Longrightarrow> accepts (Alts rs) x"
  by (induction rs rule: induct_list012) (auto intro: accepts.left accepts.right)

lemma accepts_Words: "w \<in> set ws \<Longrightarrow> accepts (Words ws) w"
  unfolding Words_def by (rule accepts_Alts [OF _ accepts_Lit]) simp

lemma accepts_Star: "list_all P x \<Longrightarrow> accepts (Star (Cls P)) x"
proof (induction x)
  case (Cons c x)
  from accepts.star_go [OF accepts.cls [of P c], of x] Cons show ?case by simp
qed (simp add: accepts.star_stop)

lemma accepts_LStar: "list_all P x \<Longrightarrow> accepts (LStar (Cls P)) x"
  by (rule accepts.lazy [OF accepts_Star])

lemma accepts_Plus: "list_all P x \<Longrightarrow> x \<noteq> [] \<Longrightarrow> accepts (Plus (Cls P)) x"
proof (cases x)
  case (Cons c y)
  assume "list_all P x"
  with accepts.seq [OF accepts.cls [of P c] accepts_Star [of P y]] show ?thesis by (simp add: Plus_def Cons)
qed simp

lemma accepts_Opt: "accepts r x \<or> x = [] \<Longrightarrow> accepts (Opt r) x"
  unfolding Opt_def by (auto intro: accepts.left accepts.right accepts.eps)

end
