(* ===== verification/SecScanSpec.thy ===== *)
theory SecScanSpec
  imports SecScan SecTextSpec CyrDeclSpec PyReLang
begin

text \<open>
  What a scan without findings means: the words, calls and strings that the code of the file
  cannot hold. The patterns are turned into statements about words of the text.
\<close>


section \<open>Words of the code\<close>

lemma accepts_LitI: "list_all2 same_letter w x \<Longrightarrow> accepts (LitI w) x"
proof (induction w x rule: list_all2_induct)
  case (Cons c w d x)
  show ?case
  proof (cases w)
    case Nil
    with Cons show ?thesis by (simp add: LitI_def accepts.cls)
  next
    case (Cons e v)
    with accepts.seq [OF accepts.cls [of "same_letter c" d] Cons.IH] Cons.hyps show ?thesis by (simp add: LitI_def)
  qed
qed (simp add: LitI_def accepts.eps)

lemma fits_matches: "fits r s i j \<Longrightarrow> i \<le> length s \<Longrightarrow> matches_at r s i"
  unfolding fits_def matches_at_iff by blast

text \<open>A whole word: identifier characters with none before and none behind.\<close>

definition whole_word :: "string \<Rightarrow> string \<Rightarrow> nat \<Rightarrow> bool" where
  "whole_word s w k \<longleftrightarrow> w \<noteq> [] \<and> list_all ident_char w \<and> word_at ident_char s w k"

lemma whole_word_le: "whole_word s w k \<Longrightarrow> k + length w \<le> length s"
  by (auto simp: whole_word_def dest: word_at_le)

lemma startswith_whole: "whole_word s w k \<Longrightarrow> startswith_at s w k"
  by (simp add: whole_word_def word_at_def)

lemma fits_W: "whole_word s w k \<Longrightarrow> fits rx_W s k k"
  unfolding fits_def rx_W_def rx_m_basic_mem whole_word_def word_at_def by blast

lemma fits_E: "whole_word s w k \<Longrightarrow> fits rx_E s (k + length w) (k + length w)"
  unfolding fits_def rx_E_def Ahead_class_mem whole_word_def word_at_def by blast

lemma word_matches:
  assumes "whole_word s w k" "accepts r w"
  shows "matches_at (Seqs [rx_W, Grp n r, rx_E]) s k" "matches_at (Seqs [rx_W, r, rx_E]) s k"
proof -
  note r = accepts_fits [OF assms(2) startswith_whole [OF assms(1)] whole_word_le [OF assms(1)]]
  have "fits (Seqs [rx_W, r, rx_E]) s k (k + length w)"
    by (rule fits_Seqs [OF fits_W [OF assms(1)]], rule fits_Seqs [OF r]) (simp add: fits_E [OF assms(1)])
  moreover have "fits (Seqs [rx_W, Grp n r, rx_E]) s k (k + length w)"
    by (rule fits_Seqs [OF fits_W [OF assms(1)]], rule fits_Seqs [OF fits_Grp [OF r]]) (simp add: fits_E [OF assms(1)])
  ultimately show "matches_at (Seqs [rx_W, Grp n r, rx_E]) s k" "matches_at (Seqs [rx_W, r, rx_E]) s k"
    using whole_word_le [OF assms(1)] by (auto intro: fits_matches)
qed

lemma finditer_Nil: "finditer r s = [] \<Longrightarrow> \<not> matches_at r s k"
proof
  assume nil: "finditer r s = []" and m: "matches_at r s k"
  have "search_adv r s None 0 (length s) = None"
  proof (cases "search_adv r s None 0 (length s)")
    case (Some m)
    then have "finditer r s \<noteq> []" unfolding finditer_def by (subst iter_from.simps) simp
    with nil show ?thesis by simp
  qed
  from search_adv_None [OF this] m show False by (auto simp: matches_at_def)
qed

text \<open>What the scan calls a spawn helper, a spawn constant, an executable-memory primitive and a
  spawn symbol, as words.\<close>

definition spawn_helper :: "string \<Rightarrow> bool" where
  "spawn_helper w \<longleftrightarrow> (\<exists>u x v. w = ''sys_'' @ u @ x @ v \<and> x \<in> set [''exec'', ''fork'', ''clone'', ''spawn'', ''system''])"

definition spawn_const :: "string \<Rightarrow> bool" where
  "spawn_const w \<longleftrightarrow> (\<exists>p u y x v. w = p @ ''_'' @ u @ x @ v \<and> p \<in> set [''SYS'', ''__NR''] \<and>
     y \<in> set [''exec'', ''fork'', ''clone'', ''spawn''] \<and> list_all2 same_letter y x)"

definition exec_memory :: "string \<Rightarrow> bool" where
  "exec_memory w \<longleftrightarrow> w = ''PROT_EXEC'' \<or> (\<exists>v. w = ''cyr_mmap'' @ v) \<or>
     (\<exists>p y x. w = p @ x \<and> (p = [] \<or> p \<in> set [''sys_'', ''SYS_'', ''__NR_'']) \<and> list_all2 same_letter y x \<and>
       y \<in> set [''mmap'', ''mmap2'', ''mmap64'', ''mprotect'', ''pkey_mprotect'', ''mremap'', ''process_vm_writev'', ''ptrace''])"

definition spawn_prefix :: "string \<Rightarrow> bool" where
  "spawn_prefix p \<longleftrightarrow> p = [] \<or> p = ''__libc_'' \<or> list_all ((=) (CHR ''_'')) p"

definition spawn_symbol :: "string \<Rightarrow> bool" where
  "spawn_symbol w \<longleftrightarrow> (\<exists>p x. w = p @ x \<and> spawn_prefix p \<and> x \<in> set SPAWN_WORDS)"

lemma accepts_helper:
  assumes "spawn_helper w" "list_all ident_char w"
  shows "accepts (Seqs [Lit ''sys_'', LStar (Cls ident_char), Words [''exec'', ''fork'', ''clone'', ''spawn'', ''system''], rx_word]) w"
proof -
  obtain u x v where w: "w = ''sys_'' @ u @ x @ v" "x \<in> set [''exec'', ''fork'', ''clone'', ''spawn'', ''system'']"
    using assms(1) unfolding spawn_helper_def by blast
  then have "list_all ident_char u" "list_all ident_char v" using assms(2) by simp_all
  then show ?thesis unfolding w(1) rx_word_def
    by (intro accepts_Seqs accepts_Lit accepts_LStar accepts_Words w(2) accepts_Seqs1 accepts_Star)
qed

lemma accepts_const:
  assumes "spawn_const w" "list_all ident_char w"
  shows "accepts (Seqs [Words [''SYS'', ''__NR''], Chr (CHR ''_''), LStar (Cls ident_char),
     Alts (map LitI [''exec'', ''fork'', ''clone'', ''spawn'']), rx_word]) w"
proof -
  obtain p u y x v where w: "w = p @ ''_'' @ u @ x @ v" "p \<in> set [''SYS'', ''__NR'']"
    "y \<in> set [''exec'', ''fork'', ''clone'', ''spawn'']" "list_all2 same_letter y x" using assms(1) unfolding spawn_const_def by blast
  then have "list_all ident_char u" "list_all ident_char v" using assms(2) by simp_all
  moreover have "LitI y \<in> set (map LitI [''exec'', ''fork'', ''clone'', ''spawn''])" using w(3) by (simp only: set_map imageI)
  ultimately show ?thesis unfolding w(1) rx_word_def
    by (intro accepts_Seqs accepts_Chr accepts_LStar accepts_Words w(2) accepts_Alts [OF _ accepts_LitI [OF w(4)]] accepts_Seqs1 accepts_Star)
qed

lemma accepts_memory:
  assumes "exec_memory w" "list_all ident_char w"
  shows "accepts (Alts [
     Seq (Opt (Words [''sys_'', ''SYS_'', ''__NR_'']))
       (Alts (map LitI [''mmap'', ''mmap2'', ''mmap64'', ''mprotect'', ''pkey_mprotect'', ''mremap'', ''process_vm_writev'', ''ptrace''])),
     Lit ''PROT_EXEC'', Seq (Lit ''cyr_mmap'') rx_word]) w"
proof -
  from assms(1) consider (prot) "w = ''PROT_EXEC''" | (cyr) v where "w = ''cyr_mmap'' @ v"
    | (call) p y x where "w = p @ x" "p = [] \<or> p \<in> set [''sys_'', ''SYS_'', ''__NR_'']" "list_all2 same_letter y x"
      "y \<in> set [''mmap'', ''mmap2'', ''mmap64'', ''mprotect'', ''pkey_mprotect'', ''mremap'', ''process_vm_writev'', ''ptrace'']"
    unfolding exec_memory_def by blast
  then show ?thesis
  proof cases
    case prot
    then show ?thesis by (intro accepts_Alts [of "Lit ''PROT_EXEC''"]) (simp_all add: accepts_Lit)
  next
    case (cyr v)
    then have "accepts (Seq (Lit ''cyr_mmap'') rx_word) w"
      unfolding rx_word_def cyr using assms(2) cyr by (intro accepts.seq accepts_Lit accepts_Star) simp
    then show ?thesis by (intro accepts_Alts [of "Seq (Lit ''cyr_mmap'') rx_word"]) simp_all
  next
    case (call p y x)
    have "LitI y \<in> set (map LitI [''mmap'', ''mmap2'', ''mmap64'', ''mprotect'', ''pkey_mprotect'', ''mremap'', ''process_vm_writev'', ''ptrace''])"
      using call(4) by (simp only: set_map imageI)
    from accepts.seq [OF _ accepts_Alts [OF this accepts_LitI [OF call(3)]]] have
      "accepts (Seq (Opt (Words [''sys_'', ''SYS_'', ''__NR_'']))
         (Alts (map LitI [''mmap'', ''mmap2'', ''mmap64'', ''mprotect'', ''pkey_mprotect'', ''mremap'', ''process_vm_writev'', ''ptrace'']))) w"
      unfolding call(1) using call(2) accepts_Words by (meson accepts_Opt)
    then show ?thesis by (rule accepts_Alts [rotated]) simp
  qed
qed

lemma accepts_symbol: "spawn_prefix p \<Longrightarrow> x \<in> set ws \<Longrightarrow> accepts (Seq rx_PFX (Words ws)) (p @ x)"
proof (rule accepts.seq [OF _ accepts_Words])
  assume "spawn_prefix p"
  then have "accepts (Plus (Chr (CHR ''_''))) p \<or> p = ''__libc_'' \<or> p = []"
    unfolding spawn_prefix_def Chr_def by (auto intro: accepts_Plus)
  then show "accepts rx_PFX p"
    unfolding rx_PFX_def by (auto intro!: accepts_Opt intro: accepts.left accepts.right accepts_Lit)
qed

section \<open>Spawn symbols in Cyrius\<close>

text \<open>A word an \<^verbatim>\<open>object;\<close> build links: a spawn symbol that is called, or whose address is taken.\<close>

definition spawn_extern :: "string \<Rightarrow> bool" where
  "spawn_extern w \<longleftrightarrow> (\<exists>p x. w = p @ x \<and> spawn_prefix p \<and> x \<in> set SPAWN_WORDS \<and> x \<noteq> ''syscall'')"

definition called_at :: "string \<Rightarrow> nat \<Rightarrow> bool" where
  "called_at s j \<longleftrightarrow> (\<exists>a. spaces_between s j a \<and> a < length s \<and> s ! a = CHR ''('')"

definition address_at :: "string \<Rightarrow> nat \<Rightarrow> bool" where
  "address_at s k \<longleftrightarrow> (\<exists>a. a < k \<and> s ! a = CHR ''&'' \<and> spaces_between s (Suc a) k)"

lemma fits_spaces: "spaces_between s a b \<Longrightarrow> fits rx_sp s a b"
  unfolding fits_def rx_sp_def rx_m_Star_class_mem spaces_between_def by auto

lemma fits_Chr: "i < length s \<Longrightarrow> s ! i = c \<Longrightarrow> fits (Chr c) s i (Suc i)"
  unfolding fits_def rx_m_basic_mem by blast

lemma spawn_extern_matches:
  assumes w: "whole_word s w k" and ext: "spawn_extern w"
  shows "called_at s (k + length w) \<Longrightarrow> matches_at SPAWN_CYR_EXTERN s k"
    "address_at s k \<Longrightarrow> \<exists>a. matches_at SPAWN_CYR_EXTERN s a"
proof -
  from ext obtain p x where "w = p @ x" "spawn_prefix p" "x \<in> set (filter (\<lambda>w. w \<noteq> ''syscall'') SPAWN_WORDS)"
    unfolding spawn_extern_def by auto
  then have "accepts rx_EXTERN w" unfolding rx_EXTERN_def using accepts_symbol by blast
  from accepts_fits [OF this startswith_whole [OF w] whole_word_le [OF w]]
  have ext: "fits rx_EXTERN s k (k + length w)" .
  let ?e = "k + length w"
  show "called_at s ?e \<Longrightarrow> matches_at SPAWN_CYR_EXTERN s k"
  proof -
    assume "called_at s ?e"
    then obtain a where a: "spaces_between s ?e a" "a < length s" "s ! a = CHR ''(''" by (auto simp: called_at_def)
    have empty: "fits rx_sp s a a" using a by (intro fits_spaces) (simp add: spaces_between_def)
    have none: "fits rx_TYPARAMS s a a" unfolding rx_TYPARAMS_def fits_def rx_m_basic_mem by blast
    have "fits (Seqs [rx_sp, rx_TYPARAMS, rx_sp, Chr (CHR ''('')]) s ?e (Suc a)"
      by (rule fits_Seqs [OF fits_spaces [OF a(1)]], rule fits_Seqs [OF none], rule fits_Seqs [OF empty])
        (simp add: fits_Chr [OF a(2,3)])
    from fits_Ahead [OF this] have "fits (Seqs [rx_W, Grp 2 rx_EXTERN, rx_E,
        Ahead True (Seqs [rx_sp, rx_TYPARAMS, rx_sp, Chr (CHR ''('')])]) s k ?e"
      by (intro fits_Seqs [OF fits_W [OF w]] fits_Seqs [OF fits_Grp [OF ext]] fits_Seqs [OF fits_E [OF w]]) (simp only: Seqs.simps)
    then have "fits SPAWN_CYR_EXTERN s k ?e" unfolding SPAWN_CYR_EXTERN_def by (intro fits_Alt disjI2)
    then show "matches_at SPAWN_CYR_EXTERN s k" by (rule fits_matches) (use whole_word_le [OF w] in simp)
  qed
  show "address_at s k \<Longrightarrow> \<exists>a. matches_at SPAWN_CYR_EXTERN s a"
  proof -
    assume "address_at s k"
    then obtain a where a: "a < k" "s ! a = CHR ''&''" "spaces_between s (Suc a) k" by (auto simp: address_at_def)
    have len: "a < length s" using a(1) whole_word_le [OF w] by simp
    have "fits (Seqs [Chr (CHR ''&''), rx_sp, rx_W, Grp 1 rx_EXTERN, rx_E]) s a ?e"
      by (rule fits_Seqs [OF fits_Chr [OF len a(2)]], rule fits_Seqs [OF fits_spaces [OF a(3)]], rule fits_Seqs [OF fits_W [OF w]],
          rule fits_Seqs [OF fits_Grp [OF ext]]) (simp only: Seqs.simps fits_E [OF w])
    then have "fits SPAWN_CYR_EXTERN s a ?e" unfolding SPAWN_CYR_EXTERN_def by (intro fits_Alt disjI1)
    with len fits_matches [of SPAWN_CYR_EXTERN s a] show ?thesis by auto
  qed
qed


section \<open>Scans without findings\<close>

lemma each_Nil: "each r code src f = [] \<Longrightarrow> \<not> matches_at r code k"
  by (simp add: each_def finditer_Nil)

lemma scan_cyr_Nil:
  assumes "scan_cyr src stdlib exists = []"
  shows "both_langs src (strip src Cyr False) = []" "hazards src = []" "\<not> matches_at SPAWN_CYR (strip src Cyr False) k"
    "\<not> matches_at SPAWN_CYR_EXTERN (strip src Cyr False) k" "\<not> matches_at ASM_CYR (strip src Cyr False) k"
    "syscall_hits src (strip src Cyr False) = []" "buffer_hits src (strip src Cyr False) = []" "directive_hits src = []"
    "include_hits src (strip src Cyr False) (strip src Cyr True) stdlib exists = []" "literal_hits src = []"
  using assms each_Nil unfolding scan_cyr_def Let_def append_is_Nil_conv map_is_Nil_conv by blast+

lemma scan_c_Nil:
  assumes "scan_c src = []"
  shows "both_langs src (strip src C False) = []" "\<not> matches_at SPAWN_C (strip src C False) k" "\<not> matches_at ASM_C (strip src C False) k"
    "\<forall>m \<in> set (finditer C_INCLUDE_LINE (strip src C True)).
       c_include_problem (group_or_empty (strip src C True) m 1) (group_or_empty (strip src C True) m 2) = None"
    "\<forall>(pos, v) \<in> set (c_strings src (strip src C False)). system_path v = None"
proof -
  note nil = assms [unfolded scan_c_def Let_def append_is_Nil_conv]
  show "both_langs src (strip src C False) = []" "\<not> matches_at SPAWN_C (strip src C False) k" "\<not> matches_at ASM_C (strip src C False) k"
    using nil each_Nil by blast+
  from nil show "\<forall>m \<in> set (finditer C_INCLUDE_LINE (strip src C True)).
       c_include_problem (group_or_empty (strip src C True) m 1) (group_or_empty (strip src C True) m 2) = None"
    by (auto split: option.splits)
  from nil show "\<forall>(pos, v) \<in> set (c_strings src (strip src C False)). system_path v = None"
    by (auto split: option.splits)
qed

lemma both_langs_words:
  assumes "both_langs src code = []" "whole_word code w k"
  shows "\<not> spawn_const w" "\<not> exec_memory w"
proof -
  have "\<not> matches_at SPAWN_CONST code k" "\<not> matches_at MEMEXEC code k"
    using assms(1) each_Nil unfolding both_langs_def append_is_Nil_conv by blast+
  moreover have "list_all ident_char w" using assms(2) by (simp add: whole_word_def)
  ultimately show "\<not> spawn_const w" "\<not> exec_memory w"
    using word_matches(1) [OF assms(2) accepts_const] word_matches(1) [OF assms(2) accepts_memory]
    unfolding SPAWN_CONST_def MEMEXEC_def by blast+
qed

text \<open>Every \<open>syscall\<close> of a clean file.\<close>

definition syscall_allowed :: "string \<Rightarrow> nat \<Rightarrow> bool" where
  "syscall_allowed code k \<longleftrightarrow>
     (\<exists>a t. k \<le> a \<and> a < length code \<and> (\<forall>i. k \<le> i \<and> i < a \<longrightarrow> code ! i \<in> {SP, TAB, LF}) \<and> code ! a = CHR ''('' \<and>
        first_arg code a = Some t \<and> (strip_ws t \<in> set SYSCALL_NAMES \<or> (\<exists>v \<in> set SYSCALL_NUMBERS. cyr_int (strip_ws t) = Some v)))"

lemma skip_while_stops:
  "j \<le> n \<Longrightarrow> j \<le> skip_while P s j n \<and> skip_while P s j n \<le> n \<and> (\<forall>i. j \<le> i \<and> i < skip_while P s j n \<longrightarrow> P (s ! i)) \<and>
     (skip_while P s j n < n \<longrightarrow> \<not> P (s ! skip_while P s j n))"
proof (induction P s j n rule: skip_while.induct)
  case (1 P s j n)
  show ?case
  proof (cases "j < n \<and> P (s ! j)")
    case True
    with "1.IH" have IH: "Suc j \<le> skip_while P s (Suc j) n" "skip_while P s (Suc j) n \<le> n"
      "\<forall>i. Suc j \<le> i \<and> i < skip_while P s (Suc j) n \<longrightarrow> P (s ! i)"
      "skip_while P s (Suc j) n < n \<longrightarrow> \<not> P (s ! skip_while P s (Suc j) n)" by auto
    have eq: "skip_while P s j n = skip_while P s (Suc j) n" using True by (subst skip_while.simps) simp
    show ?thesis unfolding eq using IH True by (metis Suc_leD Suc_leI le_neq_implies_less)
  next
    case False
    then have "skip_while P s j n = j" by (subst skip_while.simps) (rule if_not_P)
    with False "1.prems" show ?thesis by auto
  qed
qed

lemma syscall_label_None:
  assumes "syscall_label code m = None" "m_end m \<le> length code"
  shows "syscall_allowed code (m_end m)"
proof -
  let ?k = "skip_while (\<lambda>c. c \<in> {SP, TAB, LF}) code (m_end m) (length code)"
  let ?a = "strip_ws (case first_arg code ?k of None \<Rightarrow> [] | Some t \<Rightarrow> t)"
  note k = skip_while_stops [OF assms(2), of "\<lambda>c. c \<in> {SP, TAB, LF}" code]
  have here: "\<not> (length code \<le> ?k \<or> code ! ?k \<noteq> CHR ''('')"
  proof
    assume "length code \<le> ?k \<or> code ! ?k \<noteq> CHR ''(''"
    then have "syscall_label code m = Some SyscallNotCalled" unfolding syscall_label_def Let_def by (rule if_P)
    with assms(1) show False by simp
  qed
  have a: "(if fullmatch SYS_NAME ?a \<noteq> None then (if ?a \<in> set SYSCALL_NAMES then None else Some (SyscallNameRefused ?a))
     else if fullmatch DIGIT_TOKEN ?a \<noteq> None then
          (case cyr_int ?a of
             None \<Rightarrow> Some (SyscallBadNumber ?a)
           | Some v \<Rightarrow> if v \<in> set SYSCALL_NUMBERS then None else Some (SyscallNumberRefused ?a v))
     else Some (SyscallComputed ?a)) = None"
    using assms(1) unfolding syscall_label_def Let_def if_not_P [OF here] .
  then have good: "?a \<in> set SYSCALL_NAMES \<or> (\<exists>v \<in> set SYSCALL_NUMBERS. cyr_int ?a = Some v)"
    by (cases "fullmatch SYS_NAME ?a \<noteq> None"; cases "fullmatch DIGIT_TOKEN ?a \<noteq> None"; cases "cyr_int ?a") (auto split: if_splits)
  have "cyr_int [] = None" "[] \<notin> set SYSCALL_NAMES" "strip_ws [] = []"
    by (simp_all add: cyr_int_def starts_with_def SYSCALL_NAMES_def strip_ws_def)
  with good obtain t where "first_arg code ?k = Some t" by (cases "first_arg code ?k") auto
  with good k here show ?thesis
    unfolding syscall_allowed_def by (intro exI [of _ ?k] exI [of _ t]) simp
qed

lemma SYSCALL_mem: "(j, h) \<in> set (rx_m SYSCALL s (length s) k []) \<longleftrightarrow> h = [] \<and> j = k + 7 \<and> word_at ident_char s ''syscall'' k"
  unfolding SYSCALL_def rx_W_def rx_E_def by (subst word_rx_mem) (simp_all add: eval_nat_numeral)

lemma SYSCALL_finditer:
  assumes "whole_word s ''syscall'' k"
  obtains m where "m \<in> set (finditer SYSCALL s)" "m_end m = k + 7"
proof -
  have le: "k \<le> length s" using whole_word_le [OF assms] by simp
  have w: "word_at ident_char s ''syscall'' k" using assms by (simp add: whole_word_def)
  have once: "i < j \<and> (\<forall>t. i < t \<and> t < j \<longrightarrow> \<not> matches_at SYSCALL s t)" if "(j, h) \<in> set (rx_m SYSCALL s (length s) i [])" for i j h
  proof -
    have cls: "set ''syscall'' \<subseteq> Collect ident_char" by (simp add: char_class_defs)
    from that have "j = i + length ''syscall''" "word_at ident_char s ''syscall'' i" by (simp_all add: SYSCALL_mem)
    with word_at_inside [of ident_char s "''syscall''" i ident_char "''syscall''" , OF _ _ _ _ cls] show ?thesis
      by (auto simp only: matches_at_iff SYSCALL_mem length_greater_0_conv less_add_same_cancel1)
  qed
  have "matches_at SYSCALL s k" using w le by (auto simp: matches_at_iff SYSCALL_mem)
  then have "k \<in> set (map m_start (finditer SYSCALL s))" by (simp only: finditer_starts(1) [OF once] mem_Collect_eq)
  then obtain m where m: "m \<in> set (finditer SYSCALL s)" "m_start m = k" by auto
  from finditer_mem [OF m(1)] have "m_end m = k + 7" by (simp add: SYSCALL_mem m(2))
  with m(1) show ?thesis by (rule that)
qed

text \<open>The words of a clean file.\<close>

lemma cyr_words:
  assumes nil: "scan_cyr src stdlib exists = []" and w: "whole_word (strip src Cyr False) w k"
  shows "\<not> spawn_helper w \<and> \<not> spawn_const w \<and> \<not> exec_memory w \<and> w \<noteq> ''asm'' \<and>
    (spawn_extern w \<longrightarrow> \<not> called_at (strip src Cyr False) (k + length w) \<and> \<not> address_at (strip src Cyr False) k)"
proof -
  note clean = scan_cyr_Nil [OF nil]
  have id: "list_all ident_char w" using w by (simp add: whole_word_def)
  have "\<not> spawn_helper w"
    using word_matches(1) [OF w accepts_helper] id clean(3) unfolding SPAWN_CYR_def by blast
  moreover have "w \<noteq> ''asm''"
    using word_matches(2) [OF w accepts_Lit] clean(5) unfolding ASM_CYR_def by blast
  ultimately show ?thesis
    using both_langs_words [OF clean(1) w] spawn_extern_matches [OF w] clean(4) by blast
qed

lemma c_words:
  assumes nil: "scan_c src = []" and w: "whole_word (strip src C False) w k"
  shows "\<not> spawn_symbol w \<and> \<not> spawn_const w \<and> \<not> exec_memory w \<and> w \<notin> {''asm'', ''__asm'', ''__asm__''} \<and>
    (\<forall>(pos, v) \<in> set (c_strings src (strip src C False)). system_path v = None)"
proof -
  note clean = scan_c_Nil [OF nil]
  have "\<not> spawn_symbol w"
  proof
    assume "spawn_symbol w"
    then obtain p x where "w = p @ x" "spawn_prefix p" "x \<in> set SPAWN_WORDS" unfolding spawn_symbol_def by blast
    then have "accepts (Seq rx_PFX (Words SPAWN_WORDS)) w" using accepts_symbol by simp
    from word_matches(1) [OF w this] clean(2) show False unfolding SPAWN_C_def by blast
  qed
  moreover have "w \<notin> set [''asm'', ''__asm'', ''__asm__'']"
    using word_matches(2) [OF w accepts_Words] clean(3) unfolding ASM_C_def by blast
  ultimately show ?thesis using both_langs_words [OF clean(1) w] clean(5) by simp
qed

section \<open>Properties\<close>

definition CLEAN_CYR :: string where
  "CLEAN_CYR = ''syscall(60,'' @ [DQ] @ ''a'' @ [DQ] @ '');''"

definition CLEAN_C :: string where
  "CLEAN_C = ''int x;''"

lemma sample_scans: "lang_of ''a.cyr'' = Some Cyr" "scan_text ''a.cyr'' CLEAN_CYR {} None = []"
  "whole_word (strip CLEAN_CYR Cyr False) ''syscall'' 0" "(11, 14, False) \<in> set (literals CLEAN_CYR Cyr)"
  "lang_of ''a.c'' = Some C" "scan_text ''a.c'' CLEAN_C {} None = []" "whole_word (strip (normalize_c CLEAN_C) C False) ''int'' 0"
  by code_simp+

text \<open>A Cyrius file without findings spawns nothing by name. No word of its code, outside
  comments and strings, is a spawn helper or constant of the stdlib or names executable memory,
  none is \<^verbatim>\<open>asm\<close>, and a word that a build could link to a spawning C function is neither
  called nor has its address taken.\<close>

theorem clean_cyr_words:
  assumes "lang_of path = Some Cyr" "scan_text path src stdlib exists = []" "whole_word (strip src Cyr False) w k"
  shows "\<not> spawn_helper w \<and> \<not> spawn_const w \<and> \<not> exec_memory w \<and> w \<noteq> ''asm'' \<and>
    (spawn_extern w \<longrightarrow> \<not> called_at (strip src Cyr False) (k + length w) \<and> \<not> address_at (strip src Cyr False) k)"
  using cyr_words [OF _ assms(3), of stdlib exists] assms(1,2) by (simp add: scan_text_def)

text \<open>C22: in a Cyrius file without findings every \<^verbatim>\<open>syscall\<close> of the code is called
  directly, on a first argument that is one of the two allowed names or a literal with one of
  the three allowed numbers.\<close>

theorem clean_cyr_syscalls:
  assumes "lang_of path = Some Cyr" "scan_text path src stdlib exists = []" "whole_word (strip src Cyr False) ''syscall'' k"
  shows "syscall_allowed (strip src Cyr False) (k + 7)"
proof -
  from assms(1,2) have nil: "scan_cyr src stdlib exists = []" by (simp add: scan_text_def)
  obtain m where m: "m \<in> set (finditer SYSCALL (strip src Cyr False))" "m_end m = k + 7"
    by (rule SYSCALL_finditer [OF assms(3)])
  from scan_cyr_Nil(6) [OF nil] m(1) have "syscall_label (strip src Cyr False) m = None"
    by (auto simp: syscall_hits_def split: option.splits)
  from syscall_label_None [OF this] finditer_mem [OF m(1)] m(2) show ?thesis by simp
qed

text \<open>C23: in a Cyrius file without findings every string literal is closed by its own quote,
  spells a value, and no value reaches /etc, /bin or /sbin from any of its slashes; and the file
  has none of the refused directives.\<close>

theorem clean_cyr_strings:
  assumes "lang_of path = Some Cyr" "scan_text path src stdlib exists = []" "(s, e, raw) \<in> set (literals src Cyr)"
  shows "hazards src = [] \<and> (\<forall>d \<in> set (directives src). snd d \<notin> set CYR_DIRECTIVES_REFUSED) \<and>
    (\<exists>v. (if raw then v = ascii (literal_body src s e) else spelled (literal_body src s e) v) \<and>
      (\<forall>seg \<in> set (split_on 0 v). \<forall>pre q. seg = pre @ 47 # q \<longrightarrow> \<not> below_system (47 # q)))"
proof -
  from assms(1,2) have nil: "scan_cyr src stdlib exists = []" by (simp add: scan_text_def)
  note clean = scan_cyr_Nil [OF nil]
  from clean(10) assms(3) have "literal_label src (s, e, raw) = None"
    by (auto simp: literal_hits_def split: option.splits)
  then obtain v where v: "(if raw then Inr (ascii (literal_body src s e)) else cyr_unescape (literal_body src s e)) = Inr v" "system_path v = None"
    by (auto simp: literal_label_def split: sum.splits)
  then have "if raw then v = ascii (literal_body src s e) else spelled (literal_body src s e) v"
    by (auto intro: spelled_unescape split: if_splits)
  moreover have "\<forall>d \<in> set (directives src). snd d \<notin> set CYR_DIRECTIVES_REFUSED"
    using clean(8) by (auto simp: directive_hits_def Let_def filter_empty_conv)
  ultimately show ?thesis using clean(2) v(2) system_path_None [of v] by blast
qed


lemma clean_cyr_words_witness: "\<not> spawn_helper ''syscall'' \<and> \<not> exec_memory ''syscall''"
  using clean_cyr_words [OF sample_scans(1-3)] by blast

lemma clean_cyr_syscalls_witness: "syscall_allowed (strip CLEAN_CYR Cyr False) 7"
  using clean_cyr_syscalls [OF sample_scans(1-3)] by simp

lemma clean_cyr_strings_witness: "hazards CLEAN_CYR = [] \<and> (\<exists>v. spelled (literal_body CLEAN_CYR 11 14) v)"
  using clean_cyr_strings [OF sample_scans(1,2,4)] by auto


end
