(* ===== verification/SecManifestSpec.thy ===== *)
theory SecManifestSpec
  imports SecManifest SecScanSpec
begin

text \<open>
  What a manifest and a tree without findings are: the stdlib modules are exactly the reviewed
  list, nothing else pulls code in, and every file of the scanned directories has been read and
  is clean.
\<close>


section \<open>Keys\<close>

definition key_of :: "entry \<Rightarrow> string option \<times> string" where
  "key_of e = (fst (snd e), fst (snd (snd e)))"

definition item_of :: "entry \<Rightarrow> (string option \<times> string) \<times> nat \<times> string" where
  "item_of e = (key_of e, (fst e, snd (snd (snd e))))"

lemma update_fresh: "map_of xs k = None \<Longrightarrow> AList.update k v xs = xs @ [(k, v)]"
  by (induction xs) (auto split: if_splits)

lemma fresh_key: "map_of (keys @ [item_of e]) k = None \<Longrightarrow> map_of keys k = None \<and> key_of e \<noteq> k"
  by (auto simp: map_add_def item_of_def split: option.splits if_splits)

text \<open>The keys that are judged one by one, and the files
  \<^verbatim>\<open>[lib] modules\<close> and \<^verbatim>\<open>[build] entry\<close> and \<^verbatim>\<open>test\<close> may name.\<close>

definition key_allowed :: "entry \<Rightarrow> bool" where
  "key_allowed e \<longleftrightarrow> (case e of (ln, sec, key, v) \<Rightarrow>
     sec \<noteq> None \<and> (sec = Some ''deps'' \<longrightarrow> key = ''stdlib'') \<and> (sec = Some ''build'' \<longrightarrow> key \<in> set BUILD_KEYS))"

definition judged_file :: "(codepoints \<Rightarrow> bool) \<Rightarrow> string list \<Rightarrow> string \<Rightarrow> bool" where
  "judged_file exists dirs f \<longleftrightarrow>
     list_ex (starts_with f) dirs \<and> ''..'' \<notin> set (split_char (CHR ''/'') f) \<and> exists (ascii f)"

definition files_allowed :: "(codepoints \<Rightarrow> bool) \<Rightarrow> entry \<Rightarrow> bool" where
  "files_allowed exists e \<longleftrightarrow> (case e of (ln, sec, key, v) \<Rightarrow>
     (sec = Some ''lib'' \<and> key = ''modules'' \<longrightarrow> (\<exists>fs. cyml_list v = Some fs \<and> list_all (judged_file exists [''src/'']) fs)) \<and>
     (sec = Some ''build'' \<and> key \<in> {''entry'', ''test''} \<longrightarrow>
        fullmatch rx_QUOTED v \<noteq> None \<and> judged_file exists [''src/'', ''tests/''] (slice v 1 (length v - 1))))"

lemma key_loop_clean:
  "key_loop es keys = ([], keys') \<Longrightarrow>
     keys' = keys @ map item_of es \<and> distinct (map key_of es) \<and> (\<forall>e \<in> set es. map_of keys (key_of e) = None) \<and>
     (\<forall>e \<in> set es. key_allowed e)"
proof (induction es arbitrary: keys)
  case (Cons e es)
  obtain ln sec key v where e: "e = (ln, sec, key, v)" by (cases e) auto
  obtain rest keys2 where loop: "key_loop es (AList.update (sec, key) (ln, v) keys) = (rest, keys2)" by fastforce
  with Cons.prems have nil: "entry_problems e keys = []" "rest = []" "keys2 = keys'" by (simp_all add: e Let_def)
  from nil(1) have fresh: "map_of keys (sec, key) = None" by (cases "map_of keys (sec, key)") (simp_all add: e entry_problems_def)
  from nil(1) have ok: "key_allowed e"
    unfolding e entry_problems_def key_allowed_def prod.case append_is_Nil_conv by (metis list.distinct(1))
  have up: "AList.update (sec, key) (ln, v) keys = keys @ [item_of e]"
    using update_fresh [OF fresh, of "(ln, v)"] by (simp add: e item_of_def key_of_def)
  from Cons.IH [of "keys @ [item_of e]"] loop nil up have IH: "keys' = (keys @ [item_of e]) @ map item_of es" "distinct (map key_of es)"
    "\<forall>f \<in> set es. map_of (keys @ [item_of e]) (key_of f) = None"
    "\<forall>e \<in> set es. key_allowed e"
    by simp_all
  have "map_of keys (key_of f) = None" "key_of e \<noteq> key_of f" if "f \<in> set es" for f
    using fresh_key [OF IH(3) [rule_format, OF that]] by blast+
  moreover have "map_of keys (key_of e) = None" using fresh by (simp add: e key_of_def)
  moreover have "key_of e \<notin> key_of ` set es" using calculation(2) by blast
  ultimately show ?case using IH(1,2,4) ok by simp
qed simp

lemma map_of_items: "distinct (map key_of es) \<Longrightarrow> map_of (map item_of es) k = Some (ln, v) \<longleftrightarrow> (ln, fst k, snd k, v) \<in> set es"
proof -
  assume "distinct (map key_of es)"
  then have "distinct (map fst (map item_of es))" by (simp add: item_of_def comp_def)
  then have "map_of (map item_of es) k = Some (ln, v) \<longleftrightarrow> (k, (ln, v)) \<in> set (map item_of es)" by (rule map_of_eq_Some_iff)
  also have "\<dots> \<longleftrightarrow> (ln, fst k, snd k, v) \<in> set es" by (cases k) (force simp: item_of_def key_of_def)
  finally show ?thesis .
qed

lemma sorted_names_Nil: "sorted_names xs = [] \<longleftrightarrow> xs = []"
  by (metis set_empty set_remdups set_sort sorted_names_def)

lemma count_distinct: "(\<forall>x \<in> set xs. \<not> 1 < count_list xs x) \<longleftrightarrow> distinct xs"
proof (induction xs)
  case (Cons a xs)
  show ?case
  proof (cases "a \<in> set xs")
    case True
    then have "0 < count_list xs a" by (metis count_list_0_iff neq0_conv)
    with True show ?thesis by force
  next
    case False
    then have "count_list xs a = 0" "\<forall>x \<in> set xs. count_list (a # xs) x = count_list xs x" by (auto simp: count_list_0_iff)
    with False Cons show ?thesis by simp
  qed
qed simp

lemma stdlib_problems_clean:
  assumes "stdlib_problems keys allowed = ([], mods)"
  obtains ln v al where "map_of keys (Some ''deps'', ''stdlib'') = Some (ln, v)" "cyml_list v = Some mods" "distinct mods"
    "set mods \<inter> set DENIED_STDLIB = {}" "allowed = Some al" "set mods = set al" "distinct al"
proof -
  from assms obtain ln v where k: "map_of keys (Some ''deps'', ''stdlib'') = Some (ln, v)"
    by (auto simp: stdlib_problems_def split: option.splits)
  note clean = assms [unfolded stdlib_problems_def k option.case prod.case Let_def prod.inject append_is_Nil_conv]
  then have l: "cyml_list v = Some mods" by (cases "cyml_list v") simp_all
  from clean l have d: "filter (\<lambda>x. 1 < count_list mods x) mods = []" "filter (\<lambda>x. x \<in> set DENIED_STDLIB) mods = []"
    by (simp_all add: sorted_names_Nil)
  from d(1) have "distinct mods" using count_distinct [of mods] by (simp add: filter_empty_conv)
  moreover from d(2) have "set mods \<inter> set DENIED_STDLIB = {}" by (auto simp: filter_empty_conv)
  moreover from clean l obtain al where "allowed = Some al" "set mods = set al" "distinct al"
    by (auto split: option.splits if_splits)
  ultimately show ?thesis using k l that by blast
qed

text \<open>A manifest without findings.\<close>

definition manifest_ok ::
    "string option \<Rightarrow> string list option \<Rightarrow> (codepoints \<Rightarrow> bool) \<Rightarrow> string list \<Rightarrow> bool" where
  "manifest_ok mf allowed exists mods \<longleftrightarrow>
     (\<exists>t secs es al ln v. mf = Some t \<and> cyml_entries t = Inr (secs, es) \<and> allowed = Some al \<and>
        set (map snd secs) \<subseteq> set MANIFEST_SECTIONS \<and> distinct (map snd secs) \<and> distinct (map key_of es) \<and>
        (\<forall>e \<in> set es. key_allowed e) \<and>
        (ln, Some ''deps'', ''stdlib'', v) \<in> set es \<and> cyml_list v = Some mods \<and> distinct mods \<and> distinct al \<and>
        set mods = set al \<and> set mods \<inter> set DENIED_STDLIB = {} \<and>
        (\<forall>e \<in> set es. files_allowed exists e))"

lemma concat_Nil_member: "concat (map f xs) = [] \<Longrightarrow> x \<in> set xs \<Longrightarrow> f x = []"
  by simp

lemma path_problems_clean:
  assumes "path_problems exists (map item_of es) = []" "e \<in> set es"
  shows "files_allowed exists e"
proof -
  obtain ln sec key v where e: "e = (ln, sec, key, v)" by (cases e) auto
  from assms(2) have x: "item_of e \<in> set (sort_key (\<lambda>kv. fst (snd kv)) (map item_of es))" by auto
  note nil = concat_Nil_member [OF assms(1) [unfolded path_problems_def] x]
  have lib: "\<exists>fs. cyml_list v = Some fs \<and> list_all (judged_file exists [''src/'']) fs" if "sec = Some ''lib''" "key = ''modules''"
  proof (cases "cyml_list v")
    case None
    with nil that show ?thesis by (simp add: e item_of_def key_of_def)
  next
    case (Some fs)
    with nil that have "filter (\<lambda>f. starts_with f ''/'' \<or> ''..'' \<in> set (split_char (CHR ''/'') f) \<or>
        \<not> list_ex (starts_with f) [''src/''] \<or> \<not> exists (ascii f)) fs = []" by (simp add: e item_of_def key_of_def)
    with Some show ?thesis unfolding judged_file_def list_all_iff filter_empty_conv by blast
  qed
  have build: "fullmatch rx_QUOTED v \<noteq> None \<and> judged_file exists [''src/'', ''tests/''] (slice v 1 (length v - 1))"
    if "sec = Some ''build''" "key \<in> {''entry'', ''test''}"
  proof (cases "fullmatch rx_QUOTED v = None")
    case True
    with nil that show ?thesis by (auto simp: e item_of_def key_of_def)
  next
    case False
    obtain f where f: "f = slice v 1 (length v - 1)" by blast
    from False nil that have "filter (\<lambda>f. starts_with f ''/'' \<or> ''..'' \<in> set (split_char (CHR ''/'') f) \<or>
        \<not> list_ex (starts_with f) [''src/'', ''tests/''] \<or> \<not> exists (ascii f)) [f] = []"
      by (auto simp: e item_of_def key_of_def f simp del: filter.simps)
    then have "judged_file exists [''src/'', ''tests/''] f" unfolding judged_file_def filter_empty_conv by simp
    with False show ?thesis unfolding f by blast
  qed
  show ?thesis unfolding files_allowed_def e prod.case using lib build by blast
qed

lemma manifest_spec:
  assumes "manifest_problems mf allowed exists = (names, [])"
  shows "\<exists>mods. names = EXTRA_STDLIB @ mods \<and> manifest_ok mf allowed exists mods"
proof -
  from assms obtain t where t: "mf = Some t" by (cases mf) (simp_all add: manifest_problems_def)
  with assms obtain secs es where es: "cyml_entries t = Inr (secs, es)"
    by (cases "cyml_entries t") (auto simp: manifest_problems_def)
  obtain bad keys where kl: "key_loop es [] = (bad, keys)" by fastforce
  obtain bad' mods where sl: "stdlib_problems keys allowed = (bad', mods)" by fastforce
  from assms t es kl sl have nil: "table_problems secs = []" "bad = []" "bad' = []" "path_problems exists keys = []"
    and names: "names = EXTRA_STDLIB @ mods" by (simp_all add: manifest_problems_def)
  from key_loop_clean [of es "[]" keys] kl nil(2) have keys: "keys = map item_of es" "distinct (map key_of es)"
    "\<forall>e \<in> set es. key_allowed e"
    by simp_all
  obtain ln v al where std: "map_of keys (Some ''deps'', ''stdlib'') = Some (ln, v)" "cyml_list v = Some mods" "distinct mods"
    "set mods \<inter> set DENIED_STDLIB = {}" "allowed = Some al" "set mods = set al" "distinct al"
    using stdlib_problems_clean [of keys allowed mods] sl nil(3) by metis
  have secs: "set (map snd secs) \<subseteq> set MANIFEST_SECTIONS" "distinct (map snd secs)"
  proof -
    have s: "s \<in> set MANIFEST_SECTIONS \<and> \<not> 1 < count_list (map snd secs) s" if "s \<in> set (map snd secs)" for s
      using nil(1) that by (auto simp: table_problems_def split: if_splits)
    then show "set (map snd secs) \<subseteq> set MANIFEST_SECTIONS" by blast
    from s count_distinct [of "map snd secs"] show "distinct (map snd secs)" by blast
  qed
  have "(ln, Some ''deps'', ''stdlib'', v) \<in> set es" using std(1) map_of_items [OF keys(2)] by (simp add: keys(1))
  with t es secs keys(2,3) std path_problems_clean [of exists es] nil(4) have "manifest_ok mf allowed exists mods"
    unfolding manifest_ok_def keys(1) by blast
  with names show ?thesis by blast
qed


section \<open>The tree\<close>

lemma in_scope_clean:
  assumes "scan_tree tr = []" "top0 \<in> set SCOPE"
  obtains mods where "manifest_problems (tr_read tr ''cyrius.cyml'') (stdlib_allowed (tr_read tr STDLIB_ALLOWED)) (tree_exists tr) = (mods, [])"
    "top_findings tr (set (map ascii mods)) top0 = []"
proof -
  obtain mods bad where p: "manifest_problems (tr_read tr ''cyrius.cyml'') (stdlib_allowed (tr_read tr STDLIB_ALLOWED)) (tree_exists tr) = (mods, bad)"
    by fastforce
  note clean = assms(1) [unfolded scan_tree_def p Let_def prod.case append_is_Nil_conv map_is_Nil_conv]
  then have "concat (map (top_findings tr (set (map ascii mods))) SCOPE) = []" by blast
  from concat_Nil_member [OF this assms(2)] clean p that show ?thesis by blast
qed

lemma top_clean:
  assumes "top_findings tr stdlib top0 = []" "(d, dirs, files) \<in> set (tr_walk tr top0)"
  shows "tr_kind tr (ascii top0) \<noteq> Symlink" "n \<in> set dirs \<Longrightarrow> tr_kind tr (ascii (path_join d n)) \<noteq> Symlink"
    "f \<in> set files \<Longrightarrow> file_findings tr stdlib (path_join d f) = []"
proof -
  show top: "tr_kind tr (ascii top0) \<noteq> Symlink" using assms(1) by (auto simp: top_findings_def)
  note walked = concat_Nil_member [OF assms(1) [unfolded top_findings_def if_not_P [OF top]] assms(2), unfolded prod.case append_is_Nil_conv]
  show "tr_kind tr (ascii (path_join d n)) \<noteq> Symlink" if "n \<in> set dirs"
    using concat_Nil_member [OF conjunct1 [OF walked], of n] that by (auto split: if_splits)
  show "file_findings tr stdlib (path_join d f) = []" if "f \<in> set files"
    using concat_Nil_member [OF conjunct2 [OF walked], of f] that by simp
qed

lemma file_clean:
  assumes "file_findings tr stdlib r = []"
  shows "tr_kind tr (ascii r) = Regular"
    "lang_of r = None \<Longrightarrow> starts_with (r @ ''/'') (DATA_DIR @ ''/'')"
    "lang_of r \<noteq> None \<Longrightarrow> \<exists>src. tr_read tr r = Some src \<and> scan_text r src stdlib (Some (tree_exists tr)) = []"
  using assms by (auto simp: file_findings_def scan_file_def split: if_splits option.splits)

lemma include_clean:
  assumes "scan_cyr src stdlib exists = []" "m \<in> set (finditer INCLUDE (strip src Cyr False))"
  shows "include_problem (include_value (strip src Cyr True) (literals src Cyr) (m_end m - 1)) stdlib exists = None"
  using concat_Nil_member [OF scan_cyr_Nil(9) [OF assms(1), unfolded include_hits_def] assms(2)]
  by (simp add: Let_def split: option.splits)

text \<open>What the scan promises of a word at \<open>k\<close> of a file's code.\<close>

definition word_safe :: "lang \<Rightarrow> string \<Rightarrow> string \<Rightarrow> nat \<Rightarrow> bool" where
  "word_safe lang code w k \<longleftrightarrow>
     \<not> spawn_const w \<and> \<not> exec_memory w \<and> w \<noteq> ''asm'' \<and>
     (case lang of
        Cyr \<Rightarrow> \<not> spawn_helper w \<and> (spawn_extern w \<longrightarrow> \<not> called_at code (k + length w) \<and> \<not> address_at code k)
      | C \<Rightarrow> \<not> spawn_symbol w)"

definition source_text :: "lang \<Rightarrow> string \<Rightarrow> string" where
  "source_text lang src = (case lang of Cyr \<Rightarrow> src | C \<Rightarrow> normalize_c src)"

lemma scan_text_words:
  assumes "lang_of path = Some lang" "scan_text path src stdlib exists = []" "whole_word (strip (source_text lang src) lang False) w k"
  shows "word_safe lang (strip (source_text lang src) lang False) w k"
proof (cases lang)
  case Cyr
  with assms(1,2) have "scan_cyr src stdlib exists = []" by (simp add: scan_text_def)
  from cyr_words [OF this] assms(3) show ?thesis unfolding Cyr source_text_def word_safe_def lang.case by blast
next
  case C
  with assms(1,2) have "scan_c (normalize_c src) = []" by (simp add: scan_text_def)
  from c_words [OF this] assms(3) show ?thesis unfolding C source_text_def word_safe_def lang.case by blast
qed

text \<open>An accepted lib module is listed by the reviewed list, or is the harness, and is not denied.\<close>

lemma listed_module:
  assumes "manifest_problems mf allowed exists = (names, [])" "x \<in> set (map ascii names)"
  obtains md al where "x = ascii md" "md \<notin> set DENIED_STDLIB" "allowed = Some al" "md \<in> set EXTRA_STDLIB \<union> set al"
proof -
  obtain mods where names: "names = EXTRA_STDLIB @ mods" and ok: "manifest_ok mf allowed exists mods"
    using manifest_spec [OF assms(1)] by blast
  then obtain al where al: "allowed = Some al" "set mods = set al" "set mods \<inter> set DENIED_STDLIB = {}"
    unfolding manifest_ok_def by blast
  from assms(2) obtain md where md: "x = ascii md" "md \<in> set EXTRA_STDLIB \<union> set mods" by (auto simp: names)
  have "set EXTRA_STDLIB \<inter> set DENIED_STDLIB = {}" by code_simp
  with md al that show ?thesis by blast
qed


section \<open>Properties\<close>

definition SAMPLE_MANIFEST :: string where
  "SAMPLE_MANIFEST = ''[lib]'' @ [LF] @ ''modules = ['' @ [DQ] @ ''src/a.cyr'' @ [DQ] @ '']'' @ [LF] @ ''[deps]'' @ [LF] @
     ''stdlib = ['' @ [DQ] @ ''fmt'' @ [DQ] @ '']''"

definition SAMPLE_CYR :: string where
  "SAMPLE_CYR = ''include '' @ [DQ] @ ''lib/fmt.cyr'' @ [DQ] @ [LF] @ ''syscall(60);''"

definition SAMPLE_TREE :: tree where
  "SAMPLE_TREE = \<lparr>tr_kind = (\<lambda>p. if p = ascii ''src/a.cyr'' then Regular else Missing),
     tr_read = (\<lambda>p. if p = ''cyrius.cyml'' then Some SAMPLE_MANIFEST else if p = STDLIB_ALLOWED then Some ''fmt''
        else if p = ''src/a.cyr'' then Some SAMPLE_CYR else None),
     tr_walk = (\<lambda>p. if p = ''src'' then [(''src'', [], [''a.cyr''])] else [])\<rparr>"

lemma sample_tree: "scan_tree SAMPLE_TREE = []" "manifest_problems (Some SAMPLE_MANIFEST) (Some [''fmt'']) (tree_exists SAMPLE_TREE) = ([''bench'', ''fmt''], [])"
  "''src'' \<in> set SCOPE" "(''src'', [], [''a.cyr'']) \<in> set (tr_walk SAMPLE_TREE ''src'')" "''a.cyr'' \<in> set [''a.cyr'']"
  "path_join ''src'' ''a.cyr'' = ''src/a.cyr''" "lang_of ''src/a.cyr'' = Some Cyr" "tr_read SAMPLE_TREE ''src/a.cyr'' = Some SAMPLE_CYR"
  "whole_word (strip SAMPLE_CYR Cyr False) ''syscall'' 22" "\<lparr>m_start = 0, m_end = 9, m_groups = []\<rparr> \<in> set (finditer INCLUDE (strip SAMPLE_CYR Cyr False))"
  by code_simp+

text \<open>C21: a manifest without findings decides nothing that is not judged. It has only the four
  judged tables, each once, every key once; \<^verbatim>\<open>[deps]\<close> holds the module list alone; the list names
  exactly the reviewed modules, each once, and none that is denied; and the files of
  \<^verbatim>\<open>[lib] modules\<close>, \<^verbatim>\<open>[build] entry\<close> and \<^verbatim>\<open>test\<close> are files the scan reads, below their directories.
  The includes may name the reviewed modules and the bench harness.\<close>

theorem manifest_clean:
  assumes "manifest_problems mf allowed exists = (names, [])"
  shows "\<exists>mods. names = EXTRA_STDLIB @ mods \<and> manifest_ok mf allowed exists mods"
  by (rule manifest_spec [OF assms])

lemma manifest_clean_witness:
  "\<exists>mods. [''bench'', ''fmt''] = EXTRA_STDLIB @ mods \<and> manifest_ok (Some SAMPLE_MANIFEST) (Some [''fmt'']) (tree_exists SAMPLE_TREE) mods"
  by (rule manifest_clean [OF sample_tree(2)])

text \<open>The exit status of the scan is 0 exactly for one argument and a tree without findings.\<close>

lemma scan_main_status: "snd (scan_main tree_at argv) = 0 \<longleftrightarrow> (\<exists>root. argv = [root] \<and> scan_tree (tree_at root) = [])"
  by (auto simp: scan_main_def Let_def split: list.split)

text \<open>C19: nothing in a clean tree escapes the scan. No directory of the scanned ones is a symbolic
  link and every file is regular; a file is data of the fixtures or it was read as Cyrius or C,
  and then no word of its code spawns a process, resolves a symbol, maps executable memory or
  opens inline assembly.\<close>

theorem clean_tree:
  assumes "scan_tree tr = []" "top0 \<in> set SCOPE" "(d, dirs, files) \<in> set (tr_walk tr top0)" "f \<in> set files"
  shows "tr_kind tr (ascii top0) \<noteq> Symlink \<and> (\<forall>n \<in> set dirs. tr_kind tr (ascii (path_join d n)) \<noteq> Symlink) \<and>
    tr_kind tr (ascii (path_join d f)) = Regular \<and>
    (case lang_of (path_join d f) of
       None \<Rightarrow> starts_with (path_join d f @ ''/'') (DATA_DIR @ ''/'')
     | Some lang \<Rightarrow> \<exists>src. tr_read tr (path_join d f) = Some src \<and>
         (\<forall>w k. whole_word (strip (source_text lang src) lang False) w k \<longrightarrow>
            word_safe lang (strip (source_text lang src) lang False) w k))"
proof -
  obtain mods where top_clear: "top_findings tr (set (map ascii mods)) top0 = []" using in_scope_clean [OF assms(1,2)] by metis
  note tops = top_clean [OF top_clear assms(3)]
  note clean = file_clean [OF tops(3) [OF assms(4)]]
  have "case lang_of (path_join d f) of
       None \<Rightarrow> starts_with (path_join d f @ ''/'') (DATA_DIR @ ''/'')
     | Some lang \<Rightarrow> \<exists>src. tr_read tr (path_join d f) = Some src \<and>
         (\<forall>w k. whole_word (strip (source_text lang src) lang False) w k \<longrightarrow>
            word_safe lang (strip (source_text lang src) lang False) w k)"
  proof (cases "lang_of (path_join d f)")
    case None
    with clean(2) show ?thesis by simp
  next
    case (Some lang)
    with clean(3) obtain src where src: "tr_read tr (path_join d f) = Some src"
      "scan_text (path_join d f) src (set (map ascii mods)) (Some (tree_exists tr)) = []" by blast
    from scan_text_words [OF Some src(2)] src(1) show ?thesis unfolding Some option.case by blast
  qed
  with tops(1,2) clean(1) show ?thesis by blast
qed

lemma clean_tree_witness: "\<exists>src. tr_read SAMPLE_TREE ''src/a.cyr'' = Some src \<and> word_safe Cyr (strip src Cyr False) ''syscall'' 22"
proof -
  from clean_tree [OF sample_tree(1,3-5)] obtain src where "tr_read SAMPLE_TREE ''src/a.cyr'' = Some src"
    "\<forall>w k. whole_word (strip (source_text Cyr src) Cyr False) w k \<longrightarrow> word_safe Cyr (strip (source_text Cyr src) Cyr False) w k"
    unfolding sample_tree(6) sample_tree(7) option.case by blast
  with sample_tree(8,9) show ?thesis by (auto simp: source_text_def)
qed



end
