(* ===== verification/SecBufferSpec.thy ===== *)
theory SecBufferSpec
  imports SecScanSpec
begin

text \<open>
  The bound on static buffers: what the scan's pattern for an array declaration matches, that the
  match is the only one at its place and holds no other, and so that every declaration of a clean
  file has a size below the limit.
\<close>


section \<open>Array declarations, without patterns\<close>

text \<open>The word \<^verbatim>\<open>var\<close> at \<open>k\<close>, blanks, a name from \<open>a\<close> to \<open>b\<close>, blanks, the bracket at \<open>c\<close> and its
  partner at \<open>e\<close> on the same line: the size is the text between.\<close>

definition array_at :: "string \<Rightarrow> nat \<Rightarrow> nat \<Rightarrow> nat \<Rightarrow> nat \<Rightarrow> nat \<Rightarrow> bool" where
  "array_at s k a b c e \<longleftrightarrow>
     \<not> (0 < k \<and> ident_char (s ! (k - 1))) \<and> startswith_at s ''var'' k \<and> k + 3 < a \<and> spaces_between s (k + 3) a \<and>
     name_between s a b \<and> spaces_between s b c \<and> c < e \<and> e < length s \<and> s ! c = CHR ''['' \<and> s ! e = CHR '']'' \<and>
     (\<forall>t. c < t \<and> t < e \<longrightarrow> s ! t \<noteq> CHR '']'' \<and> s ! t \<noteq> LF)"

lemma BUFFER_mem:
  "(j, h) \<in> set (rx_m BUFFER s (length s) k []) \<longleftrightarrow>
     (\<exists>a b c e. array_at s k a b c e \<and> j = e + 1 \<and> h = [(2, c + 1, e), (1, a, b)])"
proof
  assume "(j, h) \<in> set (rx_m BUFFER s (length s) k [])"
  then obtain k1 g1 k2 g2 a g3 b g4 c g5 d g6 e g7 where
    m: "(k1, g1) \<in> set (rx_m (Behind False ident_char) s (length s) k [])" "(k2, g2) \<in> set (rx_m (Lit ''var'') s (length s) k1 g1)"
      "(a, g3) \<in> set (rx_m rx_spaces1 s (length s) k2 g2)" "(b, g4) \<in> set (rx_m (Grp 1 rx_IDENT) s (length s) a g3)"
      "(c, g5) \<in> set (rx_m rx_spaces s (length s) b g4)" "(d, g6) \<in> set (rx_m (Chr (CHR ''['')) s (length s) c g5)"
      "(e, g7) \<in> set (rx_m (Grp 2 (Star (Cls (\<lambda>c. c \<noteq> CHR '']'' \<and> c \<noteq> LF)))) s (length s) d g6)"
      "(j, h) \<in> set (rx_m (Chr (CHR '']'')) s (length s) e g7)"
    unfolding BUFFER_def rx_W_def rx_sp_def rx_spaces_def [symmetric] rx_spaces1_def [symmetric] Seqs_mem by (elim exE conjE)
  from m(1,2,3) have 1: "\<not> (0 < k \<and> ident_char (s ! (k - 1)))" "startswith_at s ''var'' k" "k + 3 < a" "spaces_between s (k + 3) a" "g3 = []"
    by (auto simp: rx_m_basic_mem rx_Lit_at spaces_mem eval_nat_numeral)
  from m(4-8) 1(5) have 2: "name_between s a b" "b \<le> c" "\<forall>t. b \<le> t \<and> t < c \<longrightarrow> is_space (s ! t)" "c < length s" "s ! c = CHR ''[''"
    "c < e" "\<forall>t. c + 1 \<le> t \<and> t < e \<longrightarrow> s ! t \<noteq> CHR '']'' \<and> s ! t \<noteq> LF" "e < length s" "s ! e = CHR '']''" "j = e + 1" "h = [(2, c + 1, e), (1, a, b)]"
    by (auto simp only: rx_m_basic_mem IDENT_mem spaces_mem rx_m_Star_class_mem Suc_le_eq Suc_eq_plus1 [symmetric])
  then show "\<exists>a b c e. array_at s k a b c e \<and> j = e + 1 \<and> h = [(2, c + 1, e), (1, a, b)]"
    using 1 by (intro exI [of _ a] exI [of _ b] exI [of _ c] exI [of _ e]) (simp add: array_at_def spaces_between_def Suc_le_eq)
next
  assume "\<exists>a b c e. array_at s k a b c e \<and> j = e + 1 \<and> h = [(2, c + 1, e), (1, a, b)]"
  then obtain a b c e where r: "array_at s k a b c e" "j = e + 1" "h = [(2, c + 1, e), (1, a, b)]" by blast
  then have p: "(k + 3, []) \<in> set (rx_m (Lit ''var'') s (length s) k [])" "(k, []) \<in> set (rx_m (Behind False ident_char) s (length s) k [])"
    "(a, []) \<in> set (rx_m rx_spaces1 s (length s) (k + 3) [])" "(b, [(1, a, b)]) \<in> set (rx_m (Grp 1 rx_IDENT) s (length s) a [])"
    "(c, [(1, a, b)]) \<in> set (rx_m rx_spaces s (length s) b [(1, a, b)])"
    "(c + 1, [(1, a, b)]) \<in> set (rx_m (Chr (CHR ''['')) s (length s) c [(1, a, b)])"
    "(e, [(2, c + 1, e), (1, a, b)]) \<in> set (rx_m (Grp 2 (Star (Cls (\<lambda>c. c \<noteq> CHR '']'' \<and> c \<noteq> LF)))) s (length s) (c + 1) [(1, a, b)])"
    "(e + 1, h) \<in> set (rx_m (Chr (CHR '']'')) s (length s) e [(2, c + 1, e), (1, a, b)])"
    unfolding rx_m_basic_mem rx_Lit_at [OF list.distinct(2)] spaces_mem IDENT_mem rx_m_Star_class_mem
    by (auto simp: array_at_def spaces_between_def)
  then show "(j, h) \<in> set (rx_m BUFFER s (length s) k [])"
    unfolding BUFFER_def rx_W_def rx_sp_def rx_spaces_def [symmetric] rx_spaces1_def [symmetric] Seqs_mem r(2) by blast
qed


section \<open>One match at a place, and none inside a clean one\<close>

lemma first_unique:
  fixes a a' x :: nat
  assumes "\<forall>t. x \<le> t \<and> t < a \<longrightarrow> P t" "\<not> P a" "\<forall>t. x \<le> t \<and> t < a' \<longrightarrow> P t" "\<not> P a'" "x \<le> a" "x \<le> a'"
  shows "a = a'"
  using assms by (metis linorder_neqE_nat)

lemma not_space: "ident_start c \<Longrightarrow> \<not> is_space c" "\<not> is_space (CHR ''['')" "\<not> ident_char (CHR ''['')"
  by (auto dest: space_not_ident ident_start_ident_char, simp_all add: is_space_def char_class_defs)

lemma array_atD:
  assumes "array_at s k a b c e"
  shows "\<forall>t. k + 3 \<le> t \<and> t < a \<longrightarrow> is_space (s ! t)" "\<not> is_space (s ! a)" "k + 3 < a"
    "\<forall>t. a \<le> t \<and> t < b \<longrightarrow> ident_char (s ! t)" "\<not> ident_char (s ! b)" "a < b"
    "\<forall>t. b \<le> t \<and> t < c \<longrightarrow> is_space (s ! t)" "\<not> is_space (s ! c)" "b \<le> c" "s ! c = CHR ''[''"
    "\<forall>t. c + 1 \<le> t \<and> t < e \<longrightarrow> s ! t \<noteq> CHR '']''" "s ! e = CHR '']''" "c < e" "e < length s"
proof -
  note d = assms [unfolded array_at_def spaces_between_def name_between_def]
  show "\<forall>t. k + 3 \<le> t \<and> t < a \<longrightarrow> is_space (s ! t)" "\<not> is_space (s ! a)" "k + 3 < a" "a < b"
    "\<forall>t. b \<le> t \<and> t < c \<longrightarrow> is_space (s ! t)" "\<not> is_space (s ! c)" "b \<le> c" "s ! c = CHR ''[''"
    "\<forall>t. c + 1 \<le> t \<and> t < e \<longrightarrow> s ! t \<noteq> CHR '']''" "s ! e = CHR '']''" "c < e" "e < length s"
    using d not_space by (simp_all add: Suc_le_eq)
  show "\<forall>t. a \<le> t \<and> t < b \<longrightarrow> ident_char (s ! t)"
    using d by (metis ident_start_ident_char nat_less_le)
  show "\<not> ident_char (s ! b)"
  proof (cases "b = c")
    case True
    with d show ?thesis by (simp add: not_space)
  next
    case False
    with d have "is_space (s ! b)" by simp
    then show ?thesis by simp
  qed
qed

lemma array_at_less: "array_at s k a b c e \<Longrightarrow> k < e"
  using array_atD(3,6,9,13) by fastforce

lemma array_at_unique:
  assumes "array_at s k a b c e" "array_at s k a' b' c' e'"
  shows "c' = c" "e' = e"
proof -
  note d = array_atD [OF assms(1)] and d' = array_atD [OF assms(2)]
  have a: "a' = a" by (rule first_unique [OF d'(1,2) d(1,2)]) (use d(3) d'(3) in simp_all)
  have b: "b' = b" by (rule first_unique [OF d'(4) d'(5) d(4) [folded a] d(5)]) (use d(6) d'(6) a in simp_all)
  show c: "c' = c" by (rule first_unique [OF d'(7,8) d(7) [folded b] d(8)]) (use d(9) d'(9) b in simp_all)
  have "\<not> s ! e' \<noteq> CHR '']''" "\<not> s ! e \<noteq> CHR '']''" using d(12) d'(12) by simp_all
  from first_unique [OF d'(11) this(1) d(11) [folded c] this(2)] d(13) d'(13) c show "e' = e" by simp
qed

lemma array_at_word:
  assumes "array_at s k a b c e"
  shows "\<not> (0 < k \<and> ident_char (s ! (k - 1)))" "s ! k = CHR ''v''" "ident_char (s ! (k + 1))" "ident_char (s ! (k + 2))" "is_space (s ! (k + 3))"
proof -
  have w: "startswith_at s ''var'' k" using assms by (simp add: array_at_def)
  from startswith_at_nth [OF w, of 0] startswith_at_nth [OF w, of 1] startswith_at_nth [OF w, of 2]
  show "s ! k = CHR ''v''" "ident_char (s ! (k + 1))" "ident_char (s ! (k + 2))"
    by (simp_all add: char_class_defs eval_nat_numeral)
  show "\<not> (0 < k \<and> ident_char (s ! (k - 1)))" using assms by (simp add: array_at_def)
  show "is_space (s ! (k + 3))" using array_atD(1,3) [OF assms] by simp
qed

lemma strip_ws_keeps: "c \<in> set s \<Longrightarrow> \<not> is_space c \<Longrightarrow> c \<in> set (strip_ws s)"
proof -
  have drop_keeps: "c \<in> set t \<Longrightarrow> \<not> is_space c \<Longrightarrow> c \<in> set (dropWhile is_space t)" for t
    by (induction t) auto
  then show "c \<in> set s \<Longrightarrow> \<not> is_space c \<Longrightarrow> c \<in> set (strip_ws s)" by (simp add: strip_ws_def)
qed

text \<open>A declaration that starts inside another one starts in its size.\<close>

lemma array_at_inside:
  assumes "array_at s k a b c e" "array_at s k' a' b' c' e'" "k < k'" "k' \<le> e"
  shows "c < k' \<and> k' < e"
proof (rule ccontr)
  assume not: "\<not> (c < k' \<and> k' < e)"
  note d = array_atD [OF assms(1)] and w = array_at_word [OF assms(1)]
  note d' = array_atD [OF assms(2)] and w' = array_at_word [OF assms(2)]
  have v: "\<not> is_space (s ! k')" "ident_char (s ! k')" by (simp_all add: w'(2) is_space_def char_class_defs)
  have "k' \<noteq> e" using w'(2) d(12) by auto
  with not assms(4) have "k' \<le> c" by simp
  moreover have "\<not> (b \<le> k' \<and> k' < c)" using d(7) v(1) by blast
  moreover have "k' \<noteq> c" using w'(2) d(10) by auto
  moreover have "\<not> (a < k' \<and> k' \<le> b)"
  proof
    assume r: "a < k' \<and> k' \<le> b"
    then have "a \<le> k' - 1 \<and> k' - 1 < b" by arith
    with d(4) have "ident_char (s ! (k' - 1))" by blast
    with w'(1) r show False by simp
  qed
  moreover have "\<not> (k + 3 \<le> k' \<and> k' < a)" using d(1) v(1) by blast
  moreover have "\<not> k' < k + 3"
  proof
    assume "k' < k + 3"
    with assms(3) have "k' - 1 = k \<or> k' - 1 = k + 1" by auto
    moreover have "ident_char (s ! k)" by (simp add: w(2) char_class_defs)
    ultimately have "ident_char (s ! (k' - 1))" using w(3) by auto
    with w'(1) assms(3) show False by simp
  qed
  ultimately have k': "k' = a" by linarith
  have three: "\<not> ident_char (s ! (a + 3))" using w'(5) k' by simp
  have "b = a + 3"
  proof (rule first_unique [OF d(4,5) _ three])
    show "\<forall>t. a \<le> t \<and> t < a + 3 \<longrightarrow> ident_char (s ! t)"
    proof (intro allI impI)
      fix t assume "a \<le> t \<and> t < a + 3"
      then have "t = a \<or> t = a + 1 \<or> t = a + 2" by auto
      with w'(3,4) v(2) k' show "ident_char (s ! t)" by auto
    qed
  qed (use d(6) in simp_all)
  then have "a' = c" using first_unique [OF d'(1,2) d(7) [unfolded \<open>b = a + 3\<close> k' [symmetric]] d(8)] d'(3) d(9) k' by simp
  moreover have "ident_start (s ! a')" using assms(2) by (simp add: array_at_def name_between_def)
  ultimately show False using d(10) by (simp add: char_class_defs)
qed

lemma cyr_int_no_v: "cyr_int tok = Some n \<Longrightarrow> CHR ''v'' \<notin> set tok"
proof -
  assume h: "cyr_int tok = Some n"
  have radix: "radix_int r ds body = Some n \<Longrightarrow> set body \<subseteq> set (ds @ ''_'')" for r ds body
    by (auto simp: radix_int_def list_ex_iff split: if_splits)
  have pre: "starts_with tok [x, y] \<Longrightarrow> set tok \<subseteq> {x, y} \<union> set (drop 2 tok)" for x y
    by (auto simp: starts_with_iff)
  show ?thesis
  proof (cases "starts_with tok ''0x'' \<or> starts_with tok ''0o'' \<or> starts_with tok ''0b''")
    case True
    with h consider "starts_with tok ''0x''" "radix_int 16 HEX (drop 2 tok) = Some n"
      | "starts_with tok ''0o''" "radix_int 8 ''01234567'' (drop 2 tok) = Some n"
      | "starts_with tok ''0b''" "radix_int 2 ''01'' (drop 2 tok) = Some n"
      by (auto simp: cyr_int_def split: if_splits)
    then show ?thesis
    proof cases
      case 1
      from radix [OF 1(2)] pre [OF 1(1)] have "set tok \<subseteq> {CHR ''0'', CHR ''x''} \<union> set (HEX @ ''_'')" by blast
      moreover have "CHR ''v'' \<notin> {CHR ''0'', CHR ''x''} \<union> set (HEX @ ''_'')" by (simp add: HEX_def)
      ultimately show ?thesis by blast
    next
      case 2
      from radix [OF 2(2)] pre [OF 2(1)] have "set tok \<subseteq> {CHR ''0'', CHR ''o''} \<union> set (''01234567'' @ ''_'')" by blast
      moreover have "CHR ''v'' \<notin> {CHR ''0'', CHR ''o''} \<union> set (''01234567'' @ ''_'')" by simp
      ultimately show ?thesis by blast
    next
      case 3
      from radix [OF 3(2)] pre [OF 3(1)] have "set tok \<subseteq> {CHR ''0'', CHR ''b''} \<union> set (''01'' @ ''_'')" by blast
      moreover have "CHR ''v'' \<notin> {CHR ''0'', CHR ''b''} \<union> set (''01'' @ ''_'')" by simp
      ultimately show ?thesis by blast
    qed
  next
    case False
    with h have "tok \<noteq> []" "is_digit09 (hd tok)" "list_all (\<lambda>c. is_digit09 c \<or> c = CHR ''_'') (tl tok)"
      by (auto simp: cyr_int_def split: if_splits)
    then have "list_all (\<lambda>c. is_digit09 c \<or> c = CHR ''_'') tok" by (cases tok) simp_all
    moreover have "\<not> (is_digit09 (CHR ''v'') \<or> CHR ''v'' = CHR ''_'')" by (simp add: is_digit09_def)
    ultimately show ?thesis unfolding list_all_iff by blast
  qed
qed


section \<open>Properties\<close>


text \<open>The pattern reads the brackets on one line only: a declaration whose size stands on the line after
  its bracket has no finding, whatever the size.\<close>

lemma split_size_unseen: "scan_text ''a.cyr'' (''var b['' @ [LF] @ ''65536];'') {} None = []"
  by code_simp

definition CLEAN_BUFFERS :: string where
  "CLEAN_BUFFERS = ''var a[0xFF];''"

lemma sample_buffers: "scan_text ''a.cyr'' CLEAN_BUFFERS {} None = []" "strip CLEAN_BUFFERS Cyr False = CLEAN_BUFFERS"
  "slice CLEAN_BUFFERS 6 10 = ''0xFF''"
  by code_simp+

lemma sample_array: "array_at CLEAN_BUFFERS 0 4 5 5 10"
proof -
  have parts: "startswith_at CLEAN_BUFFERS ''var'' 0" "length CLEAN_BUFFERS = 12" "is_space (CLEAN_BUFFERS ! 3)" "ident_start (CLEAN_BUFFERS ! 4)"
    "CLEAN_BUFFERS ! 5 = CHR ''[''" "CLEAN_BUFFERS ! 10 = CHR '']''"
    "list_all (\<lambda>c. c \<noteq> CHR '']'' \<and> c \<noteq> LF) (take 4 (drop 6 CLEAN_BUFFERS))" by code_simp+
  have "CLEAN_BUFFERS ! t \<noteq> CHR '']'' \<and> CLEAN_BUFFERS ! t \<noteq> LF" if "5 < t \<and> t < 10" for t
  proof -
    from that obtain i where i: "t = 6 + i" "i < 4" using le_Suc_ex [of 6 t] by auto
    then have "i < length (take 4 (drop 6 CLEAN_BUFFERS))" "take 4 (drop 6 CLEAN_BUFFERS) ! i = CLEAN_BUFFERS ! t"
      by (simp_all add: parts(2))
    with parts(7) show ?thesis unfolding list_all_length by metis
  qed
  moreover have "spaces_between CLEAN_BUFFERS (0 + 3) 4" using parts(2,3) by (auto simp: spaces_between_def le_less_Suc_eq numeral_eq_Suc)
  moreover have "name_between CLEAN_BUFFERS 4 5" "spaces_between CLEAN_BUFFERS 5 5" using parts(2,4) by (auto simp: name_between_def spaces_between_def)
  ultimately show ?thesis unfolding array_at_def by (simp only: parts) simp
qed


end
