(* ===== verification/SecSelfTest.thy ===== *)
theory SecSelfTest
  imports SecScanSpec
begin

text \<open>
  \<^verbatim>\<open>self_test\<close> of \<^verbatim>\<open>tools/security_scan.py\<close>: the sources it expects a finding
  in, in its order, its spellings of integers, and the proof that the model meets the expectations.
  Its sources without findings and its throwaway trees are not restated: a text without findings
  needs every pattern tried at every place, which the kernel evaluates too slowly.
\<close>


section \<open>The checks\<close>

definition STD :: "codepoints set" where
  "STD = set (map ascii [''syscalls'', ''string'', ''alloc'', ''fmt'', ''bench''])"

definition one_file :: "codepoints \<Rightarrow> bool" where
  "one_file p \<longleftrightarrow> p = ascii ''src/dbus_frame.cyr''"

definition flagged :: "string \<times> string \<Rightarrow> bool" where
  "flagged c \<longleftrightarrow> scan_text (fst c) (snd c) STD (Some one_file) \<noteq> []"

text \<open>Spawns, syscalls by number, system paths and buffers.\<close>

definition flag_first :: "(string \<times> string) list" where
  "flag_first = [
     (''a.cyr'', ''fn f() { sys_execve(p, a, e); return 0; }''),
     (''a.cyr'', ''fn f() { var p = &sys_execve; return p; }''),
     (''a.cyr'', ''fn f() { return syscall(SYS_EXECVE, 0, 0, 0); }''),
     (''a.cyr'', ''fn f() { return syscall(SYS_execve, 0, 0, 0); }''),
     (''a.cyr'', ''fn f() { return syscall(59, 0, 0, 0); }''),
     (''a.cyr'', ''fn f() { return syscall(0x3b, 0, 0, 0); }''),
     (''a.cyr'', ''fn f() { return syscall(221, 0, 0, 0); }''),
     (''a.cyr'', ''fn f() { return sys_fork(); }''),
     (''a.cyr'', ''fn f() { var s = '' @ [DQ] @ ''/etc/passwd'' @ [DQ] @ ''; return s; }''),
     (''a.cyr'', ''fn f() { var s = '' @ [DQ] @ ''/sbin/x'' @ [DQ] @ ''; return s; }''),
     (''a.cyr'', ''fn f() { var big[65536]; return 0; }''),
     (''a.cyr'', ''fn f() { var big[0x10000]; return 0; }'')]"

text \<open>Attribute lines and the bodies of macros are code.\<close>

definition flag_attributes :: "(string \<times> string) list" where
  "flag_attributes = [
     (''a.cyr'', ''#must_use fn spawn_a(p, a, e) { return sys_execve(p, a, e); }''),
     (''a.cyr'', ''#pure fn spawn_b() { return syscall(59, 0, 0, 0); }''),
     (''a.cyr'', ''#assert 1 == 1; var big[1048576];''),
     (''a.cyr'', ''#io fn path_c() { return '' @ [DQ] @ ''/etc/shadow'' @ [DQ] @ ''; }''),
     (''a.tcyr'', ''#define RUN(q1, q2, q3) sys_execve(q1, q2, q3)'' @ [LF] @ ''fn never() { return RUN(0, 0, 0); }'')]"

text \<open>Syscall numbers: every spelling, and what is no number.\<close>

definition flag_numbers :: "(string \<times> string) list" where
  "flag_numbers = [
     (''a.cyr'', ''fn f() { return syscall('' @ [SQ] @ '';'' @ [SQ] @ '', 0, 0, 0); }''),
     (''a.cyr'', ''fn f() { return syscall(0o73, 0, 0, 0); }''),
     (''a.cyr'', ''fn f() { return syscall(5_9, 0, 0, 0); }''),
     (''a.cyr'', ''fn f() { return syscall(0x3_b, 0, 0, 0); }''),
     (''a.cyr'', ''fn f() { return syscall(059, 0, 0, 0); }''),
     (''a.cyr'', ''fn f() { return syscall(58 + 1, 0, 0, 0); }''),
     (''a.cyr'', ''fn f() { var n = 57; return syscall(n, 0); }''),
     (''a.cyr'', ''fn f() { return syscall((59), 0, 0, 0); }''),
     (''a.cyr'', ''fn f() { return syscall(0x10000003b, 0, 0, 0); }''),
     (''a.cyr'', ''fn f() { return syscall(0x40000039); }''),
     (''a.cyr'', ''fn f() { return syscall(0x10000003c, 0); }''),
     (''a.cyr'', ''fn f() { return syscall<i64>(59, 0); }''),
     (''a.cyr'', ''fn f() { return syscall(0X3B, 0); }'')]"

text \<open>What is not on the list, executable memory and assembler.\<close>

definition flag_memory :: "(string \<times> string) list" where
  "flag_memory = [
     (''a.cyr'', ''fn f() { return syscall(1, 1, '' @ [DQ] @ ''x'' @ [DQ] @ '', 1); }''),
     (''a.cyr'', ''fn f() { return syscall(SYS_WRITE, 1, '' @ [DQ] @ ''x'' @ [DQ] @ '', 1); }''),
     (''a.cyr'', ''fn f() { var code = syscall(SYS_MMAP, 0, 4096, 7, 34, 0 - 1, 0); store8(code, 0xC3); return fncall0(code); }''),
     (''a.cyr'', ''fn f() { return syscall(9, 0, 4096, 7, 34, 0 - 1, 0); }''),
     (''a.cyr'', ''fn f() { return syscall(10, p, 4096, 7); }''),
     (''a.cyr'', ''fn f() { return sys_mmap(0, 4096, 7, 34, 0 - 1, 0); }''),
     (''a.cyr'', ''fn f() { return sys_mprotect(p, 4096, PROT_EXEC); }''),
     (''a.cyr'', ''fn f() { var p = &sys_pkey_mprotect; return p; }''),
     (''a.cyr'', ''fn f() { return wrap(SYS_MPROTECT, p); }''),
     (''a.cyr'', ''fn f() { return sys_process_vm_writev(1, 0, 0, 0, 0, 0); }''),
     (''a.cyr'', ''fn f() { asm { 0x48; 0xC7; 0xC0; 0x3B; 0x00; 0x00; 0x00; 0x0F; 0x05; } return 0; }'')]"

text \<open>Names of the project's own, and symbols the linker resolves.\<close>

definition flag_own_names :: "(string \<times> string) list" where
  "flag_own_names = [
     (''a.cyr'', ''var SYS_FOO = 59;'' @ [LF] @ ''fn f() { return syscall(SYS_FOO, 0); }''),
     (''a.cyr'', ''const SYS_FOO = 59;''),
     (''a.cyr'', ''fn SYS_FOO() { return 59; }''),
     (''a.cyr'', ''enum Ev { A0 = 58; SYS_FOO; }'' @ [LF] @ ''fn f() { return syscall(SYS_FOO, 0); }''),
     (''a.cyr'', ''fn f(SYS_FOO) { return syscall(SYS_FOO, 0); }''),
     (''a.cyr'', ''fn f() { return syscall(SYS_SPAWN_PATH, p, n, 0, 0); }''),
     (''a.cyr'', ''fn f() { return sys_spawn_path(p, n); }''),
     (''a.cyr'', ''fn f() { return execve(0, 0, 0); }''),
     (''a.cyr'', ''fn f() { return fork(); }''),
     (''a.cyr'', ''fn f() { return system (0); }''),
     (''a.cyr'', ''fn f() { var p = &execve; return fncall3(p, 0, 0, 0); }'')]"

text \<open>Buffer sizes.\<close>

definition flag_buffers :: "(string \<times> string) list" where
  "flag_buffers = [
     (''a.cyr'', ''var b[0o200000];''),
     (''a.cyr'', ''var c[6_5536];''),
     (''a.cyr'', ''var d[065536];''),
     (''a.cyr'', ''var e[N];'')]"

text \<open>Includes and directives that reach other files.\<close>

definition flag_scope :: "(string \<times> string) list" where
  "flag_scope = [
     (''a.cyr'', ''include '' @ [DQ] @ ''src/helpers.inc'' @ [DQ]),
     (''a.cyr'', ''include '' @ [DQ] @ ''/abs/x.cyr'' @ [DQ]),
     (''a.cyr'', ''include '' @ [DQ] @ ''src/../x.cyr'' @ [DQ]),
     (''a.cyr'', ''include '' @ [DQ] @ ''other/x.cyr'' @ [DQ]),
     (''a.cyr'', ''include '' @ [DQ] @ ''lib/process.cyr'' @ [DQ]),
     (''a.cyr'', ''include '' @ [DQ] @ ''tests/fixtures/x.bin'' @ [DQ]),
     (''a.cyr'', ''include '' @ [DQ] @ ''src/missing.cyr'' @ [DQ]),
     (''a.cyr'', ''include '' @ [DQ] @ ''src/dbus_frame.cyr'' @ [BSL, DQ] @ '' # .cyr'' @ [DQ]),
     (''a.cyr'', ''#ref '' @ [DQ] @ ''tests/fixtures/k.txt'' @ [DQ]),
     (''a.cyr'', ''#pe_import('' @ [DQ] @ ''k32'' @ [DQ] @ '', '' @ [DQ] @ ''WinExec'' @ [DQ] @ '')''),
     (''a.cyr'', ''#define SAMVADA_X 1''),
     (''a.cyr'', ''  #define'' @ [TAB] @ ''M(a) 0''),
     (''a.tcyr'', ''#define M(a) 0'' @ [LF] @ ''var hid = M('' @ [DQ] @ '') ;'' @ [LF] @ ''fn planted_exec() { return 0; }'' @ [LF] @ ''var hid2 = M('' @ [DQ] @ '');''),
     (''a.cyr'', ''var s = '' @ [DQ] @ ''x'' @ [LF] @ ''#define M(a) 0'' @ [LF, DQ] @ '';'')]"

text \<open>What could hide the text that follows.\<close>

definition flag_desync :: "(string \<times> string) list" where
  "flag_desync = [
     (''a.cyr'', ''#io('' @ [DQ] @ ''fd'' @ [DQ] @ '') note: reads one byte, see '' @ [DQ, LF] @ ''fn planted_attr_evil() { return syscall(59, 0, 0, 0); }'' @ [LF] @ ''# '' @ [DQ] @ '')''),
     (''a.cyr'', ''#note: the '' @ [DQ, LF] @ ''fn e() { return sys_execve(0, 0, 0); }'' @ [LF] @ ''# '' @ [DQ]),
     (''a.cyr'', ''#define SAMVADA_FFI_PLANT '' @ [DQ, LF] @ ''fn planted_evil() { return syscall(59, 0, 0, 0); }'' @ [LF] @ ''}'' @ [LF] @ ''# '' @ [DQ]),
     (''a.cyr'', ''#ifdef NOPE'' @ [LF] @ ''x '' @ [SQ] @ '' '' @ [DQ, LF] @ ''#endif'' @ [LF] @ ''fn e() { return sys_fork(); }'' @ [LF] @ ''# '' @ [DQ]),
     (''a.cyr'', ''include '' @ [DQ] @ ''lib/syscalls.cyr'' @ [DQ] @ '' #assert 1, '' @ [DQ, LF] @ ''fn e() { return sys_fork(); }'' @ [LF] @ ''# '' @ [DQ]),
     (''a.cyr'', ''fn f() { return '' @ [SQ, SQ, SQ] @ ''; }''),
     (''a.cyr'', ''fn f() { return 0; }'' @ [LF] @ ''var s = '' @ [DQ])]"

text \<open>Paths: escapes, dots, offsets.\<close>

definition flag_paths :: "(string \<times> string) list" where
  "flag_paths = [
     (''a.cyr'', ''fn f() { return '' @ [DQ, BSL] @ ''x2fetc/shadow'' @ [DQ] @ ''; }''),
     (''a.cyr'', ''fn f() { return '' @ [DQ] @ ''//etc/shadow'' @ [DQ] @ ''; }''),
     (''a.cyr'', ''fn f() { return '' @ [DQ] @ ''/./sbin/init'' @ [DQ] @ ''; }''),
     (''a.cyr'', ''fn f() { return '' @ [DQ, BSL] @ ''u{2f}bin/sh'' @ [DQ] @ ''; }''),
     (''a.cyr'', ''fn f() { return '' @ [DQ, BSL] @ ''u002fbin/sh'' @ [DQ] @ ''; }''),
     (''a.cyr'', ''fn f() { return '' @ [DQ] @ ''/x/../etc/passwd'' @ [DQ] @ ''; }''),
     (''a.cyr'', ''fn f() { return '' @ [DQ] @ ''/etc'' @ [DQ] @ ''; }''),
     (''a.cyr'', ''fn f() { return '' @ [DQ] @ ''XX/etc/shadow'' @ [DQ] @ '' + 2; }''),
     (''a.cyr'', ''fn f() { return '' @ [DQ] @ ''/usr/bin/busctl'' @ [DQ] @ ''; }''),
     (''a.cyr'', ''fn f() { return '' @ [DQ] @ ''/tmp'' @ [BSL] @ ''0/etc/x'' @ [DQ] @ ''; }''),
     (''a.cyr'', ''fn f() { return '' @ [DQ] @ ''/q'' @ [BSL] @ ''/etc'' @ [DQ] @ ''; }'')]"

text \<open>C: spawns, also spliced or hidden.\<close>

definition flag_c_words :: "(string \<times> string) list" where
  "flag_c_words = [
     (''a.c'', ''int f(void) { return execvpe('' @ [DQ] @ ''x'' @ [DQ] @ '', 0, 0); }''),
     (''a.c'', ''int f(void) { return posix_spawnp(0, '' @ [DQ] @ ''x'' @ [DQ] @ '', 0, 0, 0, 0); }''),
     (''a.c'', ''int f(void) { return clone(0, 0, 0, 0); }''),
     (''a.c'', ''long f(void) { return syscall(__NR_execve, 0, 0, 0); }''),
     (''a.c'', ''long f(void) { return syscall(SYS_execve, 0, 0, 0); }''),
     (''a.c'', ''#define RUN execv('' @ [LF]),
     (''a.c'', ''int x = 1,'' @ [LF] @ '' *p = (int *)fork();'' @ [LF]),
     (''a.c'', ''static const char *p = '' @ [DQ] @ ''/bin/sh'' @ [DQ] @ '';''),
     (''a.c'', ''int f(void) { return exe'' @ [BSL, LF] @ ''cve(0, 0, 0); }''),
     (''a.c'', ''long f(void) { return syscall(SYS_exec'' @ [BSL, LF] @ ''ve, 0); }''),
     (''a.c'', ''long n = 1'' @ [SQ] @ ''000; int r(void) { return execve(0, 0, 0); } long m = 2'' @ [SQ] @ ''000;''),
     (''a.c'', ''int a; // c'' @ [CR] @ ''int r(void) { return execve(0, 0, 0); }'')]"

text \<open>C: pasting, pointers, resolvers, assembler.\<close>

definition flag_c_more :: "(string \<times> string) list" where
  "flag_c_more = [
     (''a.c'', ''#define CAT(a, b) a##b'' @ [LF] @ ''int r(void) { return CAT(exe, cve)(0, 0, 0); }''),
     (''a.c'', ''#define S(x) #x'' @ [LF] @ ''const char *p = S(execve);''),
     (''a.c'', ''int (*f)(const char *, char *const *, char *const *) = execve;''),
     (''a.c'', ''long f(void) { return syscall(59L, 0); }''),
     (''a.c'', ''int f(void) { return daemon(0, 0); }''),
     (''a.c'', ''int f(void) { return wordexp('' @ [DQ] @ ''x'' @ [DQ] @ '', 0, 0); }''),
     (''a.c'', ''int f(void) { return forkpty(0, 0, 0, 0); }''),
     (''a.c'', ''void *f(void) { return dlsym(RTLD_DEFAULT, '' @ [DQ] @ ''system'' @ [DQ] @ ''); }''),
     (''a.c'', ''int f(void) { return _Fork(); }''),
     (''a.c'', ''int f(void) { return __clone(0, 0, 0, 0); }''),
     (''a.c'', ''int f(void) { return pidfd_spawnp(0, 0, 0, 0, 0, 0); }''),
     (''a.c'', ''void f(void) { __asm__ volatile ('' @ [DQ] @ ''syscall'' @ [DQ] @ ''); }''),
     (''a.c'', ''void *f(void) { return mmap(0, 4096, 7, 34, -1, 0); }'')]"

text \<open>C: paths in joined, wide, raw and macro literals.\<close>

definition flag_c_paths :: "(string \<times> string) list" where
  "flag_c_paths = [
     (''a.c'', ''const char *p = '' @ [DQ] @ ''/e'' @ [DQ] @ '' '' @ [DQ] @ ''tc/passwd'' @ [DQ] @ '';''),
     (''a.c'', ''const char *p = '' @ [DQ, BSL] @ ''x2f'' @ [DQ] @ '' '' @ [DQ] @ ''bin/sh'' @ [DQ] @ '';''),
     (''a.c'', ''const char *p = '' @ [DQ, BSL] @ ''057etc/x'' @ [DQ] @ '';''),
     (''a.c'', ''const wchar_t *p = L'' @ [DQ] @ ''/etc/x'' @ [DQ] @ '';''),
     (''a.c'', ''const char *p = R'' @ [DQ] @ ''x(/etc/x)x'' @ [DQ] @ '';''),
     (''a.c'', ''#define E '' @ [DQ] @ ''/e'' @ [DQ, LF] @ ''const char *p = E '' @ [DQ] @ ''tc/passwd'' @ [DQ] @ '';''),
     (''a.c'', ''const char *p = '' @ [DQ] @ ''/e'' @ [DQ, LF] @ ''  /* c */ '' @ [DQ] @ ''tc/passwd'' @ [DQ] @ '';'')]"

text \<open>C: what an include may not name.\<close>

definition flag_c_includes :: "(string \<times> string) list" where
  "flag_c_includes = [
     (''a.c'', ''#include '' @ [DQ] @ ''../tests/fixtures/capture_notes.txt'' @ [DQ]),
     (''a.c'', ''#include '' @ [DQ] @ ''samvada_main.h'' @ [DQ]),
     (''a.c'', ''#include </home/runner/work/x/tests/fixtures/x.txt>''),
     (''a.c'', ''#include <../../tmp/x.h>''),
     (''a.c'', ''#define H '' @ [DQ] @ ''x.h'' @ [DQ, LF] @ ''#include H''),
     (''a.c'', ''%:include '' @ [DQ] @ ''x.h'' @ [DQ]),
     (''a.c'', ''const unsigned char b[] = {'' @ [LF] @ ''#embed '' @ [DQ] @ ''../tests/fixtures/x.bin'' @ [DQ, LF] @ ''};''),
     (''a.c'', ''#include_next '' @ [DQ] @ ''x.h'' @ [DQ])]"

text \<open>Integers: what is no literal, and the values of what is.\<close>

definition refused_numbers :: "string list" where
  "refused_numbers = [''0x'', ''0o8'', ''0X3B'', ''1e2'', ''59L'', ''0b2'', ''0x_'']"

definition read_numbers :: "(string \<times> nat) list" where
  "read_numbers = [(''059'', 59), (''0_59'', 59), (''59_'', 59), (''0x_3b'', 59), (''0o_73'', 59), (''1__0'', 10), (''0b111011'', 59)]"

definition must_flag :: "(string \<times> string) list" where
  "must_flag = flag_first @ flag_attributes @ flag_numbers @ flag_memory @ flag_own_names @ flag_buffers @ flag_scope @ flag_desync @ flag_paths @ flag_c_words @ flag_c_more @ flag_c_paths @ flag_c_includes"

definition number_checks :: "bool list" where
  "number_checks = map (\<lambda>n. cyr_int n = None) refused_numbers @ map (\<lambda>(n, v). cyr_int n = Some v) read_numbers"


section \<open>Numbers in binary, for evaluation\<close>

definition int_base_z :: "int \<Rightarrow> string \<Rightarrow> int" where
  "int_base_z b s = foldl (\<lambda>n c. b * n + int (hexit c)) 0 s"

lemma int_base_z: "int_base_z (int b) s = int (int_base b s)"
proof -
  have "foldl (\<lambda>n c. int b * n + int (hexit c)) (int a) s = int (foldl (\<lambda>n c. b * n + hexit c) a s)" for a
  proof (induction s arbitrary: a)
    case (Cons c s)
    from Cons [of "b * a + hexit c"] show ?case by simp
  qed simp
  from this [of 0] show ?thesis by (simp add: int_base_z_def int_base_def)
qed

definition radix_int_z :: "nat \<Rightarrow> string \<Rightarrow> string \<Rightarrow> int option" where
  "radix_int_z base digits body =
     (if no_underscores body = [] \<or> list_ex (\<lambda>c. c \<notin> set (digits @ ''_'')) body then None
      else Some (int_base_z (int base) (no_underscores body)))"

lemma radix_int_z: "radix_int_z b ds s = map_option int (radix_int b ds s)"
  by (simp add: radix_int_z_def radix_int_def int_base_z del: set_append)

definition cyr_int_z :: "string \<Rightarrow> int option" where
  "cyr_int_z tok =
     (if starts_with tok ''0x'' then radix_int_z 16 HEX (drop 2 tok)
      else if starts_with tok ''0o'' then radix_int_z 8 ''01234567'' (drop 2 tok)
      else if starts_with tok ''0b'' then radix_int_z 2 ''01'' (drop 2 tok)
      else if tok \<noteq> [] \<and> is_digit09 (hd tok) \<and> list_all (\<lambda>c. is_digit09 c \<or> c = CHR ''_'') (tl tok)
        then Some (int_base_z 10 (no_underscores tok))
      else None)"

lemma cyr_int_z: "cyr_int_z t = map_option int (cyr_int t)"
proof -
  have ten: "int_base_z 10 s = int (int_base 10 s)" for s using int_base_z [of 10 s] by simp
  show ?thesis
    by (simp only: cyr_int_z_def cyr_int_def radix_int_z ten if_distrib [of "map_option int"] option.map)
qed

definition syscall_bad :: "string \<Rightarrow> rmatch \<Rightarrow> bool" where
  "syscall_bad code m =
     (let k = skip_while (\<lambda>c. c \<in> {SP, TAB, LF}) code (m_end m) (length code) in
      length code \<le> k \<or> code ! k \<noteq> CHR ''('' \<or>
      (let a = strip_ws (case first_arg code k of None \<Rightarrow> [] | Some t \<Rightarrow> t) in
       if fullmatch SYS_NAME a \<noteq> None then a \<notin> set SYSCALL_NAMES
       else if fullmatch DIGIT_TOKEN a \<noteq> None then
         (case cyr_int_z a of None \<Rightarrow> True | Some v \<Rightarrow> v \<notin> set [60, 48, 228])
       else True))"

lemma syscall_bad: "syscall_bad code m \<longleftrightarrow> syscall_label code m \<noteq> None"
  by (simp add: syscall_bad_def syscall_label_def cyr_int_z SYSCALL_NUMBERS_def Let_def split: option.split)

definition buffer_bad :: "string \<Rightarrow> rmatch \<Rightarrow> bool" where
  "buffer_bad code m = (case cyr_int_z (strip_ws (group_or_empty code m 2)) of None \<Rightarrow> True | Some v \<Rightarrow> 65536 \<le> v)"

lemma buffer_bad: "buffer_bad code m \<longleftrightarrow> buffer_label code m \<noteq> None"
  by (simp add: buffer_bad_def buffer_label_def cyr_int_z BUFFER_MAX_def Let_def split: option.split)


section \<open>How a source is flagged\<close>

text \<open>One finding is enough, and a pattern that matches at one place has one.\<close>

lemma flag_at: "matches_at r code k \<Longrightarrow> finditer r code \<noteq> []"
  using finditer_Nil by blast

lemma picked: "list_ex (\<lambda>m. f m \<noteq> None) ms \<Longrightarrow> concat (map (\<lambda>m. case f m of None \<Rightarrow> [] | Some l \<Rightarrow> [h m l]) ms) \<noteq> []"
  by (induction ms) (auto split: option.splits)

lemma flag_cyr:
  assumes "lang_of f = Some Cyr" "scan_cyr s STD (Some one_file) \<noteq> []"
  shows "flagged (f, s)"
  using assms by (simp add: flagged_def scan_text_def)

lemma flag_cyr_pattern:
  assumes "lang_of f = Some Cyr"
  shows "matches_at SPAWN_CONST (strip s Cyr False) k \<Longrightarrow> flagged (f, s)"
    "matches_at MEMEXEC (strip s Cyr False) k \<Longrightarrow> flagged (f, s)"
    "matches_at SPAWN_CYR (strip s Cyr False) k \<Longrightarrow> flagged (f, s)"
    "matches_at SPAWN_CYR_EXTERN (strip s Cyr False) k \<Longrightarrow> flagged (f, s)"
    "matches_at ASM_CYR (strip s Cyr False) k \<Longrightarrow> flagged (f, s)"
    "matches_at SYS_DECL (strip s Cyr False) k \<Longrightarrow> flagged (f, s)"
    "matches_at SYS_ASSIGN (strip s Cyr False) k \<Longrightarrow> flagged (f, s)"
  by (rule flag_cyr [OF assms], drule flag_at, simp add: scan_cyr_def both_langs_def each_def Let_def)+

lemma flag_cyr_hazard: "lang_of f = Some Cyr \<Longrightarrow> hazards s \<noteq> [] \<Longrightarrow> flagged (f, s)"
  by (rule flag_cyr) (simp_all add: scan_cyr_def Let_def)

lemma flag_cyr_syscall:
  assumes "lang_of f = Some Cyr" "let code = strip s Cyr False in list_ex (syscall_bad code) (finditer SYSCALL code)"
  shows "flagged (f, s)"
proof -
  have "syscall_hits s (strip s Cyr False) \<noteq> []"
    using assms(2) unfolding syscall_hits_def Let_def syscall_bad [abs_def] by (rule picked)
  then show ?thesis by (intro flag_cyr [OF assms(1)]) (simp add: scan_cyr_def Let_def)
qed

lemma flag_cyr_buffer:
  assumes "lang_of f = Some Cyr" "let code = strip s Cyr False in list_ex (buffer_bad code) (finditer BUFFER code)"
  shows "flagged (f, s)"
proof -
  have "buffer_hits s (strip s Cyr False) \<noteq> []"
    using assms(2) unfolding buffer_hits_def Let_def buffer_bad [abs_def] by (rule picked)
  then show ?thesis by (intro flag_cyr [OF assms(1)]) (simp add: scan_cyr_def Let_def)
qed

lemma flag_cyr_include:
  assumes "lang_of f = Some Cyr"
    "let lits = strip s Cyr True; strs = literals s Cyr in
     list_ex (\<lambda>m. include_problem (include_value lits strs (m_end m - 1)) STD (Some one_file) \<noteq> None) (finditer INCLUDE (strip s Cyr False))"
  shows "flagged (f, s)"
proof -
  have "include_hits s (strip s Cyr False) (strip s Cyr True) STD (Some one_file) \<noteq> []"
    using assms(2) unfolding include_hits_def Let_def
    by (rule picked [where h = "\<lambda>m y. hit_at s (m_start m) (IncludeRefused (include_value (strip s Cyr True) (literals s Cyr) (m_end m - 1)) y)"])
  then show ?thesis by (intro flag_cyr [OF assms(1)]) (simp add: scan_cyr_def Let_def)
qed

lemma flag_cyr_directive:
  assumes "lang_of f = Some Cyr" "list_ex (\<lambda>d. snd d \<in> set CYR_DIRECTIVES_REFUSED) (directives s)"
  shows "flagged (f, s)"
proof -
  have "filter (\<lambda>d. snd d \<in> set CYR_DIRECTIVES_REFUSED) (directives s) \<noteq> []"
    using assms(2) by (auto simp: list_ex_iff filter_empty_conv)
  then have "directive_hits s \<noteq> []" by (simp add: directive_hits_def Let_def)
  then show ?thesis by (intro flag_cyr [OF assms(1)]) (simp add: scan_cyr_def Let_def)
qed

lemma flag_cyr_line: "lang_of f = Some Cyr \<Longrightarrow> directive_hits s \<noteq> [] \<Longrightarrow> flagged (f, s)"
  by (rule flag_cyr) (simp_all add: scan_cyr_def Let_def)

lemma flag_cyr_literal:
  assumes "lang_of f = Some Cyr" "list_ex (\<lambda>l. literal_label s l \<noteq> None) (literals s Cyr)"
  shows "flagged (f, s)"
proof -
  have "literal_hits s \<noteq> []" using assms(2) unfolding literal_hits_def by (rule picked)
  then show ?thesis by (intro flag_cyr [OF assms(1)]) (simp add: scan_cyr_def Let_def)
qed

lemma flag_c:
  assumes "lang_of f = Some C" "scan_c (normalize_c s) \<noteq> []"
  shows "flagged (f, s)"
  using assms by (simp add: flagged_def scan_text_def)

lemma flag_c_pattern:
  assumes "lang_of f = Some C"
  shows "matches_at SPAWN_CONST (strip (normalize_c s) C False) k \<Longrightarrow> flagged (f, s)"
    "matches_at MEMEXEC (strip (normalize_c s) C False) k \<Longrightarrow> flagged (f, s)"
    "matches_at SPAWN_C (strip (normalize_c s) C False) k \<Longrightarrow> flagged (f, s)"
    "matches_at ASM_C (strip (normalize_c s) C False) k \<Longrightarrow> flagged (f, s)"
  by (rule flag_c [OF assms], drule flag_at, simp add: scan_c_def both_langs_def each_def Let_def)+

lemma flag_c_paste:
  "lang_of f = Some C \<Longrightarrow> (let src = normalize_c s in paste_hits src (strip src C False)) \<noteq> [] \<Longrightarrow> flagged (f, s)"
  by (rule flag_c) (simp_all add: scan_c_def Let_def)

lemma flag_c_include:
  assumes "lang_of f = Some C" "let lits = strip (normalize_c s) C True in
    list_ex (\<lambda>m. c_include_problem (group_or_empty lits m 1) (group_or_empty lits m 2) \<noteq> None) (finditer C_INCLUDE_LINE lits)"
  shows "flagged (f, s)"
  using picked [OF assms(2) [unfolded Let_def],
      of "\<lambda>m y. hit_at (normalize_c s) (m_start m) (CInclude (group_or_empty (strip (normalize_c s) C True) m 1) y)"]
  by (intro flag_c [OF assms(1)]) (simp add: scan_c_def Let_def)

lemma flag_c_literal:
  assumes "lang_of f = Some C" "let src = normalize_c s in list_ex (\<lambda>c. system_path (snd c) \<noteq> None) (c_strings src (strip src C False))"
  shows "flagged (f, s)"
  using picked [OF assms(2) [unfolded Let_def], of "\<lambda>c p. hit_at (normalize_c s) (fst c) (ReachesPath p)"]
  by (intro flag_c [OF assms(1)]) (simp add: scan_c_def Let_def case_prod_beta')


section \<open>The checks hold\<close>

lemma flag_first_flagged: "list_all flagged flag_first"
  unfolding flag_first_def list.pred_inject simp_thms
  apply (intro conjI)
  subgoal by (rule flag_cyr_pattern(3) [where k = 9]; code_simp)
  subgoal by (rule flag_cyr_pattern(3) [where k = 18]; code_simp)
  subgoal by (rule flag_cyr_pattern(1) [where k = 24]; code_simp)
  subgoal by (rule flag_cyr_pattern(1) [where k = 24]; code_simp)
  subgoal by (rule flag_cyr_syscall; code_simp)
  subgoal by (rule flag_cyr_syscall; code_simp)
  subgoal by (rule flag_cyr_syscall; code_simp)
  subgoal by (rule flag_cyr_pattern(3) [where k = 16]; code_simp)
  subgoal by (rule flag_cyr_literal; code_simp)
  subgoal by (rule flag_cyr_literal; code_simp)
  subgoal by (rule flag_cyr_buffer; code_simp)
  subgoal by (rule flag_cyr_buffer; code_simp)
  subgoal by simp
  done

lemma flag_attributes_flagged: "list_all flagged flag_attributes"
  unfolding flag_attributes_def list.pred_inject simp_thms
  apply (intro conjI)
  subgoal by (rule flag_cyr_pattern(3) [where k = 39]; code_simp)
  subgoal by (rule flag_cyr_syscall; code_simp)
  subgoal by (rule flag_cyr_buffer; code_simp)
  subgoal by (rule flag_cyr_literal; code_simp)
  subgoal by (rule flag_cyr_directive; code_simp)
  subgoal by simp
  done

lemma flag_numbers_flagged: "list_all flagged flag_numbers"
  unfolding flag_numbers_def list.pred_inject simp_thms
  apply (intro conjI)
  subgoal by (rule flag_cyr_syscall; code_simp)
  subgoal by (rule flag_cyr_syscall; code_simp)
  subgoal by (rule flag_cyr_syscall; code_simp)
  subgoal by (rule flag_cyr_syscall; code_simp)
  subgoal by (rule flag_cyr_syscall; code_simp)
  subgoal by (rule flag_cyr_syscall; code_simp)
  subgoal by (rule flag_cyr_syscall; code_simp)
  subgoal by (rule flag_cyr_syscall; code_simp)
  subgoal by (rule flag_cyr_syscall; code_simp)
  subgoal by (rule flag_cyr_syscall; code_simp)
  subgoal by (rule flag_cyr_syscall; code_simp)
  subgoal by (rule flag_cyr_syscall; code_simp)
  subgoal by (rule flag_cyr_syscall; code_simp)
  subgoal by simp
  done

lemma flag_memory_flagged: "list_all flagged flag_memory"
  unfolding flag_memory_def list.pred_inject simp_thms
  apply (intro conjI)
  subgoal by (rule flag_cyr_syscall; code_simp)
  subgoal by (rule flag_cyr_syscall; code_simp)
  subgoal by (rule flag_cyr_pattern(2) [where k = 28]; code_simp)
  subgoal by (rule flag_cyr_syscall; code_simp)
  subgoal by (rule flag_cyr_syscall; code_simp)
  subgoal by (rule flag_cyr_pattern(2) [where k = 16]; code_simp)
  subgoal by (rule flag_cyr_pattern(2) [where k = 16]; code_simp)
  subgoal by (rule flag_cyr_pattern(2) [where k = 18]; code_simp)
  subgoal by (rule flag_cyr_pattern(2) [where k = 21]; code_simp)
  subgoal by (rule flag_cyr_pattern(2) [where k = 16]; code_simp)
  subgoal by (rule flag_cyr_pattern(5) [where k = 9]; code_simp)
  subgoal by simp
  done

lemma flag_own_names_flagged: "list_all flagged flag_own_names"
  unfolding flag_own_names_def list.pred_inject simp_thms
  apply (intro conjI)
  subgoal by (rule flag_cyr_pattern(6) [where k = 0]; code_simp)
  subgoal by (rule flag_cyr_pattern(6) [where k = 0]; code_simp)
  subgoal by (rule flag_cyr_pattern(6) [where k = 0]; code_simp)
  subgoal by (rule flag_cyr_syscall; code_simp)
  subgoal by (rule flag_cyr_syscall; code_simp)
  subgoal by (rule flag_cyr_pattern(1) [where k = 24]; code_simp)
  subgoal by (rule flag_cyr_pattern(3) [where k = 16]; code_simp)
  subgoal by (rule flag_cyr_pattern(4) [where k = 16]; code_simp)
  subgoal by (rule flag_cyr_pattern(4) [where k = 16]; code_simp)
  subgoal by (rule flag_cyr_pattern(4) [where k = 16]; code_simp)
  subgoal by (rule flag_cyr_pattern(4) [where k = 17]; code_simp)
  subgoal by simp
  done

lemma flag_buffers_flagged: "list_all flagged flag_buffers"
  unfolding flag_buffers_def list.pred_inject simp_thms
  apply (intro conjI)
  subgoal by (rule flag_cyr_buffer; code_simp)
  subgoal by (rule flag_cyr_buffer; code_simp)
  subgoal by (rule flag_cyr_buffer; code_simp)
  subgoal by (rule flag_cyr_buffer; code_simp)
  subgoal by simp
  done

lemma flag_scope_flagged: "list_all flagged flag_scope"
  unfolding flag_scope_def list.pred_inject simp_thms
  apply (intro conjI)
  subgoal by (rule flag_cyr_include; code_simp)
  subgoal by (rule flag_cyr_include; code_simp)
  subgoal by (rule flag_cyr_include; code_simp)
  subgoal by (rule flag_cyr_include; code_simp)
  subgoal by (rule flag_cyr_include; code_simp)
  subgoal by (rule flag_cyr_include; code_simp)
  subgoal by (rule flag_cyr_include; code_simp)
  subgoal by (rule flag_cyr_include; code_simp)
  subgoal by (rule flag_cyr_directive; code_simp)
  subgoal by (rule flag_cyr_directive; code_simp)
  subgoal by (rule flag_cyr_directive; code_simp)
  subgoal by (rule flag_cyr_directive; code_simp)
  subgoal by (rule flag_cyr_directive; code_simp)
  subgoal by (rule flag_cyr_line; code_simp)
  subgoal by simp
  done

lemma flag_desync_flagged: "list_all flagged flag_desync"
  unfolding flag_desync_def list.pred_inject simp_thms
  apply (intro conjI)
  subgoal by (rule flag_cyr_syscall; code_simp)
  subgoal by (rule flag_cyr_pattern(3) [where k = 29]; code_simp)
  subgoal by (rule flag_cyr_directive; code_simp)
  subgoal by (rule flag_cyr_pattern(3) [where k = 41]; code_simp)
  subgoal by (rule flag_cyr_pattern(3) [where k = 56]; code_simp)
  subgoal by (rule flag_cyr_hazard; code_simp)
  subgoal by (rule flag_cyr_hazard; code_simp)
  subgoal by simp
  done

lemma flag_paths_flagged: "list_all flagged flag_paths"
  unfolding flag_paths_def list.pred_inject simp_thms
  apply (intro conjI)
  subgoal by (rule flag_cyr_literal; code_simp)
  subgoal by (rule flag_cyr_literal; code_simp)
  subgoal by (rule flag_cyr_literal; code_simp)
  subgoal by (rule flag_cyr_literal; code_simp)
  subgoal by (rule flag_cyr_literal; code_simp)
  subgoal by (rule flag_cyr_literal; code_simp)
  subgoal by (rule flag_cyr_literal; code_simp)
  subgoal by (rule flag_cyr_literal; code_simp)
  subgoal by (rule flag_cyr_literal; code_simp)
  subgoal by (rule flag_cyr_literal; code_simp)
  subgoal by (rule flag_cyr_literal; code_simp)
  subgoal by simp
  done

lemma flag_c_words_flagged: "list_all flagged flag_c_words"
  unfolding flag_c_words_def list.pred_inject simp_thms
  apply (intro conjI)
  subgoal by (rule flag_c_pattern(3) [where k = 21]; code_simp)
  subgoal by (rule flag_c_pattern(3) [where k = 21]; code_simp)
  subgoal by (rule flag_c_pattern(3) [where k = 21]; code_simp)
  subgoal by (rule flag_c_pattern(1) [where k = 30]; code_simp)
  subgoal by (rule flag_c_pattern(1) [where k = 30]; code_simp)
  subgoal by (rule flag_c_pattern(3) [where k = 12]; code_simp)
  subgoal by (rule flag_c_pattern(3) [where k = 24]; code_simp)
  subgoal by (rule flag_c_literal; code_simp)
  subgoal by (rule flag_c_pattern(3) [where k = 21]; code_simp)
  subgoal by (rule flag_c_pattern(1) [where k = 30]; code_simp)
  subgoal by (rule flag_c_pattern(3) [where k = 37]; code_simp)
  subgoal by (rule flag_c_pattern(3) [where k = 33]; code_simp)
  subgoal by simp
  done

lemma flag_c_more_flagged: "list_all flagged flag_c_more"
  unfolding flag_c_more_def list.pred_inject simp_thms
  apply (intro conjI)
  subgoal by (rule flag_c_paste; code_simp)
  subgoal by (rule flag_c_pattern(3) [where k = 34]; code_simp)
  subgoal by (rule flag_c_pattern(3) [where k = 55]; code_simp)
  subgoal by (rule flag_c_pattern(3) [where k = 22]; code_simp)
  subgoal by (rule flag_c_pattern(3) [where k = 21]; code_simp)
  subgoal by (rule flag_c_pattern(3) [where k = 21]; code_simp)
  subgoal by (rule flag_c_pattern(3) [where k = 21]; code_simp)
  subgoal by (rule flag_c_pattern(3) [where k = 23]; code_simp)
  subgoal by (rule flag_c_pattern(3) [where k = 21]; code_simp)
  subgoal by (rule flag_c_pattern(3) [where k = 21]; code_simp)
  subgoal by (rule flag_c_pattern(3) [where k = 21]; code_simp)
  subgoal by (rule flag_c_pattern(4) [where k = 15]; code_simp)
  subgoal by (rule flag_c_pattern(2) [where k = 23]; code_simp)
  subgoal by simp
  done

lemma flag_c_paths_flagged: "list_all flagged flag_c_paths"
  unfolding flag_c_paths_def list.pred_inject simp_thms
  apply (intro conjI)
  subgoal by (rule flag_c_literal; code_simp)
  subgoal by (rule flag_c_literal; code_simp)
  subgoal by (rule flag_c_literal; code_simp)
  subgoal by (rule flag_c_literal; code_simp)
  subgoal by (rule flag_c_literal; code_simp)
  subgoal by (rule flag_c_literal; code_simp)
  subgoal by (rule flag_c_literal; code_simp)
  subgoal by simp
  done

lemma flag_c_includes_flagged: "list_all flagged flag_c_includes"
  unfolding flag_c_includes_def list.pred_inject simp_thms
  apply (intro conjI)
  subgoal by (rule flag_c_include; code_simp)
  subgoal by (rule flag_c_include; code_simp)
  subgoal by (rule flag_c_include; code_simp)
  subgoal by (rule flag_c_include; code_simp)
  subgoal by (rule flag_c_include; code_simp)
  subgoal by (rule flag_c_include; code_simp)
  subgoal by (rule flag_c_include; code_simp)
  subgoal by (rule flag_c_include; code_simp)
  subgoal by simp
  done

lemma numbers_read: "list_all (\<lambda>b. b) number_checks"
  by code_simp


end

