(* ===== verification/StateSync.thy ===== *)
theory StateSync
  imports "HOL-Library.AList" "HOL-Library.List_Lexorder" PyStr
begin

text \<open>
  The generated blocks of \<^verbatim>\<open>docs/development/state.md\<close>: the renderers, the
  markers and the run of \<^verbatim>\<open>tools/state_sync.py\<close>. The document holds characters
  beyond U+00FF, so texts are lists of code points here. A pattern of the tool that is anchored
  at both ends of a line is a function on that line.
\<close>


section \<open>Strings of code points\<close>

definition cp_space :: "nat \<Rightarrow> bool" where
  "cp_space c \<longleftrightarrow> c \<in> set [9, 10, 11, 12, 13, 28, 29, 30, 31, 32, 133, 160, 5760, 8192, 8193, 8194, 8195, 8196, 8197, 8198,
     8199, 8200, 8201, 8202, 8232, 8233, 8239, 8287, 12288]"

definition cp_blank :: "nat \<Rightarrow> bool" where "cp_blank c \<longleftrightarrow> c = 32 \<or> c = 9"
definition cp_lower :: "nat \<Rightarrow> bool" where "cp_lower c \<longleftrightarrow> 97 \<le> c \<and> c \<le> 122"

definition cp_break :: "nat \<Rightarrow> bool" where
  "cp_break c \<longleftrightarrow> c \<in> set [10, 11, 12, 13, 28, 29, 30, 133, 8232, 8233]"

definition cp_strip :: "codepoints \<Rightarrow> codepoints" where
  "cp_strip s = rev (dropWhile cp_space (rev (dropWhile cp_space s)))"

fun cp_splitlines :: "codepoints \<Rightarrow> codepoints list" where
  "cp_splitlines [] = []"
| "cp_splitlines (c # cs) =
     (if c = 13 then (case cs of [] \<Rightarrow> [[]] | d # ds \<Rightarrow> [] # (if d = 10 then cp_splitlines ds else cp_splitlines cs))
      else if cp_break c then [] # cp_splitlines cs
      else case cp_splitlines cs of [] \<Rightarrow> [[c]] | w # ws \<Rightarrow> (c # w) # ws)"

fun cp_join :: "codepoints \<Rightarrow> codepoints list \<Rightarrow> codepoints" where
  "cp_join sep [] = []"
| "cp_join sep [w] = w"
| "cp_join sep (w # ws) = w @ sep @ cp_join sep ws"

definition num :: "nat \<Rightarrow> codepoints" where "num n = ascii (dec_nat n)"

definition DASH :: codepoints where "DASH = [32, 8212, 32]"

text \<open>A file opened as text: every line end is read as LF.\<close>

fun universal :: "codepoints \<Rightarrow> codepoints" where
  "universal [] = []"
| "universal (c # cs) =
     (if c = 13 then 10 # (case cs of [] \<Rightarrow> [] | d # ds \<Rightarrow> if d = 10 then universal ds else universal cs)
      else c # universal cs)"

definition strip_prefix :: "codepoints \<Rightarrow> codepoints \<Rightarrow> codepoints option" where
  "strip_prefix p s = (if take (length p) s = p then Some (drop (length p) s) else None)"

text \<open>A line that ends with the close of a comment and blanks.\<close>

definition comment_end :: "codepoints \<Rightarrow> bool" where
  "comment_end s \<longleftrightarrow> (case strip_prefix (ascii '' -->'') s of None \<Rightarrow> False | Some t \<Rightarrow> list_all cp_blank t)"


section \<open>Lines with a meaning\<close>

definition BLOCKS :: "codepoints list" where
  "BLOCKS = map ascii [''version'', ''glance'', ''tests'']"

definition UNDESCRIBED :: codepoints where
  "UNDESCRIBED = ascii ''**(undescribed'' @ DASH @ ascii ''say what this suite covers)**''"

text \<open>\<^verbatim>\<open>MARKER\<close>: whether the marker begins a block, and the block's name.\<close>

definition marker_name :: "bool \<Rightarrow> codepoints \<Rightarrow> (bool \<times> codepoints) option" where
  "marker_name begins s =
     (let n = takeWhile cp_lower s in if n \<noteq> [] \<and> comment_end (drop (length n) s) then Some (begins, n) else None)"

definition marker_line :: "codepoints \<Rightarrow> (bool \<times> codepoints) option" where
  "marker_line l =
     (case strip_prefix (ascii ''<!-- state-sync:begin '') l of
        Some s \<Rightarrow> marker_name True s
      | None \<Rightarrow>
          (case strip_prefix (ascii ''<!-- state-sync:end '') l of
             Some s \<Rightarrow> marker_name False s
           | None \<Rightarrow> None))"

text \<open>\<^verbatim>\<open>NARRATIVE\<close>: the version the prose is acknowledged for.\<close>

definition narrative_line :: "codepoints \<Rightarrow> codepoints option" where
  "narrative_line l =
     Option.bind (strip_prefix (ascii ''<!-- state-sync:narrative '') l) (\<lambda>s.
       let v = takeWhile (\<lambda>c. \<not> cp_space c) s in if v \<noteq> [] \<and> comment_end (drop (length v) s) then Some v else None)"

definition narratives :: "codepoints \<Rightarrow> codepoints list" where
  "narratives s = List.map_filter narrative_line (split_on 10 s)"

text \<open>\<^verbatim>\<open>SUITE_ROW\<close>: the file and the Covers cell of a row of the tests table. The cell
  ends at the last bar of the line.\<close>

definition expect :: "nat \<Rightarrow> codepoints \<Rightarrow> codepoints option" where
  "expect c s = (case s of [] \<Rightarrow> None | d # t \<Rightarrow> if d = c then Some t else None)"

definition last_cell :: "codepoints \<Rightarrow> codepoints option" where
  "last_cell s = map_option (\<lambda>w. cp_strip (rev w)) (expect 124 (dropWhile cp_blank (rev s)))"

definition suite_row :: "codepoints \<Rightarrow> (codepoints \<times> codepoints) option" where
  "suite_row l =
     Option.bind (expect 124 l) (\<lambda>s.
     Option.bind (expect 96 (dropWhile cp_space s)) (\<lambda>s.
       let name = takeWhile (\<lambda>c. c \<noteq> 96) s in
       if name = [] then None else
     Option.bind (expect 96 (drop (length name) s)) (\<lambda>s.
     Option.bind (expect 124 (dropWhile cp_space s)) (\<lambda>s.
     Option.bind (expect 124 (dropWhile (\<lambda>c. c \<noteq> 124) s)) (\<lambda>s.
       map_option (\<lambda>cell. (name, cell)) (last_cell s))))))"


section \<open>Facts and rendering\<close>

text \<open>The dict \<open>gather\<close> returns. A set is the list of its elements, the actions are the items of
  their dict. At least one module is listed, and \<open>fc_real\<close> counts some of the fixtures.\<close>

record facts =
  fc_version :: codepoints
  fc_date :: codepoints
  fc_pin :: codepoints
  fc_modules :: "codepoints list"
  fc_stdlib :: "codepoints list"
  fc_runners :: "codepoints list"
  fc_actions :: "(codepoints \<times> codepoints list) list"
  fc_workflows :: "codepoints list"
  fc_public :: nat
  fc_internal :: nat
  fc_slots :: nat
  fc_kind_at :: nat
  fc_ffi_size :: nat
  fc_leaves :: "codepoints list"
  fc_errno_rows :: nat
  fc_fixtures :: nat
  fc_real :: nat
  fc_benches :: nat
  fc_suites :: "(codepoints \<times> nat) list"

datatype state_error =
    UnknownBlock codepoints
  | NotClosedBefore codepoints codepoints
  | BlockTwice codepoints
  | EndWithoutBegin codepoints
  | NeverClosed codepoints
  | MissingBlocks "codepoints list"
  | CrLines
  | NarrativeCount nat
  | SuiteTwice codepoints
  | NoRenderer codepoints

definition ticked :: "codepoints \<Rightarrow> codepoints" where "ticked s = [96] @ s @ [96]"
definition COMMA :: codepoints where "COMMA = ascii '', ''"

definition render_version :: "facts \<Rightarrow> codepoints" where
  "render_version f =
     ascii ''**'' @ fc_version f @ ascii ''**'' @ DASH @ ascii ''released '' @ fc_date f @ ascii '', on cyrius '' @
     ticked (fc_pin f) @ ascii ''.'' @ [10]"

definition has_sub :: "codepoints \<Rightarrow> codepoints \<Rightarrow> bool" where
  "has_sub w s \<longleftrightarrow> list_ex (\<lambda>i. take (length w) (drop i s) = w) [0..<Suc (length s)]"

definition loose_count :: "facts \<Rightarrow> nat" where
  "loose_count f =
     length (filter (has_sub (ascii ''not SHA-pinned'')) (concat (map (\<lambda>(a, vs). remdups vs) (fc_actions f))))"

definition actions_cell :: "facts \<Rightarrow> codepoints" where
  "actions_cell f =
     (let cell = cp_join [32, 183, 32] (map (\<lambda>(a, vs). ticked a @ [32] @ cp_join COMMA (sort (remdups vs)))
                   (sort_key fst (fc_actions f)))
      in if cell = [] then ascii ''none''
         else cell @ (if 0 < loose_count f then ascii '' ('' @ num (loose_count f) @ ascii '' not SHA-pinned)''
                      else ascii '' (by commit SHA)''))"

definition runners_cell :: "facts \<Rightarrow> codepoints" where
  "runners_cell f =
     cp_join COMMA (map ticked (sort (remdups (fc_runners f)))) @
     (if length (remdups (fc_runners f)) = 1
      then DASH @ ascii ''every job in '' @ cp_join COMMA (map ticked (fc_workflows f)) else [])"

definition glance_rows :: "facts \<Rightarrow> (codepoints \<times> codepoints) list" where
  "glance_rows f = [
     (ascii ''Version'', fc_version f @ ascii '', released '' @ fc_date f @ ascii '' ('' @ ticked (ascii ''VERSION'') @ COMMA @
        ticked (ascii ''CHANGELOG.md'') @ ascii '')''),
     (ascii ''Toolchain pin'', ascii ''cyrius '' @ ticked (fc_pin f) @ ascii '' ('' @ ticked (ascii ''cyrius.cyml [package].cyrius'') @ ascii '')''),
     (ascii ''CI runners'', runners_cell f),
     (ascii ''Pinned actions'', actions_cell f),
     (ascii ''Public surface'', num (fc_public f) @ [32] @ ticked (ascii ''public fn'') @ ascii ''s in '' @ ticked (ascii ''dist/samvada.cyr'') @
        ascii '' ('' @ ticked (ascii ''tools/public_surface.txt'') @ ascii '')''),
     (ascii ''Internal fns'', num (fc_internal f) @ ascii '', every one private to the bundle ('' @ ticked (ascii ''tools/boundary_check.py'') @
        ascii '')''),
     (ascii ''FFI table'', num (fc_slots f) @ ascii '' slots, '' @ num (fc_ffi_size f) @ ascii '' bytes; '' @ ticked (ascii ''kind'') @ ascii '' at '' @
        ticked (ascii ''+'' @ num (fc_kind_at f)) @ ascii '' ('' @ ticked (ascii ''src/samvada_ffi.cyr'') @ ascii '')''),
     (ticked (ascii ''[lib] modules''), num (length (fc_modules f)) @ COMMA @ ticked (hd (fc_modules f)) @ ascii '' first''),
     (ascii ''stdlib leaves'', num (length (fc_stdlib f)) @ ascii '' declared ('' @ ticked (ascii ''cyrius.cyml [deps]'') @ ascii ''): '' @
        cp_join COMMA (fc_stdlib f) @ ascii ''; the bundle needs '' @ num (length (fc_leaves f)) @ ascii '' ('' @
        ticked (ascii ''dist/samvada.deps'') @ ascii ''): '' @ cp_join COMMA (fc_leaves f)),
     (ascii ''Tests'', num (sum_list (map snd (fc_suites f))) @ ascii '' asserts in '' @ num (length (fc_suites f)) @
        ascii '' suites, none failing ('' @ [167] @ ascii '' Tests)''),
     (ascii ''sd-bus errno map'', num (fc_errno_rows f) @ ascii '' rows ('' @ ticked (ascii ''tests/fixtures/sdbus_errno_map.tsv'') @ ascii '')''),
     (ascii ''Wire fixtures'', num (fc_fixtures f) @ ascii '' captures, '' @ num (fc_real f) @ ascii '' REAL and '' @
        num (fc_fixtures f - fc_real f) @ ascii '' SYNTHETIC ('' @ ticked (ascii ''tests/fixtures/dbus/MANIFEST.md'') @ ascii '')''),
     (ascii ''CPU bench baselines'', num (fc_benches f) @ ascii '' ('' @ ticked (ascii ''tests/samvada.bcyr'') @ ascii '')'')]"

definition render_glance :: "facts \<Rightarrow> codepoints" where
  "render_glance f =
     ascii ''| | |'' @ [10] @ ascii ''|---|---|'' @ [10] @
     concat (map (\<lambda>(k, v). ascii ''| **'' @ k @ ascii ''** | '' @ v @ ascii '' |'' @ [10]) (glance_rows f))"

text \<open>The rows of the old table in order, with their Covers cells.\<close>

fun covers_loop :: "codepoints list \<Rightarrow> (codepoints \<times> codepoints) list \<Rightarrow> state_error + (codepoints \<times> codepoints) list" where
  "covers_loop [] covers = Inr covers"
| "covers_loop (l # ls) covers =
     (case suite_row l of
        None \<Rightarrow> covers_loop ls covers
      | Some (r, cell) \<Rightarrow>
          if r = ascii ''File'' then covers_loop ls covers
          else if map_of covers r \<noteq> None then Inl (SuiteTwice r)
          else covers_loop ls (covers @ [(r, cell)]))"

definition counts_of :: "(codepoints \<times> nat) list \<Rightarrow> (codepoints \<times> nat) list" where
  "counts_of suites = fold (\<lambda>(r, n). AList.update r n) suites []"

definition covers_cell :: "(codepoints \<times> codepoints) list \<Rightarrow> codepoints \<Rightarrow> codepoints" where
  "covers_cell covers r =
     (case map_of covers r of None \<Rightarrow> UNDESCRIBED | Some cell \<Rightarrow> if cell = [] then UNDESCRIBED else cell)"

definition suite_line :: "codepoints \<Rightarrow> nat \<Rightarrow> codepoints \<Rightarrow> codepoints" where
  "suite_line r n cell = ascii ''| '' @ ticked r @ ascii '' | '' @ num n @ ascii '' | '' @ cell @ ascii '' |''"

definition suite_files :: "(codepoints \<times> codepoints) list \<Rightarrow> (codepoints \<times> nat) list \<Rightarrow> codepoints list" where
  "suite_files covers suites =
     filter (\<lambda>r. map_of (counts_of suites) r \<noteq> None) (map fst covers) @
     filter (\<lambda>r. r \<notin> set (map fst covers)) (map fst suites)"

definition render_tests :: "facts \<Rightarrow> codepoints \<Rightarrow> state_error + codepoints" where
  "render_tests f old =
     bindE (covers_loop (cp_splitlines old) []) (\<lambda>covers.
       let counts = counts_of (fc_suites f); files = suite_files covers (fc_suites f) in
       Inr (ascii ''**'' @ num (sum_list (map snd counts)) @ ascii '' asserts**, in '' @ num (length files) @
            ascii '' suites, none failing.'' @ [10, 10] @
            ascii ''| File | Asserts | Covers |'' @ [10] @ ascii ''|---|---|---|'' @ [10] @
            concat (map (\<lambda>r. suite_line r (the (map_of counts r)) (covers_cell covers r) @ [10]) files)))"

definition render :: "codepoints \<Rightarrow> facts \<Rightarrow> codepoints \<Rightarrow> state_error + codepoints" where
  "render name f old =
     (if name = ascii ''version'' then Inr (render_version f)
      else if name = ascii ''glance'' then Inr (render_glance f)
      else if name = ascii ''tests'' then render_tests f old
      else Inl (NoRenderer name))"


section \<open>Blocks\<close>

type_synonym spans = "(codepoints \<times> nat \<times> nat) list"

fun line_starts :: "nat \<Rightarrow> codepoints list \<Rightarrow> (nat \<times> codepoints) list" where
  "line_starts p [] = []"
| "line_starts p (l # ls) = (p, l) # line_starts (p + length l + 1) ls"

text \<open>The matches of \<^verbatim>\<open>MARKER\<close>: kind, name, start and end.\<close>

type_synonym marker = "bool \<times> codepoints \<times> nat \<times> nat"

definition marker_at :: "nat \<times> codepoints \<Rightarrow> marker option" where
  "marker_at pl = (case pl of (p, l) \<Rightarrow> map_option (\<lambda>(b, n). (b, n, p, p + length l)) (marker_line l))"

definition markers :: "codepoints \<Rightarrow> marker list" where
  "markers s = List.map_filter marker_at (line_starts 0 (split_on 10 s))"

fun block_loop :: "marker list \<Rightarrow> spans \<Rightarrow> (codepoints \<times> nat) option \<Rightarrow> state_error + spans \<times> (codepoints \<times> nat) option" where
  "block_loop [] spans opened = Inr (spans, opened)"
| "block_loop ((begins, name, s, e) # ms) spans opened =
     (if name \<notin> set BLOCKS then Inl (UnknownBlock name)
      else if begins then
        (case opened of
           Some (n, a) \<Rightarrow> Inl (NotClosedBefore n name)
         | None \<Rightarrow> if map_of spans name \<noteq> None then Inl (BlockTwice name) else block_loop ms spans (Some (name, e + 1)))
      else
        (case opened of
           None \<Rightarrow> Inl (EndWithoutBegin name)
         | Some (n, a) \<Rightarrow>
             if n \<noteq> name then Inl (EndWithoutBegin name) else block_loop ms (spans @ [(name, (a, s))]) None))"

definition blocks :: "codepoints \<Rightarrow> state_error + spans" where
  "blocks s =
     bindE (block_loop (markers s) [] None) (\<lambda>(spans, opened).
       case opened of
         Some (n, a) \<Rightarrow> Inl (NeverClosed n)
       | None \<Rightarrow>
           let missing = filter (\<lambda>b. map_of spans b = None) BLOCKS
           in if missing \<noteq> [] then Inl (MissingBlocks missing) else Inr spans)"


section \<open>The run\<close>

datatype problem = NarrativeFor codepoints codepoints | Undescribed codepoints

fun replace_blocks :: "facts \<Rightarrow> codepoints \<Rightarrow> spans \<Rightarrow> codepoints \<Rightarrow> state_error + codepoints" where
  "replace_blocks f s [] new = Inr new"
| "replace_blocks f s ((name, (a, b)) # spans) new =
     bindE (render name f (slice s a b)) (\<lambda>r. replace_blocks f s spans (take a new @ r @ drop b new))"

definition undescribed :: "codepoints \<Rightarrow> problem list" where
  "undescribed body =
     List.map_filter (\<lambda>l. case suite_row l of
         None \<Rightarrow> None
       | Some (r, cell) \<Rightarrow> if cell = UNDESCRIBED then Some (Undescribed r) else None) (cp_splitlines body)"

definition sync :: "codepoints \<Rightarrow> facts \<Rightarrow> state_error + codepoints \<times> problem list" where
  "sync s f =
     (if 13 \<in> set s then Inl CrLines
      else
        let marks = narratives s in
        if length marks \<noteq> 1 then Inl (NarrativeCount (length marks))
        else
          bindE (blocks s) (\<lambda>spans.
          bindE (replace_blocks f s (sort_key (\<lambda>kv. - int (fst (snd kv))) spans) s) (\<lambda>new.
          bindE (blocks new) (\<lambda>spans'.
            let (a, b) = the (map_of spans' (ascii ''tests''))
            in Inr (new, (if hd marks \<noteq> fc_version f then [NarrativeFor (hd marks) (fc_version f)] else []) @
                         undescribed (slice new a b))))))"

text \<open>The run on the decoded text of the document, the gathered facts and what writing it answers;
  \<open>'e\<close> are the exceptions of reading, gathering and writing.\<close>

datatype 'e failure = SyncError state_error | Raised 'e

datatype 'e state_line = Usage | Failed "'e failure" | Diff codepoints codepoints | Rewrote | Stale problem | Current

record 'e outcome =
  oc_status :: nat
  oc_written :: "codepoints option"
  oc_lines :: "'e state_line list"

definition raise_failure :: "'e + 'a \<Rightarrow> 'e failure + 'a" where
  "raise_failure r = (case r of Inl e \<Rightarrow> Inl (Raised e) | Inr x \<Rightarrow> Inr x)"

definition sync_failure :: "state_error + 'a \<Rightarrow> 'e failure + 'a" where
  "sync_failure r = (case r of Inl e \<Rightarrow> Inl (SyncError e) | Inr x \<Rightarrow> Inr x)"

definition attempt ::
    "bool \<Rightarrow> 'e + codepoints \<Rightarrow> 'e + facts \<Rightarrow> (codepoints \<Rightarrow> 'e + unit) \<Rightarrow> 'e failure + codepoints \<times> codepoints \<times> problem list" where
  "attempt check raw gathered save =
     bindE (raise_failure raw) (\<lambda>raw.
       let s = universal raw in
     bindE (raise_failure gathered) (\<lambda>f.
     bindE (sync_failure (sync s f)) (\<lambda>(new, problems).
     bindE (if new \<noteq> s \<and> \<not> check then raise_failure (save new) else Inr ()) (\<lambda>_.
       Inr (s, new, problems)))))"

definition state_run ::
    "string list \<Rightarrow> 'e + codepoints \<Rightarrow> 'e + facts \<Rightarrow> (codepoints \<Rightarrow> 'e + unit) \<Rightarrow> 'e outcome" where
  "state_run argv raw gathered save =
     (if argv \<noteq> [] \<and> argv \<noteq> [''--check''] then \<lparr>oc_status = 2, oc_written = None, oc_lines = [Usage]\<rparr>
      else
        let check = (argv = [''--check'']) in
        case attempt check raw gathered save of
          Inl e \<Rightarrow> \<lparr>oc_status = 2, oc_written = None, oc_lines = [Failed e]\<rparr>
        | Inr (s, new, problems) \<Rightarrow>
            \<lparr>oc_status = (if problems \<noteq> [] \<or> check \<and> new \<noteq> s then 1 else 0),
             oc_written = (if new \<noteq> s \<and> \<not> check then Some new else None),
             oc_lines = (if new \<noteq> s then (if check then [Diff s new] else [Rewrote]) else []) @
               map Stale problems @ (if new = s \<and> problems = [] then [Current] else [])\<rparr>)"

end
