(* ===== verification/StateFacts.thy ===== *)
theory StateFacts
  imports CyrDecl StateSync
begin

text \<open>
  What \<^verbatim>\<open>tools/state_sync.py\<close> reads off the tree: the manifest, the workflows, the FFI
  table, the tallies of the suites, and \<open>gather\<close> with its errors in order. The files that are
  parsed by patterns are texts of characters up to U+00FF; \<^verbatim>\<open>CHANGELOG.md\<close>, whose
  heading holds a dash, is code points, and of the digits \<^verbatim>\<open>\d\<close> matches there only
  0 to 9 are modelled. A set is the list of its elements.
\<close>


section \<open>Errors\<close>

datatype 'e gather_error =
    ReadError 'e
  | NotOne string nat
  | EmptyList string
  | RunsOnForm string nat string
  | FfiForm nat nat
  | NoKindSlot
  | FfiSize nat nat
  | NoTally string int
  | SuiteFailed string nat nat nat int
  | NoCyrius
  | SuiteTimeout string
  | BadVersion string
  | NoSection string
  | NoRunsOn
  | BundleDecls decl_error
  | FixturesDisagree
  | NoSuites

definition only_one :: "string \<Rightarrow> 'a list \<Rightarrow> 'e gather_error + 'a" where
  "only_one what hits = (case hits of [x] \<Rightarrow> Inr x | _ \<Rightarrow> Inl (NotOne what (length hits)))"

definition or_read :: "'e + 'a \<Rightarrow> 'e gather_error + 'a" where
  "or_read r = (case r of Inl e \<Rightarrow> Inl (ReadError e) | Inr x \<Rightarrow> Inr x)"


section \<open>cyml\<close>

text \<open>\<open>uncomment\<close>: the open quote and the character before.\<close>

fun st_uncomment_from :: "char option \<Rightarrow> char option \<Rightarrow> string \<Rightarrow> string" where
  "st_uncomment_from q prev [] = []"
| "st_uncomment_from q prev (c # cs) =
     (case q of
        Some d \<Rightarrow> c # st_uncomment_from (if c = d then None else q) (Some c) cs
      | None \<Rightarrow>
          if c = DQ \<or> c = SQ then c # st_uncomment_from (Some c) (Some c) cs
          else if c = HASH \<and> (case prev of None \<Rightarrow> True | Some p \<Rightarrow> p = SP \<or> p = TAB) then []
          else c # st_uncomment_from None (Some c) cs)"

definition st_uncomment :: "string \<Rightarrow> string" where
  "st_uncomment line = st_uncomment_from None None line"

definition ST_TABLE :: rx where
  "ST_TABLE = Seqs [Bol, Chr (CHR ''[''), Grp 1 (Plus (Cls (\<lambda>c. ident_char c \<or> c = CHR ''.''))), Chr (CHR '']''),
     Star (Cls blank_char), Eol]"

text \<open>\<^verbatim>\<open>re.split\<close> with one group, as pairs of a header's name and the text up to the next.\<close>

fun section_bodies :: "string \<Rightarrow> rmatch list \<Rightarrow> (string \<times> string) list" where
  "section_bodies t [] = []"
| "section_bodies t [m] = [(group_or_empty t m 1, drop (m_end m) t)]"
| "section_bodies t (m # m' # ms) = (group_or_empty t m 1, slice t (m_end m) (m_start m')) # section_bodies t (m' # ms)"

definition dict_of :: "('a \<times> 'b) list \<Rightarrow> ('a \<times> 'b) list" where
  "dict_of kvs = fold (\<lambda>(k, v). AList.update k v) kvs []"

definition cyml_sections :: "string \<Rightarrow> (string \<times> string) list" where
  "cyml_sections s =
     (let t = join_with [LF] (map st_uncomment (splitlines s)) in dict_of (section_bodies t (finditer ST_TABLE t)))"

definition LIST_OF :: "string \<Rightarrow> rx" where
  "LIST_OF key = Seqs [Bol, Lit key, rx_spaces, Chr (CHR ''=''), rx_spaces, Chr (CHR ''[''), Grp 1 (LStar (Cls (\<lambda>c. True))), Chr (CHR '']'')]"

definition ST_QUOTED :: rx where
  "ST_QUOTED = Seqs [Chr DQ, Grp 1 (Plus (Cls (\<lambda>c. c \<noteq> DQ))), Chr DQ]"

definition st_cyml_list :: "string \<Rightarrow> string \<Rightarrow> string \<Rightarrow> 'e gather_error + string list" where
  "st_cyml_list body key what =
     bindE (only_one what (findall1 (LIST_OF key) body)) (\<lambda>inner.
       let items = findall1 ST_QUOTED inner in if items = [] then Inl (EmptyList what) else Inr items)"

definition PIN_LINE :: rx where
  "PIN_LINE = Seqs [Bol, Lit ''cyrius'', rx_spaces, Chr (CHR ''=''), rx_spaces, ST_QUOTED]"


section \<open>Workflows\<close>

definition rstrip_ws :: "string \<Rightarrow> string" where
  "rstrip_ws s = rev (dropWhile is_space (rev s))"

definition RUNS_ON :: rx where
  "RUNS_ON = Seqs [rx_spaces, Lit ''runs-on:'', Grp 1 (Star (Cls (\<lambda>c. c \<noteq> LF))), End]"

definition RUNNER :: rx where
  "RUNNER = Seq (Cls (\<lambda>c. is_lower c \<or> is_upper c \<or> is_digit09 c)) (Star (Cls (\<lambda>c. word_char c \<or> c = CHR ''.'' \<or> c = CHR ''-'')))"

definition USES :: rx where
  "USES = Seqs [rx_spaces, Opt (Seqs [Chr (CHR ''-''), rx_spaces1]), Lit ''uses:'', rx_spaces, Grp 1 (Plus (Cls (\<lambda>c. \<not> is_space c)))]"

definition VERSION_NOTE :: rx where
  "VERSION_NOTE = Seqs [Chr HASH, rx_spaces, Grp 1 (Plus (Cls (\<lambda>c. \<not> is_space c)))]"

type_synonym actions = "(string \<times> string list) list"

definition code_part :: "string \<Rightarrow> string" where
  "code_part raw = rstrip_ws (st_uncomment raw)"

text \<open>The runner a line names, and the action it uses, without its quotes.\<close>

definition runs_on :: "string \<Rightarrow> string option" where
  "runs_on raw = map_option (\<lambda>m. strip_ws (group_or_empty (code_part raw) m 1)) (match_in RUNS_ON (code_part raw) 0 (length (code_part raw)))"

definition uses :: "string \<Rightarrow> string option" where
  "uses raw =
     (case match_in USES (code_part raw) 0 (length (code_part raw)) of
        None \<Rightarrow> None
      | Some m \<Rightarrow>
          let quote = (\<lambda>c. c = DQ \<or> c = SQ);
              v = rev (dropWhile quote (rev (dropWhile quote (group_or_empty (code_part raw) m 1))))
          in if starts_with v ''./'' then None else Some v)"

definition action_of :: "string \<Rightarrow> string" where
  "action_of v = takeWhile (\<lambda>c. c \<noteq> CHR ''@'') v"

definition ref_of :: "string \<Rightarrow> string" where
  "ref_of v = drop 1 (dropWhile (\<lambda>c. c \<noteq> CHR ''@'') v)"

definition is_sha :: "string \<Rightarrow> bool" where
  "is_sha s \<longleftrightarrow> length s = 40 \<and> list_all (\<lambda>c. is_digit09 c \<or> c \<in> set ''abcdef'') s"

definition version_of :: "string \<Rightarrow> string \<Rightarrow> string" where
  "version_of raw ref =
     (if is_sha ref then
        let rest = drop (length (code_part raw)) raw in
        (case re_search VERSION_NOTE rest of Some m \<Rightarrow> group_or_empty rest m 1 | None \<Rightarrow> ''@'' @ take 12 ref)
      else ''@'' @ (if ref = [] then ''(none)'' else ref) @ '' (not SHA-pinned)'')"

text \<open>\<^verbatim>\<open>actions.setdefault(act, set()).update(vs)\<close>.\<close>

definition add_versions :: "string \<Rightarrow> string list \<Rightarrow> actions \<Rightarrow> actions" where
  "add_versions act vs actions =
     AList.update act ((case map_of actions act of None \<Rightarrow> [] | Some old \<Rightarrow> old) @ vs) actions"

fun workflow_loop :: "string \<Rightarrow> nat \<Rightarrow> string list \<Rightarrow> string list \<Rightarrow> actions \<Rightarrow> 'e gather_error + string list \<times> actions" where
  "workflow_loop name n [] runners actions = Inr (runners, actions)"
| "workflow_loop name n (raw # ls) runners actions =
     bindE (case runs_on raw of
              None \<Rightarrow> Inr runners
            | Some v \<Rightarrow> if fullmatch RUNNER v = None then Inl (RunsOnForm name n v) else Inr (runners @ [v])) (\<lambda>runners.
       workflow_loop name (n + 1) ls runners
         (case uses raw of
            None \<Rightarrow> actions
          | Some v \<Rightarrow> add_versions (action_of v) [version_of raw (ref_of v)] actions))"

definition parse_workflow :: "string \<Rightarrow> string \<Rightarrow> 'e gather_error + string list \<times> actions" where
  "parse_workflow s name = workflow_loop name 1 (splitlines s) [] []"


section \<open>The FFI table and the suites\<close>

definition NULLARY :: rx where
  "NULLARY = Seqs [rx_spaces, Chr (CHR ''(''), rx_spaces, Chr (CHR '')''),
     Opt (Seqs [rx_spaces, Chr (CHR '':''), rx_spaces, Plus (Cls word_char)]), rx_spaces, Chr (CHR ''{''), rx_spaces, Lit ''return'',
     rx_spaces1, Grp 2 (Plus (Cls is_digit09)), rx_spaces, Chr (CHR '';''), rx_spaces, Chr (CHR ''}'')]"

definition SLOT_HEAD :: rx where
  "SLOT_HEAD = Seqs [WordB, Lit ''fn'', rx_spaces1, Lit ''samvada_slot_'', Grp 1 (Plus (Cls word_char))]"

definition FFI_SIZE :: rx where
  "FFI_SIZE = Seqs [WordB, Lit ''fn'', rx_spaces1, Lit ''samvada_ffi_size'', NULLARY]"

definition parse_ffi :: "string \<Rightarrow> 'e gather_error + nat \<times> nat \<times> nat" where
  "parse_ffi code =
     (let slots = dict_of (map (\<lambda>m. (group_or_empty code m 1, group_or_empty code m 2)) (finditer (Seq SLOT_HEAD NULLARY) code));
          declared = length (finditer SLOT_HEAD code)
      in if declared \<noteq> length slots then Inl (FfiForm declared (length slots))
         else case map_of slots ''kind'' of
                None \<Rightarrow> Inl NoKindSlot
              | Some at \<Rightarrow>
                  bindE (only_one ''samvada_ffi_size'' (map (\<lambda>m. group_or_empty code m 2) (finditer FFI_SIZE code))) (\<lambda>digits.
                    let size = dec_value digits in
                    if length slots * 8 \<noteq> size then Inl (FfiSize (length slots) size)
                    else Inr (length slots, dec_value at, size)))"

definition TALLY :: rx where
  "TALLY = Seqs [Bol, Grp 1 (Plus (Cls is_digit09)), Lit '' passed, '', Grp 2 (Plus (Cls is_digit09)), Lit '' failed ('',
     Grp 3 (Plus (Cls is_digit09)), Lit '' total)'', Star (Cls blank_char), Eol]"

definition tallies :: "string \<Rightarrow> (nat \<times> nat \<times> nat) list" where
  "tallies out =
     map (\<lambda>m. (dec_value (group_or_empty out m 1), dec_value (group_or_empty out m 2), dec_value (group_or_empty out m 3)))
       (finditer TALLY out)"

definition parse_tally :: "string \<Rightarrow> int \<Rightarrow> string \<Rightarrow> 'e gather_error + nat" where
  "parse_tally out rc rel =
     (let ts = tallies out in
      if ts = [] then Inl (NoTally rel rc)
      else
        let (passed, failed, all) = last ts in
        if rc \<noteq> 0 \<or> list_ex (\<lambda>(p, f, t). f \<noteq> 0) ts \<or> passed \<noteq> all \<or> all = 0
        then Inl (SuiteFailed rel passed failed all rc) else Inr all)"

text \<open>What running the compiler's test command on a suite gives.\<close>

datatype proc = NotOnPath | TimedOut | Finished string string int

definition run_suite :: "proc \<Rightarrow> string \<Rightarrow> 'e gather_error + nat" where
  "run_suite p rel =
     (case p of
        NotOnPath \<Rightarrow> Inl NoCyrius
      | TimedOut \<Rightarrow> Inl (SuiteTimeout rel)
      | Finished out err rc \<Rightarrow> parse_tally (out @ err) rc rel)"


section \<open>gather\<close>

text \<open>The tree: the text of a file and of the change log as \<open>read\<close> returns them (line ends already LF),
  the paths relative to the root that a glob pattern finds, and a run of each suite.\<close>

record 'e repo =
  rp_read :: "string \<Rightarrow> 'e + string"
  rp_changelog :: "'e + codepoints"
  rp_glob :: "string \<Rightarrow> string list"
  rp_run :: "string \<Rightarrow> proc"

definition digits_dot :: rx where
  "digits_dot = Seq (Plus (Cls is_digit09)) (Chr (CHR ''.''))"

definition is_version :: "string \<Rightarrow> bool" where
  "is_version s \<longleftrightarrow> fullmatch (Seqs [digits_dot, digits_dot, Plus (Cls is_digit09)]) s \<noteq> None"

definition cp_digit :: "nat \<Rightarrow> bool" where "cp_digit c \<longleftrightarrow> 48 \<le> c \<and> c \<le> 57"

definition date_shape :: "codepoints \<Rightarrow> bool" where
  "date_shape d \<longleftrightarrow> length d = 10 \<and> list_all (\<lambda>i. if i \<in> {4, 7} then d ! i = 45 else cp_digit (d ! i)) [0..<10]"

definition heading_date :: "codepoints \<Rightarrow> codepoints \<Rightarrow> codepoints option" where
  "heading_date version l =
     Option.bind (strip_prefix (ascii ''## ['' @ version @ ascii '']'' @ DASH) l) (\<lambda>s.
       if date_shape (take 10 s) \<and> list_all cp_blank (drop 10 s) then Some (take 10 s) else None)"

definition basename :: "string \<Rightarrow> string" where
  "basename p = last (split_char (CHR ''/'') p)"

fun workflows_loop :: "'e repo \<Rightarrow> string list \<Rightarrow> string list \<Rightarrow> actions \<Rightarrow> 'e gather_error + string list \<times> actions" where
  "workflows_loop rp [] runners actions = Inr (runners, actions)"
| "workflows_loop rp (path # paths) runners actions =
     bindE (or_read (rp_read rp path)) (\<lambda>s.
     bindE (parse_workflow s path) (\<lambda>(rs, acts).
       workflows_loop rp paths (runners @ rs) (fold (\<lambda>(name, vs). add_versions name vs) acts actions)))"

definition content_lines :: "string \<Rightarrow> string list" where
  "content_lines s = filter (\<lambda>l. strip_ws l \<noteq> [] \<and> \<not> starts_with (lstrip_ws l) ''#'') (splitlines s)"

definition MANIFEST_ROW :: rx where
  "MANIFEST_ROW = Seqs [Bol, Chr (CHR ''|''), rx_spaces, Chr (CHR ''`''), Grp 1 (Seq (Plus (Cls (\<lambda>c. c \<noteq> CHR ''`''))) (Lit ''.bin'')),
     Chr (CHR ''`''), rx_spaces, Chr (CHR ''|''), rx_spaces, Plus (Cls is_digit09), rx_spaces, Chr (CHR ''|''), rx_spaces, Lit ''**'',
     Grp 2 (Words [''REAL'', ''SYNTHETIC'']), Lit ''**'', rx_spaces, Chr (CHR ''|'')]"

definition BENCH_NEW :: rx where
  "BENCH_NEW = Seqs [WordB, Lit ''bench_new'', rx_spaces, Chr (CHR ''('')]"

definition fixture_rows :: "string \<Rightarrow> (string \<times> string) list" where
  "fixture_rows s = map (\<lambda>m. (group_or_empty s m 1, group_or_empty s m 2)) (finditer MANIFEST_ROW s)"

definition section_of :: "(string \<times> string) list \<Rightarrow> string \<Rightarrow> 'e gather_error + string" where
  "section_of sec s = (case map_of sec s of None \<Rightarrow> Inl (NoSection s) | Some body \<Rightarrow> Inr body)"

definition or_decls :: "decl_error + 'a \<Rightarrow> 'e gather_error + 'a" where
  "or_decls r = (case r of Inl e \<Rightarrow> Inl (BundleDecls e) | Inr x \<Rightarrow> Inr x)"

definition gather :: "'e repo \<Rightarrow> 'e gather_error + facts" where
  "gather rp =
     bindE (or_read (rp_read rp ''VERSION'')) (\<lambda>v.
     let version = strip_ws v in
     if \<not> is_version version then Inl (BadVersion version) else
     bindE (or_read (rp_changelog rp)) (\<lambda>log.
     bindE (only_one ''CHANGELOG.md heading'' (List.map_filter (heading_date (ascii version)) (split_on 10 log))) (\<lambda>date.
     bindE (or_read (rp_read rp ''cyrius.cyml'')) (\<lambda>cyml.
     let sec = cyml_sections cyml in
     bindE (section_of sec ''package'') (\<lambda>package.
     bindE (section_of sec ''lib'') (\<lambda>lib.
     bindE (section_of sec ''deps'') (\<lambda>deps.
     bindE (only_one ''pin'' (findall1 PIN_LINE package)) (\<lambda>pin.
     bindE (st_cyml_list lib ''modules'' ''modules'') (\<lambda>modules.
     bindE (st_cyml_list deps ''stdlib'' ''stdlib'') (\<lambda>stdlib.
     let paths = sort (rp_glob rp ''.github/workflows/*.yml'' @ rp_glob rp ''.github/workflows/*.yaml'') in
     bindE (workflows_loop rp paths [] []) (\<lambda>(runners, actions).
     if runners = [] then Inl NoRunsOn else
     bindE (or_read (rp_read rp ''dist/samvada.cyr'')) (\<lambda>bundle.
     bindE (or_decls (fn_decls (strip bundle Cyr False))) (\<lambda>decls.
     let public = length (filter is_public decls) in
     bindE (or_read (rp_read rp ''src/samvada_ffi.cyr'')) (\<lambda>ffi.
     bindE (parse_ffi (strip ffi Cyr False)) (\<lambda>(slots, kind_at, size).
     bindE (or_read (rp_read rp ''dist/samvada.deps'')) (\<lambda>leaves.
     bindE (or_read (rp_read rp ''tests/fixtures/sdbus_errno_map.tsv'')) (\<lambda>errno.
     bindE (or_read (rp_read rp ''tests/fixtures/dbus/MANIFEST.md'')) (\<lambda>manifest.
     let rows = fixture_rows manifest;
         disk = sort (map basename (rp_glob rp ''tests/fixtures/dbus/*.bin'')) in
     if sort (map fst rows) \<noteq> disk then Inl FixturesDisagree else
     bindE (or_read (rp_read rp ''tests/samvada.bcyr'')) (\<lambda>bench.
     let rels = sort (rp_glob rp ''tests/**/*.tcyr'') in
     if rels = [] then Inl NoSuites else
     bindE (mapE (\<lambda>r. bindE (run_suite (rp_run rp r) r) (\<lambda>n. Inr (r, n))) rels) (\<lambda>suites.
     Inr \<lparr>fc_version = ascii version, fc_date = date, fc_pin = ascii pin, fc_modules = map ascii modules, fc_stdlib = map ascii stdlib,
       fc_runners = map ascii runners, fc_actions = map (\<lambda>(a, vs). (ascii a, map ascii vs)) actions, fc_workflows = map (ascii \<circ> basename) paths,
       fc_public = public, fc_internal = length decls - public, fc_slots = slots, fc_kind_at = kind_at, fc_ffi_size = size,
       fc_leaves = map (ascii \<circ> strip_ws) (content_lines leaves), fc_errno_rows = length (content_lines errno),
       fc_fixtures = length rows, fc_real = length (filter (\<lambda>(n, k). k = ''REAL'') rows),
       fc_benches = length (findall BENCH_NEW (strip bench Cyr False)), fc_suites = map (\<lambda>(r, n). (ascii r, n)) suites\<rparr>))))))))))))))))))))"


section \<open>The tool\<close>

text \<open>\<^verbatim>\<open>main\<close> without its self-test: the run on the tree, the decoded text of the document and
  what writing it answers. An exception of the file system is a \<open>ReadError\<close> wherever it comes from.\<close>

definition state_main ::
    "string list \<Rightarrow> 'e repo \<Rightarrow> 'e + codepoints \<Rightarrow> (codepoints \<Rightarrow> 'e + unit) \<Rightarrow> 'e gather_error outcome" where
  "state_main argv rp raw save = state_run argv (or_read raw) (gather rp) (\<lambda>new. or_read (save new))"

end
