(* ===== verification/StateFactsSpec.thy ===== *)
theory StateFactsSpec
  imports StateFacts CyrDeclSpec
begin

text \<open>
  What a successful \<open>gather\<close> guarantees of its facts, and that no workflow passes an action that is
  not pinned to a commit as pinned.
\<close>


section \<open>A successful gather\<close>

lemma bindE_InrE: "bindE m g = Inr y \<Longrightarrow> (\<And>x. m = Inr x \<Longrightarrow> g x = Inr y \<Longrightarrow> P) \<Longrightarrow> P"
  by (auto simp: bindE_Inr_iff)

lemma guard_InrE: "(if c then Inl e else m) = Inr y \<Longrightarrow> (\<not> c \<Longrightarrow> m = Inr y \<Longrightarrow> P) \<Longrightarrow> P"
  by (auto split: if_splits)

lemma pair_InrE: "(case x of (a, b) \<Rightarrow> g a b) = Inr y \<Longrightarrow> (\<And>a b. x = (a, b) \<Longrightarrow> g a b = Inr y \<Longrightarrow> P) \<Longrightarrow> P"
  by (cases x) simp

lemma Inr_eqE: "Inr x = Inr y \<Longrightarrow> (y = x \<Longrightarrow> P) \<Longrightarrow> P"
  by simp

lemma or_read_Inr: "or_read r = Inr x \<longleftrightarrow> r = Inr x"
  by (cases r) (simp_all add: or_read_def)

lemma or_decls_Inr: "or_decls r = Inr x \<longleftrightarrow> r = Inr x"
  by (cases r) (simp_all add: or_decls_def)

lemma gather_parts:
  fixes rp :: "'e repo"
  assumes "gather rp = Inr f"
  obtains runners actions dist decls ffi rows suites modules paths
  where "workflows_loop rp paths [] [] = Inr (runners, actions)"
    "paths = sort (rp_glob rp ''.github/workflows/*.yml'' @ rp_glob rp ''.github/workflows/*.yaml'')" "runners \<noteq> []"
    "fc_runners f = map ascii runners" "fc_actions f = map (\<lambda>(a, vs). (ascii a, map ascii vs)) actions"
    "rp_read rp ''dist/samvada.cyr'' = Inr dist" "fn_decls (strip dist Cyr False) = Inr decls"
    "fc_public f = length (filter is_public decls)" "fc_internal f = length decls - fc_public f"
    "parse_ffi ffi = (Inr (fc_slots f, fc_kind_at f, fc_ffi_size f) :: 'e gather_error + nat \<times> nat \<times> nat)"
    "sort (map fst rows) = sort (map basename (rp_glob rp ''tests/fixtures/dbus/*.bin''))" "fc_fixtures f = length rows"
    "fc_real f = length (filter (\<lambda>(n, k). k = ''REAL'') rows)"
    "mapE (\<lambda>r. bindE (run_suite (rp_run rp r) r) (\<lambda>n. Inr (r, n))) (sort (rp_glob rp ''tests/**/*.tcyr'')) =
       (Inr suites :: 'e gather_error + (string \<times> nat) list)"
    "fc_suites f = map (\<lambda>(r, n). (ascii r, n)) suites" "suites \<noteq> []"
    "fc_modules f = map ascii modules" "modules \<noteq> []"
  using assms unfolding gather_def Let_def
proof (elim bindE_InrE guard_InrE pair_InrE Inr_eqE, goal_cases)
  case (1 v log date cyml package lib deps pin modules stdlib x runners actions dist decls ffi y slots rest kind_at size leaves errno manifest bench suites)
  have items: "modules \<noteq> []" using 1 by (auto simp: st_cyml_list_def bindE_Inr_iff Let_def split: if_splits)
  have ran: "suites \<noteq> []" using 1 mapE_length by fastforce
  show ?thesis
    by (rule that [of _ runners actions dist decls "strip ffi Cyr False" "fixture_rows manifest" suites modules])
      (use 1 items ran in \<open>simp_all only: facts.simps or_read_Inr or_decls_Inr not_not not_False_eq_True\<close>)
qed


lemma gather_actions:
  assumes "gather rp = Inr f"
  obtains runners actions paths where "workflows_loop rp paths [] [] = Inr (runners, actions)"
    "paths = sort (rp_glob rp ''.github/workflows/*.yml'' @ rp_glob rp ''.github/workflows/*.yaml'')"
    "fc_actions f = map (\<lambda>(a, vs). (ascii a, map ascii vs)) actions"
  by (rule gather_parts [OF assms]) (rule that)


section \<open>Tallies and slots\<close>

lemma parse_tally_Inr:
  "parse_tally out rc rel = Inr n \<Longrightarrow>
     rc = 0 \<and> tallies out \<noteq> [] \<and> last (tallies out) = (n, 0, n) \<and> 0 < n \<and> (\<forall>t \<in> set (tallies out). fst (snd t) = 0)"
proof -
  assume h: "parse_tally out rc rel = Inr n"
  then have ne: "tallies out \<noteq> []" by (auto simp: parse_tally_def Let_def split: if_splits)
  obtain p fl t where l: "last (tallies out) = (p, fl, t)" by (metis prod_cases3)
  with h ne have ok: "rc = 0" "\<not> list_ex (\<lambda>(p, f, t). f \<noteq> 0) (tallies out)" "p = t" "t \<noteq> 0" "t = n"
    by (auto simp: parse_tally_def Let_def split: if_splits)
  from ok(2) have "\<forall>t \<in> set (tallies out). fst (snd t) = 0" by (force simp: list_ex_iff)
  moreover from this l ne have "fl = 0" by (metis fst_conv last_in_set snd_conv)
  ultimately show ?thesis using ok ne l by simp
qed

lemma run_suite_Inr:
  "run_suite p rel = Inr n \<Longrightarrow> \<exists>out err. p = Finished out err 0 \<and> last (tallies (out @ err)) = (n, 0, n) \<and> 0 < n \<and>
     (\<forall>t \<in> set (tallies (out @ err)). fst (snd t) = 0)"
  by (cases p) (auto simp: run_suite_def dest: parse_tally_Inr)

lemma parse_ffi_Inr: "parse_ffi code = Inr (slots, k, bytes) \<Longrightarrow> slots * 8 = bytes"
  by (auto simp: parse_ffi_def Let_def bindE_Inr_iff split: if_splits option.splits)


section \<open>Pinned actions\<close>

lemma map_of_add_versions:
  "map_of (add_versions act vs actions) a =
     (if a = act then Some ((case map_of actions act of None \<Rightarrow> [] | Some old \<Rightarrow> old) @ vs) else map_of actions a)"
  by (simp add: add_versions_def update_conv')

definition records :: "actions \<Rightarrow> string \<Rightarrow> string \<Rightarrow> bool" where
  "records actions act v \<longleftrightarrow> (\<exists>vs. map_of actions act = Some vs \<and> v \<in> set vs)"

lemma records_add: "records actions a v \<Longrightarrow> records (add_versions act vs actions) a v" "v \<in> set vs \<Longrightarrow> records (add_versions act vs actions) act v"
  by (auto simp: records_def map_of_add_versions)

lemma records_merge: "records actions a v \<Longrightarrow> records (fold (\<lambda>(name, vs). add_versions name vs) acts actions) a v"
  by (induction acts arbitrary: actions) (auto intro: records_add)

lemma records_merged: "(a, vs) \<in> set acts \<Longrightarrow> v \<in> set vs \<Longrightarrow> records (fold (\<lambda>(name, vs). add_versions name vs) acts actions) a v"
  by (induction acts arbitrary: actions) (auto intro: records_merge records_add)

lemma workflow_loop_records:
  "workflow_loop name n ls runners actions = (Inr (runners', actions') :: 'e gather_error + string list \<times> actions) \<Longrightarrow>
     (records actions a v \<longrightarrow> records actions' a v) \<and>
     (\<forall>raw \<in> set ls. \<forall>u. uses raw = Some u \<longrightarrow> records actions' (action_of u) (version_of raw (ref_of u)))"
proof (induction ls arbitrary: n runners actions a v)
  case (Cons raw ls)
  let ?acts = "case uses raw of None \<Rightarrow> actions | Some v \<Rightarrow> add_versions (action_of v) [version_of raw (ref_of v)] actions"
  from Cons.prems obtain r where r: "(case runs_on raw of None \<Rightarrow> Inr runners
      | Some v \<Rightarrow> if fullmatch RUNNER v = None then Inl (RunsOnForm name n v) else Inr (runners @ [v])) = (Inr r :: 'e gather_error + string list)"
    "workflow_loop name (n + 1) ls r ?acts = (Inr (runners', actions') :: 'e gather_error + string list \<times> actions)" by (auto simp: bindE_Inr_iff)
  note IH = Cons.IH [OF r(2)]
  have keep: "records actions a v \<longrightarrow> records ?acts a v" by (auto split: option.split intro: records_add)
  have "records ?acts (action_of u) (version_of raw (ref_of u))" if "uses raw = Some u" for u using that by (simp add: records_add)
  with IH keep show ?case by auto
qed simp

lemma parse_workflow_records:
  assumes "parse_workflow s name = Inr (runners, actions)" "raw \<in> set (splitlines s)" "uses raw = Some u"
  shows "\<exists>vs. (action_of u, vs) \<in> set actions \<and> version_of raw (ref_of u) \<in> set vs"
proof -
  from workflow_loop_records [OF assms(1) [unfolded parse_workflow_def]] assms(2,3)
  have "records actions (action_of u) (version_of raw (ref_of u))" by blast
  then show ?thesis unfolding records_def using map_of_SomeD by metis
qed

lemma workflows_loop_records:
  fixes rp :: "'e repo"
  shows "workflows_loop rp paths runners actions = Inr (runners', actions') \<Longrightarrow>
     (records actions a v \<longrightarrow> records actions' a v) \<and>
     (\<forall>p \<in> set paths. \<forall>s raw u. rp_read rp p = Inr s \<longrightarrow> raw \<in> set (splitlines s) \<longrightarrow> uses raw = Some u \<longrightarrow>
        records actions' (action_of u) (version_of raw (ref_of u)))"
proof (induction paths arbitrary: runners actions a v)
  case (Cons path paths)
  from Cons.prems obtain s rs acts where s: "rp_read rp path = Inr s" "parse_workflow s path = (Inr (rs, acts) :: 'e gather_error + string list \<times> actions)"
    "workflows_loop rp paths (runners @ rs) (fold (\<lambda>(name, vs). add_versions name vs) acts actions) = Inr (runners', actions')"
    unfolding workflows_loop.simps by (elim bindE_InrE pair_InrE) (simp only: or_read_Inr)
  note IH = Cons.IH [OF s(3)]
  have "records (fold (\<lambda>(name, vs). add_versions name vs) acts actions) (action_of u) (version_of raw (ref_of u))"
    if "raw \<in> set (splitlines s)" "uses raw = Some u" for raw u
    using parse_workflow_records [OF s(2) that] records_merged by blast
  with IH s(1) records_merge show ?case by auto
qed simp

lemma ascii_append: "ascii (s @ t) = ascii s @ ascii t"
  by (simp add: ascii_def)

lemma has_sub_append: "has_sub w (p @ w @ q)"
proof -
  have "length p \<in> set [0..<Suc (length (p @ w @ q))]" "take (length w) (drop (length p) (p @ w @ q)) = w" by (simp_all del: upt_Suc)
  then show ?thesis unfolding has_sub_def list_ex_iff by blast
qed

lemma version_of_loose: "\<not> is_sha ref \<Longrightarrow> has_sub (ascii ''not SHA-pinned'') (ascii (version_of raw ref))"
proof -
  assume "\<not> is_sha ref"
  moreover have "'' (not SHA-pinned)'' = '' ('' @ ''not SHA-pinned'' @ '')''" by simp
  ultimately have "ascii (version_of raw ref) = (ascii (''@'' @ (if ref = [] then ''(none)'' else ref)) @ ascii '' ('') @
      ascii ''not SHA-pinned'' @ ascii '')''" by (simp only: version_of_def if_False ascii_append append.assoc)
  then show ?thesis by (simp only: has_sub_append)
qed

lemma cp_join_not_Nil: "w \<noteq> [] \<Longrightarrow> cp_join sep (w # ws) \<noteq> []"
  by (cases ws) simp_all

lemma loose_cell:
  assumes "(a, vs) \<in> set (fc_actions f)" "v \<in> set vs" "has_sub (ascii ''not SHA-pinned'') v"
  shows "0 < loose_count f \<and> (\<exists>p. actions_cell f = p @ ascii '' ('' @ num (loose_count f) @ ascii '' not SHA-pinned)'')"
proof -
  have "v \<in> set (filter (has_sub (ascii ''not SHA-pinned'')) (concat (map (\<lambda>(a, vs). remdups vs) (fc_actions f))))"
    using assms by force
  then have pos: "0 < loose_count f" unfolding loose_count_def by (metis length_pos_if_in_set)
  obtain x xs where x: "sort_key fst (fc_actions f) = x # xs" using assms(1)
    by (metis length_sort list.set_cases length_0_conv list.exhaust)
  have "cp_join [32, 183, 32] (map (\<lambda>(a, vs). ticked a @ [32] @ cp_join COMMA (sort (remdups vs))) (sort_key fst (fc_actions f))) \<noteq> []"
    unfolding x list.map by (rule cp_join_not_Nil) (simp add: case_prod_unfold ticked_def)
  then have "\<exists>p. actions_cell f = p @ ascii '' ('' @ num (loose_count f) @ ascii '' not SHA-pinned)''"
    unfolding actions_cell_def Let_def if_P [OF pos] by (metis (no_types, lifting))
  with pos show ?thesis by blast
qed


section \<open>Properties\<close>

definition BUNDLE_TEXT :: string where "BUNDLE_TEXT = ''public fn a() { } fn b() { }''"

definition SAMPLE_FFI :: string where
  "SAMPLE_FFI = ''fn samvada_ffi_size(){return 8;}fn samvada_slot_kind(){return 0;}''"

definition SAMPLE_CYML :: string where
  "SAMPLE_CYML = ''[package]'' @ [LF] @ ''cyrius = '' @ [DQ] @ ''6.7'' @ [DQ] @ [LF] @ ''[lib]'' @ [LF] @ ''modules = ['' @ [DQ] @ ''a.cyr'' @ [DQ] @
     '']'' @ [LF] @ ''[deps]'' @ [LF] @ ''stdlib = ['' @ [DQ] @ ''fmt'' @ [DQ] @ '']'' @ [LF]"

definition SAMPLE_REPO :: "unit repo" where
  "SAMPLE_REPO = \<lparr>rp_read = (\<lambda>p. Inr (if p = ''VERSION'' then ''1.2.0'' else if p = ''cyrius.cyml'' then SAMPLE_CYML
       else if p = ''dist/samvada.cyr'' then BUNDLE_TEXT else if p = ''src/samvada_ffi.cyr'' then SAMPLE_FFI
       else if p = ''w.yml'' then ''runs-on: ubuntu'' @ [LF] @ ''uses: a/b@v1'' else [])),
     rp_changelog = Inr (ascii ''## [1.2.0]'' @ DASH @ ascii ''2025-01-31''),
     rp_glob = (\<lambda>p. if p = ''.github/workflows/*.yml'' then [''w.yml''] else if p = ''tests/**/*.tcyr'' then [''t.tcyr''] else []),
     rp_run = (\<lambda>p. Finished ''3 passed, 0 failed (3 total)'' [] 0)\<rparr>"

text \<open>The sample is evaluated stage by stage.\<close>

lemma sample_parts:
  "is_version (strip_ws ''1.2.0'')"
  "cyml_sections SAMPLE_CYML = [(''package'', LF # ''cyrius = '' @ [DQ] @ ''6.7'' @ [DQ] @ [LF]),
     (''lib'', LF # ''modules = ['' @ [DQ] @ ''a.cyr'' @ [DQ] @ '']'' @ [LF]), (''deps'', LF # ''stdlib = ['' @ [DQ] @ ''fmt'' @ [DQ] @ '']'')]"
  "findall1 PIN_LINE (LF # ''cyrius = '' @ [DQ] @ ''6.7'' @ [DQ] @ [LF]) = [''6.7'']"
  "findall1 (LIST_OF ''modules'') (LF # ''modules = ['' @ [DQ] @ ''a.cyr'' @ [DQ] @ '']'' @ [LF]) = [[DQ] @ ''a.cyr'' @ [DQ]]"
  "findall1 (LIST_OF ''stdlib'') (LF # ''stdlib = ['' @ [DQ] @ ''fmt'' @ [DQ] @ '']'') = [[DQ] @ ''fmt'' @ [DQ]]"
  "findall1 ST_QUOTED ([DQ] @ ''a.cyr'' @ [DQ]) = [''a.cyr'']" "findall1 ST_QUOTED ([DQ] @ ''fmt'' @ [DQ]) = [''fmt'']"
  "strip SAMPLE_FFI Cyr False = SAMPLE_FFI" "strip [] Cyr False = []" "fixture_rows [] = []"
  "(case fn_decls (strip BUNDLE_TEXT Cyr False) of Inr x \<Rightarrow> True | Inl _ \<Rightarrow> False)"
  "tallies ''3 passed, 0 failed (3 total)'' = [(3, 0, 3)]"
  by code_simp+

lemma sample_heading:
  "List.map_filter (heading_date (ascii ''1.2.0'')) (split_on 10 (ascii ''## [1.2.0]'' @ DASH @ ascii ''2025-01-31'')) = [ascii ''2025-01-31'']"
proof -
  have "10 \<notin> set (ascii ''## [1.2.0]'' @ DASH @ ascii ''2025-01-31'')" by (simp add: ascii_def DASH_def)
  moreover have "ascii ''## [1.2.0]'' @ DASH @ ascii ''2025-01-31'' = (ascii ''## ['' @ ascii ''1.2.0'' @ ascii '']'' @ DASH) @ ascii ''2025-01-31''"
    by (simp add: ascii_def)
  moreover have "date_shape (take 10 (ascii ''2025-01-31''))" "list_all cp_blank (drop 10 (ascii ''2025-01-31''))" "take 10 (ascii ''2025-01-31'') = ascii ''2025-01-31''"
    by code_simp+
  ultimately show ?thesis by (simp add: split_on_no_sep map_filter_simps heading_date_def strip_prefix_def)
qed

lemma sample_ffi:
  "finditer (Seq SLOT_HEAD NULLARY) SAMPLE_FFI = [\<lparr>m_start = 32, m_end = 65, m_groups = [(2, 62, 63), (1, 48, 52)]\<rparr>]"
  "length (finditer SLOT_HEAD SAMPLE_FFI) = 1"
  "finditer FFI_SIZE SAMPLE_FFI = [\<lparr>m_start = 0, m_end = 32, m_groups = [(2, 29, 30)]\<rparr>]"
  "group_or_empty SAMPLE_FFI \<lparr>m_start = 32, m_end = 65, m_groups = [(2, 62, 63), (1, 48, 52)]\<rparr> 1 = ''kind''"
  "group_or_empty SAMPLE_FFI \<lparr>m_start = 0, m_end = 32, m_groups = [(2, 29, 30)]\<rparr> 2 = ''8''" "dec_value ''8'' = 8"
  by code_simp+

lemma sample_workflow:
  "splitlines (''runs-on: ubuntu'' @ [LF] @ ''uses: a/b@v1'') = [''runs-on: ubuntu'', ''uses: a/b@v1'']"
  "runs_on ''runs-on: ubuntu'' = Some ''ubuntu''" "fullmatch RUNNER ''ubuntu'' \<noteq> None" "uses ''runs-on: ubuntu'' = None"
  "runs_on ''uses: a/b@v1'' = None" "uses ''uses: a/b@v1'' = Some ''a/b@v1''" "\<not> is_sha (ref_of ''a/b@v1'')"
  by code_simp+

lemma sample_gather: "\<exists>f. gather SAMPLE_REPO = Inr f \<and> fc_pin f = ascii ''6.7'' \<and> fc_modules f = [ascii ''a.cyr''] \<and> fc_stdlib f = [ascii ''fmt'']"
proof -
  obtain decls where d: "fn_decls (strip BUNDLE_TEXT Cyr False) = Inr decls" using sample_parts(11)
    by (cases "fn_decls (strip BUNDLE_TEXT Cyr False)") simp_all
  obtain k where ffi: "parse_ffi SAMPLE_FFI = (Inr (1, k, 8) :: unit gather_error + nat \<times> nat \<times> nat)"
    unfolding parse_ffi_def sample_ffi(1-3) list.map sample_ffi(4,5) Let_def by (simp add: dict_of_def only_one_def sample_ffi(6))
  obtain acts where w: "parse_workflow (''runs-on: ubuntu'' @ [LF] @ ''uses: a/b@v1'') ''w.yml'' =
      (Inr ([''ubuntu''], acts) :: unit gather_error + string list \<times> actions)"
    unfolding parse_workflow_def sample_workflow(1) workflow_loop.simps sample_workflow(2,4-6) option.case if_not_P [OF sample_workflow(3)] bindE.simps by simp
  have run: "run_suite (Finished ''3 passed, 0 failed (3 total)'' [] 0) r = (Inr 3 :: unit gather_error + nat)" for r
    unfolding run_suite_def proc.case append_Nil2 parse_tally_def sample_parts(12) Let_def by simp
  obtain rd where rd: "rd = rp_read SAMPLE_REPO" by blast
  have files: "rd ''VERSION'' = Inr ''1.2.0''" "rd ''cyrius.cyml'' = Inr SAMPLE_CYML" "rd ''dist/samvada.cyr'' = Inr BUNDLE_TEXT"
    "rd ''src/samvada_ffi.cyr'' = Inr SAMPLE_FFI" "rd ''dist/samvada.deps'' = Inr []" "rd ''tests/fixtures/sdbus_errno_map.tsv'' = Inr []"
    "rd ''tests/fixtures/dbus/MANIFEST.md'' = Inr []" "rd ''tests/samvada.bcyr'' = Inr []"
    "rd ''w.yml'' = Inr (''runs-on: ubuntu'' @ [LF] @ ''uses: a/b@v1'')"
    by (simp_all add: rd SAMPLE_REPO_def)
  have other: "rp_changelog SAMPLE_REPO = Inr (ascii ''## [1.2.0]'' @ DASH @ ascii ''2025-01-31'')"
    "rp_glob SAMPLE_REPO ''.github/workflows/*.yml'' = [''w.yml'']" "rp_glob SAMPLE_REPO ''.github/workflows/*.yaml'' = []"
    "rp_glob SAMPLE_REPO ''tests/fixtures/dbus/*.bin'' = []" "rp_glob SAMPLE_REPO ''tests/**/*.tcyr'' = [''t.tcyr'']"
    "rp_run SAMPLE_REPO r = Finished ''3 passed, 0 failed (3 total)'' [] 0" for r
    by (simp_all add: SAMPLE_REPO_def)
  have version: "strip_ws ''1.2.0'' = ''1.2.0''" by code_simp
  have one: "sort [x] = [x :: string]" "sort ([] :: string list) = []" "[x] @ [] = [x]" for x by simp_all
  obtain actions where loop: "workflows_loop SAMPLE_REPO [''w.yml''] [] [] = (Inr ([''ubuntu''], actions) :: unit gather_error + string list \<times> actions)"
    unfolding workflows_loop.simps rd [symmetric] files(9) or_read_def sum.case bindE.simps w by simp
  have sections: "section_of (cyml_sections SAMPLE_CYML) ''package'' = (Inr (LF # ''cyrius = '' @ [DQ] @ ''6.7'' @ [DQ] @ [LF]) :: unit gather_error + string)"
    "section_of (cyml_sections SAMPLE_CYML) ''lib'' = (Inr (LF # ''modules = ['' @ [DQ] @ ''a.cyr'' @ [DQ] @ '']'' @ [LF]) :: unit gather_error + string)"
    "section_of (cyml_sections SAMPLE_CYML) ''deps'' = (Inr (LF # ''stdlib = ['' @ [DQ] @ ''fmt'' @ [DQ] @ '']'') :: unit gather_error + string)"
    unfolding section_of_def sample_parts(2) by simp_all
  have lists: "st_cyml_list (LF # ''modules = ['' @ [DQ] @ ''a.cyr'' @ [DQ] @ '']'' @ [LF]) ''modules'' ''modules'' = (Inr [''a.cyr''] :: unit gather_error + string list)"
    "st_cyml_list (LF # ''stdlib = ['' @ [DQ] @ ''fmt'' @ [DQ] @ '']'') ''stdlib'' ''stdlib'' = (Inr [''fmt''] :: unit gather_error + string list)"
    unfolding st_cyml_list_def sample_parts(4-7) only_one_def list.case bindE.simps Let_def by simp_all
  have parts: "only_one what [x] = (Inr x :: unit gather_error + 'z)" "or_decls (Inr y) = (Inr y :: unit gather_error + 'y)"
    "content_lines [] = []" "mapE g ([] :: string list) = (Inr [] :: unit gather_error + (string \<times> nat) list)" "or_read (Inr z) = (Inr z :: unit gather_error + 'w)"
    for what and x :: 'z and y :: 'y and g and z :: 'w
    by (simp_all add: only_one_def or_decls_def content_lines_def or_read_def)
  show ?thesis
    unfolding gather_def rd [symmetric] files other version parts(5) bindE.simps Let_def
    by (simp only: sample_parts(1) [unfolded version] sample_heading parts(1,2) sections sample_parts(3) lists append_Nil2 list.distinct
      one loop prod.case d sample_parts(8-10) ffi list.map run mapE.simps bindE.simps if_True if_False simp_thms sum.inject ex_simps parts(3) simp_thms)
      (simp only: facts.simps list.map simp_thms)
qed

text \<open>C30: what a successful \<open>gather\<close> guarantees. Every suite found was run to the end with exit status
  0, its count is the total of its last tally, all passed and none failed in any tally of its
  output, and no suite is left out; the public and internal functions are all the fn tokens of
  the bundle's code, the public ones its pub/public tokens; the FFI table has eight bytes a slot;
  the fixtures are the files on disk, the real ones among them; and there is a module, a runner
  and a suite to speak of.\<close>

theorem gathered_facts:
  assumes "gather rp = Inr f"
  shows "\<exists>suites dist.
    fc_suites f = map (\<lambda>(r, n). (ascii r, n)) suites \<and> suites \<noteq> [] \<and> map fst suites = sort (rp_glob rp ''tests/**/*.tcyr'') \<and>
    (\<forall>(r, n) \<in> set suites. \<exists>out err. rp_run rp r = Finished out err 0 \<and> last (tallies (out @ err)) = (n, 0, n) \<and> 0 < n \<and>
       (\<forall>t \<in> set (tallies (out @ err)). fst (snd t) = 0)) \<and>
    rp_read rp ''dist/samvada.cyr'' = Inr dist \<and>
    fc_public f + fc_internal f = card {k. fn_at (strip dist Cyr False) k} \<and> fc_public f = card {k. public_at (strip dist Cyr False) k} \<and>
    fc_slots f * 8 = fc_ffi_size f \<and> fc_fixtures f = length (rp_glob rp ''tests/fixtures/dbus/*.bin'') \<and> fc_real f \<le> fc_fixtures f \<and>
    fc_modules f \<noteq> [] \<and> fc_runners f \<noteq> []"
proof -
  from assms obtain runners actions dist decls ffi rows suites modules paths where p0: "workflows_loop rp paths [] [] = Inr (runners, actions)"
    "paths = sort (rp_glob rp ''.github/workflows/*.yml'' @ rp_glob rp ''.github/workflows/*.yaml'')"
    and p1: "runners \<noteq> []" "fc_runners f = map ascii runners"
    and p2: "fc_actions f = map (\<lambda>(a, vs). (ascii a, map ascii vs)) actions"
    and p3: "rp_read rp ''dist/samvada.cyr'' = Inr dist" "fn_decls (strip dist Cyr False) = Inr decls"
    "fc_public f = length (filter is_public decls)" "fc_internal f = length decls - fc_public f"
    "parse_ffi ffi = (Inr (fc_slots f, fc_kind_at f, fc_ffi_size f) :: 'a gather_error + nat \<times> nat \<times> nat)"
    "sort (map fst rows) = sort (map basename (rp_glob rp ''tests/fixtures/dbus/*.bin''))" "fc_fixtures f = length rows"
    "fc_real f = length (filter (\<lambda>(n, k). k = ''REAL'') rows)"
    "mapE (\<lambda>r. bindE (run_suite (rp_run rp r) r) (\<lambda>n. Inr (r, n))) (sort (rp_glob rp ''tests/**/*.tcyr'')) =
       (Inr suites :: 'a gather_error + (string \<times> nat) list)"
    "fc_suites f = map (\<lambda>(r, n). (ascii r, n)) suites" "suites \<noteq> []" "fc_modules f = map ascii modules" "modules \<noteq> []"
    by (rule gather_parts)
  note p = p1 p3
  have each: "list_all2 (\<lambda>r x. fst x = r \<and> run_suite (rp_run rp r) r = (Inr (snd x) :: 'a gather_error + nat)) (sort (rp_glob rp ''tests/**/*.tcyr'')) suites"
    using p(11) unfolding mapE_Inr_iff by (rule list_all2_mono) (auto simp: bindE_Inr_iff)
  have names: "map fst suites = sort (rp_glob rp ''tests/**/*.tcyr'')"
    using each by (induction rule: list_all2_induct) simp_all
  have "\<forall>x \<in> set suites. run_suite (rp_run rp (fst x)) (fst x) = (Inr (snd x) :: 'a gather_error + nat)"
    using each by (induction rule: list_all2_induct) simp_all
  then have ran: "\<forall>(r, n) \<in> set suites. \<exists>out err. rp_run rp r = Finished out err 0 \<and> last (tallies (out @ err)) = (n, 0, n) \<and> 0 < n \<and>
       (\<forall>t \<in> set (tallies (out @ err)). fst (snd t) = 0)" using run_suite_Inr by fastforce
  from p(4) have "length decls = card {k. fn_at (strip dist Cyr False) k}" "length (filter is_public decls) = card {k. public_at (strip dist Cyr False) k}"
    using token_counts(1,3) [of "strip dist Cyr False"] by (auto simp: fn_decls_def bindE_Inr_iff Let_def split: if_splits)
  moreover have "length (filter is_public decls) \<le> length decls" by simp
  ultimately have counts: "fc_public f + fc_internal f = card {k. fn_at (strip dist Cyr False) k}" "fc_public f = card {k. public_at (strip dist Cyr False) k}"
    using p(5,6) by simp_all
  have "length rows = length (rp_glob rp ''tests/fixtures/dbus/*.bin'')" using arg_cong [OF p(8), of length] by simp
  moreover have "fc_real f \<le> length rows" using p(10) by simp
  ultimately show ?thesis using p(1-3) p(12-15) names ran counts parse_ffi_Inr [OF p(7)] p(9) by auto
qed

lemma gathered_facts_witness: "\<exists>f. gather SAMPLE_REPO = Inr f \<and> fc_slots f * 8 = fc_ffi_size f \<and> fc_real f \<le> fc_fixtures f"
proof -
  obtain f where f: "gather SAMPLE_REPO = Inr f" using sample_gather by blast
  from gathered_facts [OF f] f show ?thesis by blast
qed



end
