(* ===== verification/StateSyncSpec.thy ===== *)
theory StateSyncSpec
  imports "HOL-Library.Multiset" "HOL-Library.Sublist" "HOL-Library.Code_Target_Nat" StateSync
begin

text \<open>
  The document as a list of pieces: lines of prose and blocks between their markers. The tool's
  offsets and replacements are refined to pieces, and on pieces regeneration keeps the prose and
  is a fixed point.
\<close>


section \<open>Lines and pieces\<close>

definition nl :: "codepoints list \<Rightarrow> codepoints" where
  "nl ls = concat (map (\<lambda>l. l @ [10]) ls)"

lemma nl_simps [simp]: "nl [] = []" "nl (l # ls) = l @ 10 # nl ls" "nl (ls @ ms) = nl ls @ nl ms"
  by (simp_all add: nl_def)

lemma nl_split: "nl (split_on 10 s) = s @ [10]"
proof (induction s)
  case (Cons c s)
  then show ?case by (cases "split_on 10 s") auto
qed simp

lemma split_nl: "ls \<noteq> [] \<Longrightarrow> (\<forall>l \<in> set ls. 10 \<notin> set l) \<Longrightarrow> s @ [10] = nl ls \<Longrightarrow> split_on 10 s = ls"
proof (induction ls arbitrary: s)
  case (Cons l ls)
  show ?case
  proof (cases "ls = []")
    case True
    with Cons.prems show ?thesis by (simp add: split_on_no_sep)
  next
    case False
    with Cons.prems(3) obtain t where t: "s = l @ 10 # t" "t @ [10] = nl ls"
      by (cases "nl ls" rule: rev_cases) (auto simp: nl_def append_eq_append_conv2 Cons_eq_append_conv)
    from Cons.IH [OF False _ t(2)] Cons.prems(2) show ?thesis by (simp add: t(1) split_on_append)
  qed
qed simp

datatype piece = Prose codepoints | Block codepoints codepoints "codepoints list" codepoints

fun piece_lines :: "piece \<Rightarrow> codepoints list" where
  "piece_lines (Prose l) = [l]"
| "piece_lines (Block n b body e) = b # body @ [e]"

definition doc_lines :: "piece list \<Rightarrow> codepoints list" where
  "doc_lines ps = concat (map piece_lines ps)"

fun piece_names :: "piece \<Rightarrow> codepoints list" where
  "piece_names (Prose l) = []"
| "piece_names (Block n b body e) = [n]"

definition doc_names :: "piece list \<Rightarrow> codepoints list" where
  "doc_names ps = concat (map piece_names ps)"

fun piece_ok :: "piece \<Rightarrow> bool" where
  "piece_ok (Prose l) = (marker_line l = None)"
| "piece_ok (Block n b body e) =
     (n \<in> set BLOCKS \<and> marker_line b = Some (True, n) \<and> marker_line e = Some (False, n) \<and> (\<forall>l \<in> set body. marker_line l = None))"

fun doc_spans :: "nat \<Rightarrow> piece list \<Rightarrow> spans" where
  "doc_spans p [] = []"
| "doc_spans p (Prose l # ps) = doc_spans (p + length l + 1) ps"
| "doc_spans p (Block n b body e # ps) =
     (n, (p + length b + 1, p + length b + 1 + length (nl body))) # doc_spans (p + length (nl (b # body @ [e]))) ps"

lemma doc_simps [simp]: "doc_lines [] = []" "doc_lines (p # ps) = piece_lines p @ doc_lines ps"
  "doc_names [] = []" "doc_names (p # ps) = piece_names p @ doc_names ps"
  by (simp_all add: doc_lines_def doc_names_def)

lemma doc_spans_names [simp]: "map fst (doc_spans p ps) = doc_names ps"
  by (induction p ps rule: doc_spans.induct) simp_all

lemma map_of_doc_spans: "map_of (doc_spans p ps) n = None \<longleftrightarrow> n \<notin> set (doc_names ps)"
  by (metis doc_spans_names list.set_map map_of_eq_None_iff)

definition doc_of :: "piece list \<Rightarrow> codepoints \<Rightarrow> bool" where
  "doc_of ps s \<longleftrightarrow> split_on 10 s = doc_lines ps \<and> list_all piece_ok ps \<and> distinct (doc_names ps) \<and> set (doc_names ps) = set BLOCKS"


section \<open>Blocks are pieces\<close>

definition marks_of :: "nat \<Rightarrow> codepoints list \<Rightarrow> marker list" where
  "marks_of p ls = List.map_filter marker_at (line_starts p ls)"

lemma marks_of_simps [simp]:
  "marks_of p [] = []"
  "marks_of p (l # ls) = (case marker_line l of None \<Rightarrow> marks_of (p + length l + 1) ls
     | Some (b, n) \<Rightarrow> (b, n, p, p + length l) # marks_of (p + length l + 1) ls)"
  by (simp_all add: marks_of_def map_filter_simps marker_at_def split: option.split prod.split)

lemma markers_marks: "markers s = marks_of 0 (split_on 10 s)"
  by (simp add: markers_def marks_of_def)

lemma marks_of_body: "\<forall>l \<in> set body. marker_line l = None \<Longrightarrow> marks_of p (body @ ls) = marks_of (p + length (nl body)) ls"
  by (induction body arbitrary: p) (simp_all add: algebra_simps)

lemma no_pair: "(\<forall>a b. x \<noteq> Some (a, b)) \<longleftrightarrow> x = None"
  by (cases x) auto

lemma opened_block:
  "block_loop (marks_of p ls) sp (Some (n, a)) = Inr (sp', None) \<Longrightarrow>
     \<exists>body e rest. ls = body @ e # rest \<and> (\<forall>l \<in> set body. marker_line l = None) \<and> marker_line e = Some (False, n) \<and>
       block_loop (marks_of (p + length (nl (body @ [e]))) rest) (sp @ [(n, (a, p + length (nl body)))]) None = Inr (sp', None)"
proof (induction ls arbitrary: p)
  case (Cons l ls)
  show ?case
  proof (cases "marker_line l")
    case None
    with Cons.prems have "block_loop (marks_of (p + length l + 1) ls) sp (Some (n, a)) = Inr (sp', None)" by simp
    from Cons.IH [OF this] obtain body e rest where IH: "ls = body @ e # rest" "\<forall>l \<in> set body. marker_line l = None"
      "marker_line e = Some (False, n)"
      "block_loop (marks_of (p + length l + 1 + length (nl (body @ [e]))) rest) (sp @ [(n, (a, p + length l + 1 + length (nl body)))]) None = Inr (sp', None)"
      by blast
    from IH None show ?thesis by (intro exI [of _ "l # body"] exI [of _ e] exI [of _ rest]) (simp add: algebra_simps)
  next
    case (Some m)
    with Cons.prems obtain nm where m: "m = (False, nm)" by (cases m) (auto split: if_splits)
    with Some Cons.prems have "nm = n"
      "block_loop (marks_of (p + length l + 1) ls) (sp @ [(n, (a, p))]) None = Inr (sp', None)" by (auto split: if_splits)
    with Some m show ?thesis by (intro exI [of _ "[]"] exI [of _ l] exI [of _ ls]) simp
  qed
qed simp

lemma loop_pieces:
  "block_loop (marks_of p ls) sp None = Inr (sp', None) \<Longrightarrow>
     \<exists>ps. ls = doc_lines ps \<and> list_all piece_ok ps \<and> sp' = sp @ doc_spans p ps \<and>
       (distinct (map fst sp) \<longrightarrow> distinct (map fst sp @ doc_names ps))"
proof (induction ls arbitrary: p sp rule: length_induct)
  case (1 ls)
  show ?case
  proof (cases ls)
    case Nil
    with 1(2) show ?thesis by (intro exI [of _ "[]"]) simp
  next
    case (Cons l rest)
    show ?thesis
    proof (cases "marker_line l")
      case None
      with 1(2) Cons have "block_loop (marks_of (p + length l + 1) rest) sp None = Inr (sp', None)" by simp
      with 1(1) Cons obtain ps where "rest = doc_lines ps" "list_all piece_ok ps" "sp' = sp @ doc_spans (p + length l + 1) ps"
        "distinct (map fst sp) \<longrightarrow> distinct (map fst sp @ doc_names ps)" by (metis length_Cons lessI)
      with None Cons show ?thesis by (intro exI [of _ "Prose l # ps"]) simp
    next
      case (Some m)
      with 1(2) Cons obtain n where m: "m = (True, n)" and n: "n \<in> set BLOCKS" "map_of sp n = None"
        and loop: "block_loop (marks_of (p + length l + 1) rest) sp (Some (n, p + length l + 1)) = Inr (sp', None)"
        by (cases m) (auto simp: no_pair split: if_splits)
      from opened_block [OF loop] obtain body e rest' where b: "rest = body @ e # rest'" "\<forall>l \<in> set body. marker_line l = None"
        "marker_line e = Some (False, n)"
        "block_loop (marks_of (p + length l + 1 + length (nl (body @ [e]))) rest')
           (sp @ [(n, (p + length l + 1, p + length l + 1 + length (nl body)))]) None = Inr (sp', None)" by blast
      have "length rest' < length ls" by (simp add: Cons b(1))
      with 1(1) b(4) obtain ps where ps: "rest' = doc_lines ps" "list_all piece_ok ps"
        "sp' = (sp @ [(n, (p + length l + 1, p + length l + 1 + length (nl body)))]) @ doc_spans (p + length l + 1 + length (nl (body @ [e]))) ps"
        "distinct (map fst (sp @ [(n, (p + length l + 1, p + length l + 1 + length (nl body)))])) \<longrightarrow>
           distinct (map fst (sp @ [(n, (p + length l + 1, p + length l + 1 + length (nl body)))]) @ doc_names ps)" by blast
      from n(2) have "n \<notin> fst ` set sp" by (simp add: map_of_eq_None_iff)
      with ps n b(1-3) Some m Cons show ?thesis
        by (intro exI [of _ "Block n l body e # ps"]) (auto simp: algebra_simps)
    qed
  qed
qed

lemma pieces_loop:
  "list_all piece_ok ps \<Longrightarrow> distinct (map fst sp @ doc_names ps) \<Longrightarrow>
     block_loop (marks_of p (doc_lines ps)) sp None = Inr (sp @ doc_spans p ps, None)"
proof (induction p ps arbitrary: sp rule: doc_spans.induct)
  case (3 p n b body e ps)
  from 3(3) have fresh: "map_of sp n = None" by (auto simp: map_of_eq_None_iff)
  from 3 fresh show ?case by (simp add: marks_of_body algebra_simps)
qed simp_all

lemma blocks_pieces: "blocks s = Inr sp \<longleftrightarrow> (\<exists>ps. doc_of ps s \<and> sp = doc_spans 0 ps)"
proof
  assume bl: "blocks s = Inr sp"
  then obtain opened where loop: "block_loop (markers s) [] None = Inr (sp, opened)" "opened = None"
    and miss: "filter (\<lambda>b. map_of sp b = None) BLOCKS = []"
    by (auto simp: blocks_def bindE_Inr_iff Let_def no_pair split: option.splits if_splits)
  from loop obtain ps where ps: "split_on 10 s = doc_lines ps" "list_all piece_ok ps" "sp = doc_spans 0 ps" "distinct (doc_names ps)"
    using loop_pieces [of 0 "split_on 10 s" "[]" sp] by (auto simp: markers_marks)
  have "set (doc_names ps) \<subseteq> set BLOCKS"
  proof
    fix n assume "n \<in> set (doc_names ps)"
    then obtain q where "q \<in> set ps" "n \<in> set (piece_names q)" by (auto simp: doc_names_def)
    moreover from this ps(2) have "piece_ok q" by (simp add: list_all_iff)
    ultimately show "n \<in> set BLOCKS" by - (cases q; auto)
  qed
  moreover have "set BLOCKS \<subseteq> set (doc_names ps)"
    using miss unfolding ps(3) filter_empty_conv map_of_doc_spans by blast
  ultimately show "\<exists>ps. doc_of ps s \<and> sp = doc_spans 0 ps" using ps by (auto simp: doc_of_def)
next
  assume "\<exists>ps. doc_of ps s \<and> sp = doc_spans 0 ps"
  then obtain ps where ps: "doc_of ps s" "sp = doc_spans 0 ps" by blast
  then have "block_loop (markers s) [] None = Inr (sp, None)"
    using pieces_loop [of ps "[]" 0] by (simp add: doc_of_def markers_marks)
  moreover have "filter (\<lambda>b. map_of sp b = None) BLOCKS = []"
    using ps(1) unfolding ps(2) filter_empty_conv map_of_doc_spans doc_of_def by blast
  ultimately show "blocks s = Inr sp" by (simp add: blocks_def)
qed

section \<open>Replacing is regenerating the pieces\<close>

fun regen :: "facts \<Rightarrow> piece \<Rightarrow> piece \<Rightarrow> bool" where
  "regen f (Prose l) q = (q = Prose l)"
| "regen f (Block n b body e) q =
     (\<exists>body'. q = Block n b body' e \<and> render n f (nl body) = Inr (nl body') \<and> (\<forall>l \<in> set body'. 10 \<notin> set l))"

lemma ends_nl: "r \<noteq> [] \<Longrightarrow> last r = 10 \<Longrightarrow> \<exists>ls. r = nl ls \<and> (\<forall>l \<in> set ls. 10 \<notin> set l)"
  by (metis append_butlast_last_id nl_split split_on_clean)

lemma last_nl: "ls \<noteq> [] \<Longrightarrow> nl ls \<noteq> [] \<and> last (nl ls) = 10"
  by (induction ls) (auto simp: nl_def)

lemma nl_map: "nl (map g xs) = concat (map (\<lambda>x. g x @ [10]) xs)"
  by (simp add: nl_def comp_def)

text \<open>The lines of each rendering.\<close>

definition version_line :: "facts \<Rightarrow> codepoints" where
  "version_line f =
     ascii ''**'' @ fc_version f @ ascii ''**'' @ DASH @ ascii ''released '' @ fc_date f @ ascii '', on cyrius '' @
     ticked (fc_pin f) @ ascii ''.''"

definition glance_lines :: "facts \<Rightarrow> codepoints list" where
  "glance_lines f = [ascii ''| | |'', ascii ''|---|---|''] @
     map (\<lambda>(k, v). ascii ''| **'' @ k @ ascii ''** | '' @ v @ ascii '' |'') (glance_rows f)"

definition tests_lines :: "(codepoints \<times> codepoints) list \<Rightarrow> facts \<Rightarrow> codepoints list" where
  "tests_lines covers f =
     [ascii ''**'' @ num (sum_list (map snd (counts_of (fc_suites f)))) @ ascii '' asserts**, in '' @
        num (length (suite_files covers (fc_suites f))) @ ascii '' suites, none failing.'', [],
      ascii ''| File | Asserts | Covers |'', ascii ''|---|---|---|''] @
     map (\<lambda>r. suite_line r (the (map_of (counts_of (fc_suites f)) r)) (covers_cell covers r)) (suite_files covers (fc_suites f))"

lemma render_lines:
  "render_version f = nl [version_line f]" "render_glance f = nl (glance_lines f)"
  "render_tests f old = bindE (covers_loop (cp_splitlines old) []) (\<lambda>covers. Inr (nl (tests_lines covers f)))"
  by (simp_all only: render_version_def version_line_def render_glance_def glance_lines_def render_tests_def tests_lines_def
      nl_simps nl_map Let_def case_prod_unfold append.assoc append_Cons append_Nil append_Nil2)

lemma render_nl:
  assumes "render n f old = Inr r"
  obtains ls where "r = nl ls" "\<forall>l \<in> set ls. 10 \<notin> set l"
proof -
  have "glance_lines f \<noteq> []" "\<And>covers. tests_lines covers f \<noteq> []" by (simp_all add: glance_lines_def tests_lines_def)
  with assms obtain ls where "r = nl ls" "ls \<noteq> []"
    by (auto simp only: render_def render_lines bindE_Inr_iff sum.inject sum.distinct not_Cons_self2 split: if_splits)
  then show ?thesis using ends_nl [of r] last_nl [of ls] that by blast
qed

lemma replace_append: "replace_blocks f s (xs @ ys) new = bindE (replace_blocks f s xs new) (replace_blocks f s ys)"
proof (induction xs arbitrary: new)
  case (Cons x xs)
  then show ?case by (cases x; cases "render (fst x) f (slice s (fst (snd x)) (snd (snd x)))") simp_all
qed simp

lemma take_drop_LF: "new @ [10] = p @ x @ e @ 10 # rest \<Longrightarrow>
    (take (length p) new @ r @ drop (length p + length x) new) @ [10] = p @ r @ e @ 10 # rest"
proof -
  assume h: "new @ [10] = p @ x @ e @ 10 # rest"
  from arg_cong [OF h, of length] have "length new + 1 = length p + length x + length e + 1 + length rest" by simp
  then have le: "length p \<le> length new" "length p + length x \<le> length new" by simp_all
  from le have "take (length p) new = take (length p) (new @ [10])" "drop (length p + length x) new @ [10] = drop (length p + length x) (new @ [10])"
    by simp_all
  then show ?thesis by (simp add: h)
qed

lemma slice_block: "s @ [10] = p @ x @ e @ 10 # rest \<Longrightarrow> slice s (length p) (length p + length x) = x"
proof -
  assume h: "s @ [10] = p @ x @ e @ 10 # rest"
  from arg_cong [OF h, of length] have "length p + length x \<le> length s" by simp
  then have "slice s (length p) (length p + length x) = slice (s @ [10]) (length p) (length p + length x)" by (simp add: slice_def)
  then show ?thesis unfolding h by (simp add: slice_def)
qed

lemma replace_regen:
  "s @ [10] = pre @ nl (doc_lines ps) \<Longrightarrow> replace_blocks f s (rev (doc_spans (length pre) ps)) s = Inr new \<Longrightarrow>
     \<exists>qs. list_all2 (regen f) ps qs \<and> new @ [10] = pre @ nl (doc_lines qs)"
proof (induction ps arbitrary: pre new)
  case (Cons q ps)
  show ?case
  proof (cases q)
    case (Prose l)
    with Cons.prems Cons.IH [of "pre @ l @ [10]" new] obtain qs where "list_all2 (regen f) ps qs"
      "new @ [10] = (pre @ l @ [10]) @ nl (doc_lines qs)" by (auto simp: algebra_simps)
    with Prose show ?thesis by (intro exI [of _ "Prose l # qs"]) simp
  next
    case (Block n b body e)
    let ?pre = "pre @ nl (b # body @ [e])" and ?a = "length (pre @ b @ [10])"
    from Cons.prems(2) Block obtain n1 where n1: "replace_blocks f s (rev (doc_spans (length ?pre) ps)) s = Inr n1"
      "replace_blocks f s [(n, (?a, ?a + length (nl body)))] n1 = Inr new"
      by (auto simp: replace_append bindE_Inr_iff algebra_simps)
    from Cons.prems(1) Block have s: "s @ [10] = ?pre @ nl (doc_lines ps)" by simp
    from Cons.IH [OF this n1(1)] obtain qs where qs: "list_all2 (regen f) ps qs" "n1 @ [10] = ?pre @ nl (doc_lines qs)" by blast
    from slice_block [of s "pre @ b @ [10]" "nl body" e] s have "slice s ?a (?a + length (nl body)) = nl body" by simp
    with n1(2) obtain r where r: "render n f (nl body) = Inr r" "new = take ?a n1 @ r @ drop (?a + length (nl body)) n1"
      by (auto simp: bindE_Inr_iff)
    from render_nl [OF r(1)] obtain body' where body': "r = nl body'" "\<forall>l \<in> set body'. 10 \<notin> set l" .
    have "n1 @ [10] = (pre @ b @ [10]) @ nl body @ e @ 10 # nl (doc_lines qs)" using qs(2) by simp
    from take_drop_LF [OF this, of r] have "new @ [10] = (pre @ b @ [10]) @ r @ e @ 10 # nl (doc_lines qs)" by (simp add: r(2))
    with qs(1) r(1) body' Block show ?thesis by (intro exI [of _ "Block n b body' e # qs"]) simp
  qed
qed simp

lemma doc_spans_starts: "x \<in> set (doc_spans p ps) \<Longrightarrow> p < fst (snd x)"
  by (induction p ps rule: doc_spans.induct) (auto intro: less_trans less_imp_le le_less_trans)

lemma doc_spans_sorted: "sorted_wrt (\<lambda>x y. fst (snd x) < fst (snd y)) (doc_spans p ps)"
proof (induction p ps rule: doc_spans.induct)
  case (3 p n b body e ps)
  then show ?case by (auto dest!: doc_spans_starts)
qed simp_all

lemma sort_spans: "sort_key (\<lambda>kv. - int (fst (snd kv))) (doc_spans p ps) = rev (doc_spans p ps)"
proof (rule sort_key_inj_key_eq)
  show "sorted (map (\<lambda>kv. - int (fst (snd kv))) (rev (doc_spans p ps)))"
    using doc_spans_sorted [of p ps]
    by (simp add: sorted_map sorted_wrt_rev) (erule sorted_wrt_mono_rel [rotated], simp)
  show "inj_on (\<lambda>kv. - int (fst (snd kv))) (set (doc_spans p ps))"
  proof (rule inj_onI)
    fix x y assume "x \<in> set (doc_spans p ps)" "y \<in> set (doc_spans p ps)" and eq: "- int (fst (snd x)) = - int (fst (snd y))"
    then obtain i j where ij: "i < length (doc_spans p ps)" "j < length (doc_spans p ps)" "x = doc_spans p ps ! i" "y = doc_spans p ps ! j"
      by (metis in_set_conv_nth)
    with doc_spans_sorted [of p ps] eq have "\<not> i < j" "\<not> j < i" unfolding sorted_wrt_iff_nth_less by (metis less_irrefl of_nat_eq_iff minus_equation_iff)+
    with ij show "x = y" by simp
  qed
qed simp

text \<open>Pieces that have been regenerated.\<close>

lemma regen_lines:
  assumes "list_all2 (regen f) ps qs" "\<forall>l \<in> set (doc_lines ps). 10 \<notin> set l" "doc_lines ps \<noteq> []" "new @ [10] = nl (doc_lines qs)"
  shows "split_on 10 new = doc_lines qs"
proof (rule split_nl)
  have line: "((\<forall>l \<in> set (piece_lines p). 10 \<notin> set l) \<longrightarrow> (\<forall>l \<in> set (piece_lines q). 10 \<notin> set l)) \<and> piece_lines q \<noteq> []" if "regen f p q" for p q
    using that by (cases p) auto
  have lines: "((\<forall>l \<in> set (doc_lines ps). 10 \<notin> set l) \<longrightarrow> (\<forall>l \<in> set (doc_lines qs). 10 \<notin> set l)) \<and> (doc_lines ps \<noteq> [] \<longrightarrow> doc_lines qs \<noteq> [])"
    if "list_all2 (regen f) ps qs" for ps qs
    using that
  proof (induction rule: list_all2_induct)
    case (Cons p ps q qs)
    from line [OF Cons(1)] Cons(3) show ?case unfolding doc_simps set_append append_is_Nil_conv by blast
  qed simp
  show "\<forall>l \<in> set (doc_lines qs). 10 \<notin> set l" "doc_lines qs \<noteq> []"
    using lines [OF assms(1)] assms(2,3) by blast+
qed (rule assms(4))

lemma replaced_doc:
  assumes "doc_of ps s" "replace_blocks f s (sort_key (\<lambda>kv. - int (fst (snd kv))) (doc_spans 0 ps)) s = Inr new"
  shows "\<exists>qs. list_all2 (regen f) ps qs \<and> split_on 10 new = doc_lines qs"
proof -
  from assms(1) have sp: "split_on 10 s = doc_lines ps" by (simp add: doc_of_def)
  then have "s @ [10] = [] @ nl (doc_lines ps)" using nl_split [of s] by simp
  from replace_regen [OF this] assms(2) obtain qs where qs: "list_all2 (regen f) ps qs" "new @ [10] = nl (doc_lines qs)"
    by (auto simp: sort_spans)
  have "\<forall>l \<in> set (doc_lines ps). 10 \<notin> set l" "doc_lines ps \<noteq> []" using split_on_clean [of _ 10 s] split_on_not_Nil [of 10 s] by (auto simp: sp)
  from regen_lines [OF qs(1) this qs(2)] qs(1) show ?thesis by blast
qed



section \<open>Facts that fit on a line\<close>

definition plain :: "codepoints \<Rightarrow> bool" where
  "plain s \<longleftrightarrow> list_all (\<lambda>c. \<not> cp_break c) s"

lemma plain_simps [simp]: "plain []" "plain (c # s) \<longleftrightarrow> \<not> cp_break c \<and> plain s" "plain (s @ t) \<longleftrightarrow> plain s \<and> plain t"
  by (simp_all add: plain_def)

lemma plain_no_LF: "plain s \<Longrightarrow> 10 \<notin> set s"
  by (auto simp: plain_def list_all_iff cp_break_def)

lemma plain_ascii: "list_all (\<lambda>c. 32 \<le> (of_char c :: nat) \<and> (of_char c :: nat) < 127) s \<Longrightarrow> plain (ascii s)"
  by (auto simp: plain_def ascii_def list_all_iff cp_break_def)

lemma plain_num [simp]: "plain (num n)"
proof -
  have "32 \<le> (of_char c :: nat) \<and> (of_char c :: nat) < 127" if "c \<in> set DIGITS" for c using that by auto
  with dec_nat_digits [of n] show ?thesis unfolding num_def by (intro plain_ascii) (simp add: list_all_iff is_digit09_def)
qed

lemma plain_join: "plain sep \<Longrightarrow> list_all plain ws \<Longrightarrow> plain (cp_join sep ws)"
  by (induction sep ws rule: cp_join.induct) simp_all

lemma plain_ticked [simp]: "plain (ticked s) \<longleftrightarrow> plain s"
  by (simp add: ticked_def cp_break_def)

text \<open>What the gathered facts satisfy when their sources hold one value a line: no string has a
  line end, and every suite has a name of its own without backticks.\<close>

definition suites_plain :: "(codepoints \<times> nat) list \<Rightarrow> bool" where
  "suites_plain suites \<longleftrightarrow> distinct (map fst suites) \<and>
     list_all (\<lambda>(r, n). plain r \<and> r \<noteq> [] \<and> 96 \<notin> set r \<and> r \<noteq> ascii ''File'') suites"

definition facts_plain :: "facts \<Rightarrow> bool" where
  "facts_plain f \<longleftrightarrow> plain (fc_version f) \<and> plain (fc_date f) \<and> plain (fc_pin f) \<and> fc_modules f \<noteq> [] \<and>
     list_all plain (fc_modules f) \<and> list_all plain (fc_stdlib f) \<and> list_all plain (fc_runners f) \<and>
     list_all (\<lambda>(a, vs). plain a \<and> list_all plain vs) (fc_actions f) \<and> list_all plain (fc_workflows f) \<and>
     list_all plain (fc_leaves f) \<and> suites_plain (fc_suites f)"

lemma cp_splitlines_line: "plain l \<Longrightarrow> cp_splitlines (l @ 10 # s) = l # cp_splitlines s"
  by (induction l) (auto simp: cp_break_def)

lemma cp_splitlines_nl: "list_all plain ls \<Longrightarrow> cp_splitlines (nl ls) = ls"
  by (induction ls) (simp_all add: cp_splitlines_line)

lemma cp_splitlines_plain: "list_all plain (cp_splitlines s)"
proof (induction s rule: cp_splitlines.induct)
  case (2 c cs)
  show ?case
  proof (cases "c = 13")
    case True
    with 2(1,2) show ?thesis by (cases cs) (auto simp del: cp_splitlines.simps(2) simp: cp_splitlines.simps(2) [of 13])
  next
    case False
    with 2(3,4) show ?thesis by (cases "cp_splitlines cs") auto
  qed
qed simp


section \<open>The rows of the tests table\<close>

lemma cp_strip_cases:
  obtains "cp_strip s = []" "\<forall>c \<in> set s. cp_space c" | pre post where "s = pre @ cp_strip s @ post" "cp_strip s \<noteq> []"
    "\<not> cp_space (hd (cp_strip s))" "\<not> cp_space (last (cp_strip s))" "\<forall>c \<in> set pre \<union> set post. cp_space c"
proof (cases "\<forall>c \<in> set s. cp_space c")
  case True
  then have "dropWhile cp_space s = []" by (simp add: dropWhile_eq_Nil_conv)
  with True that(1) show ?thesis by (simp add: cp_strip_def)
next
  case False
  define t where "t = dropWhile cp_space s"
  then have t: "t \<noteq> []" "\<not> cp_space (hd t)" "s = takeWhile cp_space s @ t" using False by (auto simp: hd_dropWhile dropWhile_eq_Nil_conv)
  define u where "u = dropWhile cp_space (rev t)"
  have "\<not> (\<forall>c \<in> set (rev t). cp_space c)" using t(1,2) by auto
  then have u: "u \<noteq> []" "\<not> cp_space (hd u)" by (auto simp: u_def hd_dropWhile dropWhile_eq_Nil_conv)
  have "rev t = takeWhile cp_space (rev t) @ u" by (simp add: u_def)
  then have t_split: "t = rev u @ rev (takeWhile cp_space (rev t))" by (metis rev_append rev_rev_ident)
  have strip: "cp_strip s = rev u" by (simp add: cp_strip_def t_def u_def)
  have "hd (rev u) = hd t" using t_split u(1) by (metis hd_append2 rev_is_Nil_conv)
  with t u strip t_split show ?thesis
    by (intro that(2) [of "takeWhile cp_space s" "rev (takeWhile cp_space (rev t))"]) (auto simp: last_rev dest: set_takeWhileD)
qed

lemma cp_strip_between:
  assumes "t = [] \<or> \<not> cp_space (hd t) \<and> \<not> cp_space (last t)" "\<forall>c \<in> set pre \<union> set post. cp_space c"
  shows "cp_strip (pre @ t @ post) = t"
proof (cases "t = []")
  case True
  with assms(2) have "\<forall>c \<in> set (pre @ t @ post). cp_space c" by simp
  then have "dropWhile cp_space (pre @ t @ post) = []" by (rule iffD2 [OF dropWhile_eq_Nil_conv])
  then have "cp_strip (pre @ t @ post) = []" unfolding cp_strip_def by (simp only: rev.simps dropWhile.simps)
  with True show ?thesis by (simp only:)
next
  case False
  with assms have "dropWhile cp_space (pre @ t @ post) = t @ post" by (cases t) (auto simp: dropWhile_append3 dropWhile_append2)
  moreover have "dropWhile cp_space (rev post @ rev t) = dropWhile cp_space (rev t)" by (rule dropWhile_append2) (use assms(2) in auto)
  moreover have "dropWhile cp_space (rev t) = rev t" using False assms(1) by (cases t rule: rev_cases) auto
  ultimately show ?thesis by (simp add: cp_strip_def)
qed

lemma cp_strip_padded: "cp_strip (32 # cp_strip s @ [32]) = cp_strip s"
proof -
  have "cp_strip s = [] \<or> \<not> cp_space (hd (cp_strip s)) \<and> \<not> cp_space (last (cp_strip s))" by (cases s rule: cp_strip_cases) simp_all
  from cp_strip_between [OF this, of "[32]" "[32]"] show ?thesis by (simp add: cp_space_def)
qed

lemma cp_strip_subset: "set (cp_strip s) \<subseteq> set s"
proof (cases s rule: cp_strip_cases)
  case (2 pre post)
  then show ?thesis by (metis Un_upper1 Un_upper2 order_trans set_append)
qed simp

lemma num_chars: "c \<in> set (num n) \<Longrightarrow> 48 \<le> c \<and> c \<le> 57"
proof -
  have "48 \<le> (of_char d :: nat) \<and> (of_char d :: nat) \<le> 57" if "d \<in> set DIGITS" for d using that by auto
  then show "c \<in> set (num n) \<Longrightarrow> 48 \<le> c \<and> c \<le> 57" using dec_nat_digits [of n] by (auto simp: num_def ascii_def is_digit09_def)
qed

lemma suite_row_line:
  assumes "r \<noteq> []" "96 \<notin> set r" "cp_strip cell = cell"
  shows "suite_row (suite_line r n cell) = Some (r, cell)"
proof -
  have line: "suite_line r n cell = 124 # 32 # 96 # r @ 96 # 32 # 124 # 32 # num n @ 32 # 124 # 32 # cell @ [32, 124]"
    by (simp add: suite_line_def ticked_def ascii_def)
  have ticks: "takeWhile (\<lambda>c. c \<noteq> 96) (r @ 96 # s) = r" for s using assms(2) by (subst takeWhile_append2) auto
  have "\<forall>c \<in> set (num n). c \<noteq> 124" using num_chars [of _ n] by fastforce
  then have bar: "dropWhile (\<lambda>c. c \<noteq> 124) (num n @ 32 # 124 # s) = 124 # s" for s by (simp add: dropWhile_append2)
  have "last_cell (32 # cell @ [32, 124]) = Some (cp_strip (32 # cell @ [32]))" by (simp add: last_cell_def expect_def cp_blank_def)
  then have last: "last_cell (32 # cell @ [32, 124]) = Some cell" using cp_strip_padded [of cell] assms(3) by simp
  show ?thesis unfolding line suite_row_def
    by (simp add: expect_def cp_space_def ticks bar assms(1) Let_def last)
qed

lemma expect_Some [simp]: "expect c s = Some t \<longleftrightarrow> s = c # t"
  by (auto simp: expect_def split: list.splits)

lemma cp_strip_idem: "cp_strip (cp_strip s) = cp_strip s"
proof -
  have "cp_strip s = [] \<or> \<not> cp_space (hd (cp_strip s)) \<and> \<not> cp_space (last (cp_strip s))" by (cases s rule: cp_strip_cases) simp_all
  from cp_strip_between [OF this, of "[]" "[]"] show ?thesis by simp
qed

lemma last_cell_parts: "last_cell s = Some cell \<Longrightarrow> cp_strip cell = cell \<and> set cell \<subseteq> set s"
proof -
  assume "last_cell s = Some cell"
  then obtain w where w: "dropWhile cp_blank (rev s) = 124 # w" "cell = cp_strip (rev w)" by (auto simp: last_cell_def)
  have "set w \<subseteq> set s" using w(1) set_dropWhileD [of _ cp_blank "rev s"] by auto
  with w(2) cp_strip_subset [of "rev w"] show ?thesis by (auto simp: cp_strip_idem)
qed

lemma suite_row_parts:
  assumes "suite_row l = Some (r, cell)"
  shows "r \<noteq> []" "96 \<notin> set r" "cp_strip cell = cell" "set r \<subseteq> set l" "set cell \<subseteq> set l"
proof -
  from assms obtain s1 s2 s3 s4 s5 where s: "l = 124 # s1" "dropWhile cp_space s1 = 96 # s2" "r = takeWhile (\<lambda>c. c \<noteq> 96) s2" "r \<noteq> []"
    "drop (length r) s2 = 96 # s3" "dropWhile cp_space s3 = 124 # s4" "dropWhile (\<lambda>c. c \<noteq> 124) s4 = 124 # s5" "last_cell s5 = Some cell"
    by (auto simp: suite_row_def bind_eq_Some_conv Let_def split: if_splits)
  have "set s2 \<subseteq> set l" using s(1,2) set_dropWhileD [of _ cp_space s1] by auto
  moreover have "set s3 \<subseteq> set s2" using s(5) by (metis list.set_intros(2) set_drop_subset subset_iff)
  moreover have "set s4 \<subseteq> set s3" using s(6) set_dropWhileD [of _ cp_space s3] by auto
  moreover have "set s5 \<subseteq> set s4" using s(7) set_dropWhileD [of _ "\<lambda>c. c \<noteq> 124" s4] by auto
  moreover note last_cell_parts [OF s(8)]
  ultimately show "set cell \<subseteq> set l" "cp_strip cell = cell" by blast+
  show "r \<noteq> []" by (rule s(4))
  show "96 \<notin> set r" "set r \<subseteq> set l" using s(3) \<open>set s2 \<subseteq> set l\<close> by (auto dest: set_takeWhileD)
qed

lemma covers_rows:
  "distinct (map fst cov @ rs) \<Longrightarrow> ascii ''File'' \<notin> set rs \<Longrightarrow>
     (\<forall>r \<in> set rs. r \<noteq> [] \<and> 96 \<notin> set r \<and> cp_strip (cell r) = cell r) \<Longrightarrow>
     covers_loop (map (\<lambda>r. suite_line r (n r) (cell r)) rs) cov = Inr (cov @ map (\<lambda>r. (r, cell r)) rs)"
proof (induction rs arbitrary: cov)
  case (Cons r rs)
  then have "map_of cov r = None" by (auto simp: map_of_eq_None_iff)
  with Cons show ?case by (auto simp: suite_row_line)
qed simp

definition cover_ok :: "codepoints \<times> codepoints \<Rightarrow> bool" where
  "cover_ok rc \<longleftrightarrow> cp_strip (snd rc) = snd rc \<and> plain (snd rc)"

lemma covers_loop_ok:
  "covers_loop ls cov = Inr cov' \<Longrightarrow> list_all plain ls \<Longrightarrow> distinct (map fst cov) \<Longrightarrow> list_all cover_ok cov \<Longrightarrow>
     distinct (map fst cov') \<and> list_all cover_ok cov'"
proof (induction ls arbitrary: cov)
  case (Cons l ls)
  show ?case
  proof (cases "suite_row l")
    case None
    with Cons show ?thesis by simp
  next
    case (Some x)
    then obtain r cell where row: "suite_row l = Some (r, cell)" by (cases x) auto
    from suite_row_parts [OF row] Cons.prems(2) have ok: "cover_ok (r, cell)" by (auto simp: cover_ok_def plain_def list_all_iff)
    show ?thesis
    proof (cases "r = ascii ''File''")
      case True
      with Cons row show ?thesis by simp
    next
      case False
      with Cons.prems row have "r \<notin> set (map fst cov)" "covers_loop ls (cov @ [(r, cell)]) = Inr cov'"
        by (auto simp: map_of_eq_None_iff no_pair split: if_splits)
      with Cons.IH [of "cov @ [(r, cell)]"] Cons.prems ok show ?thesis by auto
    qed
  qed
qed simp



section \<open>Regenerated tables\<close>

lemma dom_counts: "map_of (counts_of suites) r = None \<longleftrightarrow> r \<notin> set (map fst suites)"
proof -
  have "dom (map_of (fold (\<lambda>(r, n). AList.update r n) suites acc)) = dom (map_of acc) \<union> set (map fst suites)" for acc
    by (induction suites arbitrary: acc) (auto simp: update_conv')
  from this [of "[]"] have "dom (map_of (counts_of suites)) = set (map fst suites)" by (simp add: counts_of_def)
  then show ?thesis by (metis domIff)
qed

lemma suite_files_distinct: "distinct (map fst covers) \<Longrightarrow> distinct (map fst suites) \<Longrightarrow> distinct (suite_files covers suites)"
  by (auto simp: suite_files_def)

lemma set_suite_files: "set (suite_files covers suites) = set (map fst suites)"
  by (auto simp: suite_files_def dom_counts)

lemma covers_cell_ok:
  assumes "list_all cover_ok covers"
  shows "cp_strip (covers_cell covers r) = covers_cell covers r" "plain (covers_cell covers r)" "covers_cell covers r \<noteq> []"
proof -
  have u: "cp_strip UNDESCRIBED = UNDESCRIBED" "plain UNDESCRIBED" "UNDESCRIBED \<noteq> []" by code_simp+
  have c: "cover_ok (r, cell)" if "map_of covers r = Some cell" for cell using assms map_of_SomeD [OF that] by (auto simp: list_all_iff)
  have "\<exists>cell. covers_cell covers r = cell \<and> cp_strip cell = cell \<and> plain cell \<and> cell \<noteq> []"
  proof (cases "map_of covers r")
    case None
    with u show ?thesis by (simp add: covers_cell_def)
  next
    case (Some cell)
    with c have "cp_strip cell = cell" "plain cell" by (simp_all add: cover_ok_def)
    with Some u show ?thesis by (cases "cell = []") (simp_all add: covers_cell_def)
  qed
  then show "cp_strip (covers_cell covers r) = covers_cell covers r" "plain (covers_cell covers r)" "covers_cell covers r \<noteq> []" by blast+
qed

text \<open>A line that is rendered: without line ends, and not the start of a comment.\<close>

definition fresh_line :: "codepoints \<Rightarrow> bool" where
  "fresh_line l \<longleftrightarrow> plain l \<and> (l = [] \<or> hd l \<noteq> 60)"

lemma fresh_line_no_marker: "fresh_line l \<Longrightarrow> marker_line l = None" "fresh_line l \<Longrightarrow> narrative_line l = None"
  by (cases l; simp add: fresh_line_def marker_line_def narrative_line_def strip_prefix_def ascii_def)+

lemma fresh_lines:
  assumes "facts_plain f"
  shows "list_all fresh_line [version_line f]" "list_all fresh_line (glance_lines f)"
    "list_all cover_ok covers \<Longrightarrow> list_all fresh_line (tests_lines covers f)"
proof -
  note parts = assms [unfolded facts_plain_def suites_plain_def]
  have comma: "plain COMMA" "plain DASH" "plain [32, 183, 32]" by code_simp+
  have sub: "list_all plain xs \<Longrightarrow> list_all plain (sort (remdups xs))" for xs by (simp add: list_all_iff)
  have ticks: "list_all plain (map ticked xs) = list_all plain xs" for xs by (induction xs) simp_all
  have runners: "plain (runners_cell f)" unfolding runners_cell_def
    using parts by (simp add: comma sub ticks plain_join plain_ascii)
  have "list_all plain (map (\<lambda>(a, vs). ticked a @ [32] @ cp_join COMMA (sort (remdups vs))) (sort_key fst (fc_actions f)))"
  proof -
    have "plain (ticked a @ [32] @ cp_join COMMA (sort (remdups vs)))" if "(a, vs) \<in> set (fc_actions f)" for a vs
    proof -
      from parts that have "plain a" "list_all plain vs" by (auto simp: list_all_iff)
      then show ?thesis by (simp add: comma sub plain_join cp_break_def)
    qed
    then show ?thesis by (auto simp: list_all_iff)
  qed
  from plain_join [OF comma(3) this] have actions: "plain (actions_cell f)" unfolding actions_cell_def Let_def
    by (simp add: plain_ascii)
  have first: "plain (hd (fc_modules f))" using parts by (cases "fc_modules f") simp_all
  have lists: "plain (cp_join COMMA (fc_stdlib f))" "plain (cp_join COMMA (fc_leaves f))" using parts comma by (simp_all add: plain_join)
  have vals: "plain (fc_version f)" "plain (fc_date f)" "plain (fc_pin f)" using parts by simp_all
  have rows: "list_all (\<lambda>(k, v). plain k \<and> plain v) (glance_rows f)" unfolding glance_rows_def
    by (simp add: vals runners actions first lists comma plain_ascii cp_break_def)
  show "list_all fresh_line [version_line f]" unfolding version_line_def
    by (simp add: fresh_line_def vals comma plain_ascii) (simp add: ascii_def)
  have bar: "fresh_line (ascii ''| '' @ l) \<longleftrightarrow> plain l" "fresh_line (ascii ''| **'' @ l) \<longleftrightarrow> plain l" "fresh_line (ascii ''**'' @ l) \<longleftrightarrow> plain l" for l
    by (simp_all add: fresh_line_def plain_ascii ascii_def cp_break_def)
  have const: "fresh_line (ascii ''| | |'')" "fresh_line (ascii ''|---|---|'')" "fresh_line []" "fresh_line (ascii ''| File | Asserts | Covers |'')"
    "fresh_line (ascii ''|---|---|---|'')" by code_simp+
  show "list_all fresh_line (glance_lines f)"
    using rows const unfolding glance_lines_def list_all_iff by (auto simp: bar plain_ascii)
  show "list_all fresh_line (tests_lines covers f)" if "list_all cover_ok covers"
  proof -
    have "fresh_line (suite_line r n (covers_cell covers r))" if "r \<in> set (suite_files covers (fc_suites f))" for r n
    proof -
      from that have "r \<in> fst ` set (fc_suites f)" by (simp add: set_suite_files)
      then obtain k where "(r, k) \<in> set (fc_suites f)" by fastforce
      with parts have "plain r" unfolding list_all_iff by blast
      with covers_cell_ok(2) [OF \<open>list_all cover_ok covers\<close>, of r] show ?thesis unfolding suite_line_def bar by (simp add: plain_ascii)
    qed
    then have "list_all fresh_line (map (\<lambda>r. suite_line r (the (map_of (counts_of (fc_suites f)) r)) (covers_cell covers r)) (suite_files covers (fc_suites f)))"
      by (auto simp: list_all_iff)
    then show ?thesis unfolding tests_lines_def append_Cons append_Nil list.pred_inject bar using const by (simp add: plain_ascii)
  qed
qed

text \<open>The rows of a rendered table read back, and the table rendered over itself is itself.\<close>

lemma tests_lines_covers:
  assumes "suites_plain (fc_suites f)" "list_all cover_ok covers" "distinct (map fst covers)"
  shows "covers_loop (tests_lines covers f) [] = Inr (map (\<lambda>r. (r, covers_cell covers r)) (suite_files covers (fc_suites f)))"
proof -
  let ?files = "suite_files covers (fc_suites f)"
  have "r \<noteq> [] \<and> 96 \<notin> set r \<and> r \<noteq> ascii ''File''" if "r \<in> set ?files" for r
  proof -
    from that have "r \<in> fst ` set (fc_suites f)" by (simp add: set_suite_files)
    then obtain n where "(r, n) \<in> set (fc_suites f)" by fastforce
    with assms(1) show ?thesis unfolding suites_plain_def list_all_iff by blast
  qed
  moreover have "distinct ?files" using assms(1,3) by (simp add: suite_files_distinct suites_plain_def)
  ultimately have rows: "covers_loop (map (\<lambda>r. suite_line r (the (map_of (counts_of (fc_suites f)) r)) (covers_cell covers r)) ?files) [] =
      Inr ([] @ map (\<lambda>r. (r, covers_cell covers r)) ?files)"
    using covers_cell_ok(1) [OF assms(2)] by (intro covers_rows) auto
  have "suite_row (ascii ''| File | Asserts | Covers |'') = None" "suite_row (ascii ''|---|---|---|'') = None" "suite_row [] = None" by code_simp+
  moreover have "suite_row (ascii ''**'' @ l) = None" for l by (simp add: suite_row_def ascii_def expect_def)
  ultimately show ?thesis unfolding tests_lines_def append_Cons append_Nil covers_loop.simps rows by simp
qed

lemma tests_lines_fix:
  assumes "suites_plain (fc_suites f)" "list_all cover_ok covers" "distinct (map fst covers)"
  shows "tests_lines (map (\<lambda>r. (r, covers_cell covers r)) (suite_files covers (fc_suites f))) f = tests_lines covers f"
proof -
  define files where "files = suite_files covers (fc_suites f)"
  let ?again = "map (\<lambda>r. (r, covers_cell covers r)) files"
  have files: "set files = set (map fst (fc_suites f))" by (simp add: files_def set_suite_files)
  have names: "map fst ?again = files" by (simp add: comp_def)
  have "filter (\<lambda>r. map_of (counts_of (fc_suites f)) r \<noteq> None) files = files"
    using files by (auto simp: filter_id_conv dom_counts)
  moreover have "filter (\<lambda>r. r \<notin> set files) (map fst (fc_suites f)) = []" by (simp add: filter_empty_conv files)
  ultimately have again: "suite_files ?again (fc_suites f) = files" unfolding suite_files_def names by simp
  have cell: "covers_cell ?again r = covers_cell covers r" if "r \<in> set files" for r
  proof -
    have "map_of ?again r = Some (covers_cell covers r)" using that by (simp add: map_of_map_restrict)
    with covers_cell_ok(3) [OF assms(2)] show ?thesis by (simp add: covers_cell_def [of ?again])
  qed
  show ?thesis unfolding tests_lines_def files_def [symmetric] again using cell by simp
qed



section \<open>Regeneration is a fixed point\<close>

lemma nl_inject: "nl ls = nl ms \<Longrightarrow> (\<forall>l \<in> set ls. 10 \<notin> set l) \<Longrightarrow> (\<forall>l \<in> set ms. 10 \<notin> set l) \<Longrightarrow> ls = ms"
proof (induction ls arbitrary: ms)
  case Nil
  then show ?case by (cases ms) simp_all
next
  case (Cons l ls)
  then obtain m ms' where ms: "ms = m # ms'" by (cases ms) simp_all
  with Cons.prems have eq: "l @ 10 # nl ls = m @ 10 # nl ms'" "10 \<notin> set l" "10 \<notin> set m" by simp_all
  from arg_cong [OF eq(1), of "split_on 10"] have "l = m" by (simp add: split_on_append eq(2,3))
  with eq(1) have "l = m \<and> nl ls = nl ms'" by simp
  with Cons ms show ?case by auto
qed

text \<open>The tests table is rendered from a table of the same text again.\<close>

lemma render_again:
  assumes "facts_plain f" "render n f old = Inr r"
  shows "\<exists>ls. r = nl ls \<and> list_all fresh_line ls \<and> render n f (nl ls) = Inr (nl ls)"
proof -
  have "n = ascii ''version'' \<or> n = ascii ''glance'' \<or> n = ascii ''tests'' \<and> n \<noteq> ascii ''version'' \<and> n \<noteq> ascii ''glance''"
    using assms(2) unfolding render_def by (simp split: if_splits)
  moreover have "render n f = render_tests f" if "n = ascii ''tests''" "n \<noteq> ascii ''version''" "n \<noteq> ascii ''glance''"
    unfolding render_def fun_eq_iff if_not_P [OF that(2)] if_not_P [OF that(3)] if_P [OF that(1)] by simp
  ultimately consider (version) "n = ascii ''version''" | (glance) "n = ascii ''glance''"
    | (tests) "render n f = render_tests f" "render_tests f old = Inr r" using assms(2) by metis
  then show ?thesis
  proof cases
    case version
    with assms(2) have "r = nl [version_line f]" "render n f (nl [version_line f]) = Inr (nl [version_line f])"
      unfolding render_def render_lines by simp_all
    with fresh_lines(1) [OF assms(1)] show ?thesis by blast
  next
    case glance
    then have "n \<noteq> ascii ''version''" by (simp add: ascii_def)
    with glance assms(2) have "r = nl (glance_lines f)" "render n f (nl (glance_lines f)) = Inr (nl (glance_lines f))"
      unfolding render_def render_lines by simp_all
    with fresh_lines(2) [OF assms(1)] show ?thesis by blast
  next
    case tests
    then obtain covers where c: "covers_loop (cp_splitlines old) [] = Inr covers" "r = nl (tests_lines covers f)"
      by (auto simp: render_lines bindE_Inr_iff)
    from covers_loop_ok [OF c(1) cp_splitlines_plain] have ok: "distinct (map fst covers)" "list_all cover_ok covers" by simp_all
    note fresh = fresh_lines(3) [OF assms(1) ok(2)]
    then have "cp_splitlines r = tests_lines covers f" unfolding c(2)
      by (intro cp_splitlines_nl) (auto simp: list_all_iff fresh_line_def)
    moreover have "suites_plain (fc_suites f)" using assms(1) by (simp add: facts_plain_def)
    ultimately have "render_tests f r = Inr r"
      using tests_lines_covers [OF _ ok(2,1)] tests_lines_fix [OF _ ok(2,1)] by (simp add: render_lines c(2))
    with fresh tests c(2) show ?thesis by metis
  qed
qed

lemma regen_fresh:
  assumes "facts_plain f" "regen f (Block n b body e) q"
  obtains body' where "q = Block n b body' e" "list_all fresh_line body'" "render n f (nl body') = Inr (nl body')"
proof -
  from assms(2) obtain body' where q: "q = Block n b body' e" "render n f (nl body) = Inr (nl body')" "\<forall>l \<in> set body'. 10 \<notin> set l" by auto
  from render_again [OF assms(1) q(2)] obtain ls where ls: "nl body' = nl ls" "list_all fresh_line ls" "render n f (nl ls) = Inr (nl ls)" by blast
  from ls(2) have "\<forall>l \<in> set ls. 10 \<notin> set l" by (auto simp: list_all_iff fresh_line_def plain_no_LF)
  with nl_inject [OF ls(1) q(3)] ls(2,3) q(1) that show ?thesis by blast
qed

text \<open>What regenerating keeps of every piece: its names, that it parses, its own regeneration, and no
  narrative marker but those of the old piece.\<close>

definition narrative_lines :: "codepoints list \<Rightarrow> codepoints list" where
  "narrative_lines ls = List.map_filter narrative_line ls"

lemma narrative_lines_append: "narrative_lines (ls @ ms) = narrative_lines ls @ narrative_lines ms"
  by (simp add: narrative_lines_def map_filter_def)

lemma narrative_lines_fresh: "list_all fresh_line ls \<Longrightarrow> narrative_lines ls = []"
  by (induction ls) (simp_all add: narrative_lines_def map_filter_simps fresh_line_no_marker)

definition kept :: "facts \<Rightarrow> piece \<Rightarrow> piece \<Rightarrow> bool" where
  "kept f p q \<longleftrightarrow> piece_names q = piece_names p \<and> (piece_ok p \<longrightarrow> piece_ok q) \<and> regen f q q \<and>
     subseq (narrative_lines (piece_lines q)) (narrative_lines (piece_lines p)) \<and>
     (13 \<notin> \<Union> (set ` set (piece_lines p)) \<longrightarrow> 13 \<notin> \<Union> (set ` set (piece_lines q)))"

lemma regen_kept: "facts_plain f \<Longrightarrow> regen f p q \<Longrightarrow> kept f p q"
proof (cases p)
  case (Block n b body e)
  assume "facts_plain f" "regen f p q"
  with Block obtain body' where q: "q = Block n b body' e" "list_all fresh_line body'" "render n f (nl body') = Inr (nl body')"
    by (metis regen_fresh)
  have lf: "\<forall>l \<in> set body'. 10 \<notin> set l" "\<forall>l \<in> set body'. marker_line l = None" "\<forall>l \<in> set body'. 13 \<notin> set l"
    using q(2) by (auto simp: list_all_iff fresh_line_no_marker fresh_line_def plain_no_LF) (auto simp: plain_def list_all_iff cp_break_def)
  have "narrative_lines ([b] @ body' @ [e]) = narrative_lines [b] @ narrative_lines [e]"
    by (simp only: narrative_lines_append narrative_lines_fresh [OF q(2)] append_Nil)
  moreover have "narrative_lines ([b] @ body @ [e]) = narrative_lines [b] @ narrative_lines body @ narrative_lines [e]"
    by (simp only: narrative_lines_append)
  ultimately have "subseq (narrative_lines ([b] @ body' @ [e])) (narrative_lines ([b] @ body @ [e]))"
    by (simp only: subseq_append' list_emb_append2 subseq_order.order_refl)
  then have sub: "subseq (narrative_lines (piece_lines q)) (narrative_lines (piece_lines p))" by (simp only: q(1) Block piece_lines.simps append_Cons append_Nil)
  have "regen f q q" unfolding q(1) regen.simps using q(3) lf(1) by blast
  moreover have "piece_ok p \<longrightarrow> piece_ok q" unfolding q(1) Block piece_ok.simps using lf(2) by blast
  moreover have "piece_names q = piece_names p" unfolding q(1) Block piece_names.simps ..
  moreover have "13 \<notin> \<Union> (set ` set (piece_lines p)) \<longrightarrow> 13 \<notin> \<Union> (set ` set (piece_lines q))"
    unfolding q(1) Block piece_lines.simps using lf(3) by auto
  ultimately show ?thesis using sub unfolding kept_def by blast
qed (simp add: kept_def)

lemma kept_doc:
  "list_all2 (kept f) ps qs \<Longrightarrow> doc_names qs = doc_names ps \<and> (list_all piece_ok ps \<longrightarrow> list_all piece_ok qs) \<and> list_all2 (regen f) qs qs \<and>
     subseq (narrative_lines (doc_lines qs)) (narrative_lines (doc_lines ps)) \<and>
     (13 \<notin> \<Union> (set ` set (doc_lines ps)) \<longrightarrow> 13 \<notin> \<Union> (set ` set (doc_lines qs)))"
proof (induction rule: list_all2_induct)
  case (Cons p ps q qs)
  note here = Cons(1) [unfolded kept_def] and IH = Cons(3)
  have "subseq (narrative_lines (doc_lines (q # qs))) (narrative_lines (doc_lines (p # ps)))"
    unfolding doc_simps narrative_lines_append by (rule list_emb_append_mono) (use here IH in blast)+
  moreover have "doc_names (q # qs) = doc_names (p # ps)" using here IH unfolding doc_simps by metis
  moreover have "list_all piece_ok (p # ps) \<longrightarrow> list_all piece_ok (q # qs)" using here IH unfolding list.pred_inject by blast
  moreover have "list_all2 (regen f) (q # qs) (q # qs)" using here IH unfolding list_all2_Cons by blast
  moreover have "13 \<notin> \<Union> (set ` set (doc_lines (p # ps))) \<longrightarrow> 13 \<notin> \<Union> (set ` set (doc_lines (q # qs)))"
    using here IH unfolding doc_simps set_append image_Un Union_Un_distrib by blast
  ultimately show ?case by blast
qed simp

text \<open>The converse of \<open>replace_regen\<close>: what regenerates can be replaced.\<close>

lemma regen_replace:
  "s @ [10] = pre @ nl (doc_lines ps) \<Longrightarrow> list_all2 (regen f) ps qs \<Longrightarrow>
     \<exists>new. replace_blocks f s (rev (doc_spans (length pre) ps)) s = Inr new \<and> new @ [10] = pre @ nl (doc_lines qs)"
proof (induction ps arbitrary: pre qs)
  case (Cons q ps)
  from Cons.prems(2) obtain r rs where qs: "qs = r # rs" "regen f q r" "list_all2 (regen f) ps rs" by (auto simp: list_all2_Cons1)
  show ?case
  proof (cases q)
    case (Prose l)
    with Cons.prems(1) Cons.IH [of "pre @ l @ [10]" rs] qs show ?thesis by (auto simp: algebra_simps)
  next
    case (Block n b body e)
    let ?pre = "pre @ nl (b # body @ [e])" and ?a = "length (pre @ b @ [10])"
    from Cons.prems(1) Block have s: "s @ [10] = ?pre @ nl (doc_lines ps)" by simp
    from Cons.IH [OF this qs(3)] obtain n1 where n1: "replace_blocks f s (rev (doc_spans (length ?pre) ps)) s = Inr n1"
      "n1 @ [10] = ?pre @ nl (doc_lines rs)" by blast
    from Block qs(2) obtain body' where body': "r = Block n b body' e" "render n f (nl body) = Inr (nl body')" by auto
    have n1': "n1 @ [10] = (pre @ b @ [10]) @ nl body @ e @ 10 # nl (doc_lines rs)" using n1(2) by simp
    from slice_block [of s "pre @ b @ [10]" "nl body" e] s have "slice s ?a (?a + length (nl body)) = nl body" by simp
    with n1(1) body'(2) Block take_drop_LF [OF n1', of "nl body'"] qs(1) body'(1) show ?thesis
      by (simp add: replace_append algebra_simps)
  qed
qed simp

lemma sync_again:
  assumes "facts_plain f" "doc_of ps s" "list_all2 (regen f) ps qs" "split_on 10 new = doc_lines qs"
  shows "doc_of qs new" "subseq (narratives new) (narratives s)" "13 \<notin> set s \<Longrightarrow> 13 \<notin> set new"
    "replace_blocks f new (sort_key (\<lambda>kv. - int (fst (snd kv))) (doc_spans 0 qs)) new = Inr new"
proof -
  from assms(3) have "list_all2 (kept f) ps qs" using regen_kept [OF assms(1)] by (rule list_all2_mono)
  note kept = kept_doc [OF this]
  have sp: "split_on 10 s = doc_lines ps" using assms(2) by (simp add: doc_of_def)
  show "doc_of qs new" using kept assms(2,4) by (simp add: doc_of_def)
  show "subseq (narratives new) (narratives s)" using kept by (simp add: narratives_def assms(4) sp narrative_lines_def)
  have chars: "set t \<subseteq> insert 10 (\<Union> (set ` set (split_on 10 t)))" "\<Union> (set ` set (split_on 10 t)) \<subseteq> set t" for t :: codepoints
  proof -
    have sub: "set (nl ls) \<subseteq> insert 10 (\<Union> (set ` set ls))" "\<Union> (set ` set ls) \<subseteq> set (nl ls)" for ls by (auto simp: nl_def)
    from sub(1) [of "split_on 10 t"] show "set t \<subseteq> insert 10 (\<Union> (set ` set (split_on 10 t)))" by (auto simp: nl_split)
    from sub(2) [of "split_on 10 t"] show "\<Union> (set ` set (split_on 10 t)) \<subseteq> set t" using split_on_clean by (fastforce simp: nl_split)
  qed
  show "13 \<notin> set new" if "13 \<notin> set s" using that chars(2) [of s] chars(1) [of new] kept by (auto simp: sp assms(4))
  have "new @ [10] = [] @ nl (doc_lines qs)" using nl_split [of new] assms(4) by simp
  from regen_replace [OF this, of f qs] kept obtain t where "replace_blocks f new (rev (doc_spans 0 qs)) new = Inr t" "t @ [10] = nl (doc_lines qs)" by auto
  then show "replace_blocks f new (sort_key (\<lambda>kv. - int (fst (snd kv))) (doc_spans 0 qs)) new = Inr new"
    using nl_split [of new] assms(4) by (simp add: sort_spans)
qed



section \<open>Runs\<close>

lemma sync_parts:
  assumes "sync s f = Inr (new, problems)"
  obtains ps qs v a b where "13 \<notin> set s" "narratives s = [v]" "doc_of ps s" "list_all2 (regen f) ps qs" "split_on 10 new = doc_lines qs"
    "\<exists>sp. blocks new = Inr sp \<and> map_of sp (ascii ''tests'') = Some (a, b)"
    "problems = (if v \<noteq> fc_version f then [NarrativeFor v (fc_version f)] else []) @ undescribed (slice new a b)"
proof -
  from assms have cr: "13 \<notin> set s" and "length (narratives s) = 1" by (auto simp: sync_def Let_def split: if_splits)
  then obtain v where v: "narratives s = [v]" by (cases "narratives s") auto
  from assms cr v obtain sp sp' where sp: "blocks s = Inr sp" "replace_blocks f s (sort_key (\<lambda>kv. - int (fst (snd kv))) sp) s = Inr new"
    "blocks new = Inr sp'" "problems = (let (a, b) = the (map_of sp' (ascii ''tests''))
       in (if v \<noteq> fc_version f then [NarrativeFor v (fc_version f)] else []) @ undescribed (slice new a b))"
    by (auto simp: sync_def bindE_Inr_iff case_prod_unfold Let_def)
  from sp(1) obtain ps where ps: "doc_of ps s" "sp = doc_spans 0 ps" by (auto simp: blocks_pieces)
  from replaced_doc [OF ps(1)] sp(2) ps(2) obtain qs where qs: "list_all2 (regen f) ps qs" "split_on 10 new = doc_lines qs" by blast
  from sp(3) obtain qs' where "doc_of qs' new" "sp' = doc_spans 0 qs'" by (auto simp: blocks_pieces)
  moreover have "ascii ''tests'' \<in> set BLOCKS" by (simp add: BLOCKS_def)
  ultimately have "map_of sp' (ascii ''tests'') \<noteq> None" by (simp add: map_of_doc_spans doc_of_def del: not_None_eq)
  then obtain a b where "map_of sp' (ascii ''tests'') = Some (a, b)" by (metis option.exhaust prod.exhaust)
  with that [OF cr v ps(1) qs] sp(3,4) show ?thesis by simp
qed

lemma subseq_single: "subseq xs [v] \<Longrightarrow> xs = [] \<or> xs = [v]"
  by (cases xs) (auto simp: subseq_Cons' split: if_splits)

lemma sync_twice:
  assumes "facts_plain f" "sync s f = Inr (new, problems)"
  shows "13 \<notin> set new \<and> sync new f = (if narratives new = [] then Inl (NarrativeCount 0) else Inr (new, problems))"
proof -
  from assms(2) obtain ps qs v a b where p: "13 \<notin> set s" "narratives s = [v]" "doc_of ps s" "list_all2 (regen f) ps qs" "split_on 10 new = doc_lines qs"
    "\<exists>sp. blocks new = Inr sp \<and> map_of sp (ascii ''tests'') = Some (a, b)"
    "problems = (if v \<noteq> fc_version f then [NarrativeFor v (fc_version f)] else []) @ undescribed (slice new a b)"
    by (rule sync_parts)
  note again = sync_again [OF assms(1) p(3-5)]
  from again(3) p(1) have cr: "13 \<notin> set new" by blast
  from subseq_single [of "narratives new" v] again(2) p(2) have nar: "narratives new = [] \<or> narratives new = [v]" by simp
  from again(1) have "blocks new = Inr (doc_spans 0 qs)" by (auto simp: blocks_pieces)
  with p(6) have sp: "blocks new = Inr (doc_spans 0 qs)" "map_of (doc_spans 0 qs) (ascii ''tests'') = Some (a, b)" by simp_all
  show ?thesis
  proof (cases "narratives new = []")
    case True
    with cr show ?thesis by (simp add: sync_def)
  next
    case False
    with nar have "narratives new = [v]" by simp
    with cr sp again(4) show ?thesis by (simp add: sync_def p(7))
  qed
qed

lemma universal_no_CR: "13 \<notin> set (universal s)"
  by (induction s rule: universal.induct) (auto split: list.splits)

lemma universal_id: "13 \<notin> set s \<Longrightarrow> universal s = s"
  by (induction s) auto


text \<open>When the run can regenerate: the tests table does not list a suite twice.\<close>

definition table_ok :: "piece \<Rightarrow> bool" where
  "table_ok p \<longleftrightarrow> (case p of Prose l \<Rightarrow> True
     | Block n b body e \<Rightarrow> n = ascii ''tests'' \<longrightarrow> (\<exists>covers. covers_loop (cp_splitlines (nl body)) [] = Inr covers))"

lemma regen_exists: "piece_ok p \<Longrightarrow> table_ok p \<longleftrightarrow> (\<exists>q. regen f p q)"
proof (cases p)
  case (Block n b body e)
  assume ok: "piece_ok p"
  have "(\<exists>q. regen f p q) \<longleftrightarrow> (\<exists>r. render n f (nl body) = Inr r)"
    unfolding Block regen.simps using render_nl [of n f "nl body"] by metis
  also have "\<dots> \<longleftrightarrow> (n = ascii ''tests'' \<longrightarrow> (\<exists>covers. covers_loop (cp_splitlines (nl body)) [] = Inr covers))"
  proof -
    have names: "ascii ''tests'' \<noteq> ascii ''version''" "ascii ''tests'' \<noteq> ascii ''glance''" by code_simp+
    from ok Block have "n = ascii ''version'' \<or> n = ascii ''glance'' \<or> n = ascii ''tests''" by (simp add: BLOCKS_def)
    then show ?thesis unfolding render_def render_lines using names by (auto simp: bindE_Inr_iff)
  qed
  finally show ?thesis by (simp add: table_ok_def Block)
qed (simp add: table_ok_def)

lemma regen_all: "list_all piece_ok ps \<Longrightarrow> list_all table_ok ps \<longleftrightarrow> (\<exists>qs. list_all2 (regen f) ps qs)"
  by (induction ps) (auto simp: regen_exists [of _ f] list_all2_Cons1)

lemma sync_total:
  assumes "facts_plain f" "13 \<notin> set s" "narratives s = [v]" "doc_of ps s" "list_all2 (regen f) ps qs"
  shows "\<exists>new problems. sync s f = Inr (new, problems) \<and> split_on 10 new = doc_lines qs"
proof -
  have "s @ [10] = [] @ nl (doc_lines ps)" using nl_split [of s] assms(4) by (simp add: doc_of_def)
  from regen_replace [OF this assms(5)] obtain new where new: "replace_blocks f s (rev (doc_spans 0 ps)) s = Inr new" "new @ [10] = nl (doc_lines qs)" by auto
  have lines: "\<forall>l \<in> set (doc_lines ps). 10 \<notin> set l" "doc_lines ps \<noteq> []"
    using assms(4) split_on_clean [of _ 10 s] split_on_not_Nil [of 10 s] by (auto simp: doc_of_def simp del: split_on_not_Nil)
  note split = regen_lines [OF assms(5) lines new(2)]
  have "blocks s = Inr (doc_spans 0 ps)" "blocks new = Inr (doc_spans 0 qs)"
    using sync_again(1) [OF assms(1,4,5) split] assms(4) by (auto simp: blocks_pieces)
  with assms(2,3) new(1) split show ?thesis by (auto simp: sync_def sort_spans case_prod_unfold Let_def)
qed

lemma sync_result:
  assumes "facts_plain f"
  shows "(\<exists>r. sync s f = Inr r) \<longleftrightarrow> 13 \<notin> set s \<and> length (narratives s) = 1 \<and> (\<exists>ps. doc_of ps s \<and> list_all table_ok ps)"
proof
  assume "\<exists>r. sync s f = Inr r"
  then obtain new problems where "sync s f = Inr (new, problems)" by auto
  then obtain ps qs v where p: "13 \<notin> set s" "narratives s = [v]" "doc_of ps s" "list_all2 (regen f) ps qs" by (rule sync_parts)
  then have "list_all table_ok ps" using regen_all [of ps f] by (auto simp: doc_of_def)
  with p show "13 \<notin> set s \<and> length (narratives s) = 1 \<and> (\<exists>ps. doc_of ps s \<and> list_all table_ok ps)" by auto
next
  assume h: "13 \<notin> set s \<and> length (narratives s) = 1 \<and> (\<exists>ps. doc_of ps s \<and> list_all table_ok ps)"
  then obtain v where v: "narratives s = [v]" by (cases "narratives s") auto
  from h obtain ps where ps: "doc_of ps s" "list_all table_ok ps" by blast
  with regen_all [of ps f] obtain qs where "list_all2 (regen f) ps qs" by (auto simp: doc_of_def)
  with sync_total [OF assms _ v ps(1)] h show "\<exists>r. sync s f = Inr r" by blast
qed


text \<open>Nothing but the first test of \<open>sync\<close> raises because of a carriage return.\<close>

lemma no_cr_error:
  shows "block_loop ms sp opened \<noteq> Inl CrLines" "covers_loop ls covers \<noteq> Inl CrLines" "replace_blocks f s spans new \<noteq> Inl CrLines"
proof -
  show "block_loop ms sp opened \<noteq> Inl CrLines"
    by (induction ms sp opened rule: block_loop.induct) (auto split: option.splits)
  have covers: "covers_loop ls covers \<noteq> Inl CrLines" for ls covers
    by (induction ls covers rule: covers_loop.induct) (auto split: option.splits)
  then show "covers_loop ls covers \<noteq> Inl CrLines" .
  have "render n f old \<noteq> Inl CrLines" for n old
    using covers by (auto simp: render_def render_tests_def bindE_Inl_iff Let_def)
  then show "replace_blocks f s spans new \<noteq> Inl CrLines"
    by (induction f s spans new rule: replace_blocks.induct) (auto simp: bindE_Inl_iff)
qed

lemma blocks_no_cr: "blocks s \<noteq> Inl CrLines"
  using no_cr_error(1) by (auto simp: blocks_def bindE_Inl_iff Let_def split: option.splits if_splits)

lemma sync_cr: "13 \<notin> set s \<Longrightarrow> sync s f \<noteq> Inl CrLines"
  using no_cr_error(3) blocks_no_cr by (auto simp: sync_def bindE_Inl_iff Let_def split: if_splits prod.splits)


section \<open>Properties\<close>

definition SAMPLE_FACTS :: facts where
  "SAMPLE_FACTS = \<lparr>fc_version = ascii ''1.2.0'', fc_date = ascii ''2025-01-31'', fc_pin = ascii ''6.7.18'', fc_modules = [ascii ''src/a.cyr''],
     fc_stdlib = [ascii ''fmt''], fc_runners = [ascii ''ubuntu''], fc_actions = [], fc_workflows = [ascii ''ci.yml''], fc_public = 3,
     fc_internal = 2, fc_slots = 2, fc_kind_at = 8, fc_ffi_size = 16, fc_leaves = [], fc_errno_rows = 1, fc_fixtures = 2, fc_real = 1,
     fc_benches = 1, fc_suites = [(ascii ''tests/a.tcyr'', 3), (ascii ''tests/b.tcyr'', 4)]\<rparr>"

definition SAMPLE_ROWS :: "codepoints list" where
  "SAMPLE_ROWS = map ascii [''| `tests/b.tcyr` | 1 | bee things |'', ''| `tests/gone.tcyr` | 9 | removed |'']"

definition SAMPLE_PIECES :: "piece list" where
  "SAMPLE_PIECES = [Prose (ascii ''<!-- state-sync:narrative 1.2.0 -->''), Prose (ascii ''prose''),
     Block (ascii ''version'') (ascii ''<!-- state-sync:begin version -->'') [ascii ''old''] (ascii ''<!-- state-sync:end version -->''),
     Block (ascii ''glance'') (ascii ''<!-- state-sync:begin glance -->'') [] (ascii ''<!-- state-sync:end glance -->''),
     Block (ascii ''tests'') (ascii ''<!-- state-sync:begin tests -->'') SAMPLE_ROWS (ascii ''<!-- state-sync:end tests -->''),
     Prose (ascii ''tail'')]"

definition SAMPLE_DOC :: codepoints where
  "SAMPLE_DOC = join_on 10 (doc_lines SAMPLE_PIECES)"

lemma sample_doc: "facts_plain SAMPLE_FACTS" "13 \<notin> set SAMPLE_DOC" "narratives SAMPLE_DOC = [ascii ''1.2.0'']"
  "doc_of SAMPLE_PIECES SAMPLE_DOC" "narrative_line (ascii ''<!-- state-sync:narrative 1.2.0 -->'') = Some (ascii ''1.2.0'')"
  "covers_loop (cp_splitlines (nl SAMPLE_ROWS)) [] =
     Inr [(ascii ''tests/b.tcyr'', ascii ''bee things''), (ascii ''tests/gone.tcyr'', ascii ''removed'')]"
  by code_simp+

lemma sample_sync_any:
  assumes "facts_plain f"
  shows "\<exists>new problems. sync SAMPLE_DOC f = Inr (new, problems) \<and> narratives new \<noteq> [] \<and> new \<noteq> SAMPLE_DOC"
proof -
  have "list_all table_ok SAMPLE_PIECES" unfolding SAMPLE_PIECES_def list.pred_inject table_ok_def piece.case using sample_doc(6)
    by (simp add: ascii_def)
  moreover have "list_all piece_ok SAMPLE_PIECES" using sample_doc(4) by (simp add: doc_of_def)
  ultimately obtain qs where qs: "list_all2 (regen f) SAMPLE_PIECES qs" using regen_all by blast
  then obtain rest body where first: "qs = Prose (ascii ''<!-- state-sync:narrative 1.2.0 -->'') # Prose (ascii ''prose'') #
      Block (ascii ''version'') (ascii ''<!-- state-sync:begin version -->'') body (ascii ''<!-- state-sync:end version -->'') # rest"
    and r: "render (ascii ''version'') f (nl [ascii ''old'']) = Inr (nl body)"
    by (auto simp: SAMPLE_PIECES_def list_all2_Cons1)
  from r have "nl body = nl [version_line f]" by (simp add: render_def render_lines)
  then have body: "nl body \<noteq> []" "hd (nl body) = 42" by (simp_all add: version_line_def ascii_def)
  from sync_total [OF assms sample_doc(2-4) qs] obtain new problems where new: "sync SAMPLE_DOC f = Inr (new, problems)" "split_on 10 new = doc_lines qs"
    by blast
  have "narratives new \<noteq> []" unfolding narratives_def new(2) first doc_simps piece_lines.simps append_Cons append_Nil map_filter_simps
    by (simp add: sample_doc(5))
  moreover have "new \<noteq> SAMPLE_DOC"
  proof
    assume "new = SAMPLE_DOC"
    with new(2) sample_doc(4) have "doc_lines qs ! 3 = doc_lines SAMPLE_PIECES ! 3" by (simp add: doc_of_def)
    then have "(body @ [ascii ''<!-- state-sync:end version -->'']) ! 0 = ascii ''old''" unfolding first by (cases body) (simp_all add: SAMPLE_PIECES_def)
    with body show False by (cases body) (auto simp: ascii_def)
  qed
  ultimately show ?thesis using new(1) by blast
qed

lemmas sample_sync = sample_sync_any [OF sample_doc(1)]

text \<open>C26: a second run changes nothing. Whatever \<open>sync\<close> returns for a document, running it on that
  result with the same facts returns the same text and the same problems; the one exception is a
  document whose only narrative marker stood inside a block, where regenerating erases it.\<close>

theorem sync_fixpoint:
  assumes "facts_plain f" "sync s f = Inr (new, problems)"
  shows "sync new f = (if narratives new = [] then Inl (NarrativeCount 0) else Inr (new, problems))"
  using sync_twice [OF assms] by blast

lemma sync_fixpoint_witness:
  "\<exists>new problems. sync SAMPLE_DOC SAMPLE_FACTS = Inr (new, problems) \<and> sync new SAMPLE_FACTS = Inr (new, problems)"
proof -
  obtain new problems where new: "sync SAMPLE_DOC SAMPLE_FACTS = Inr (new, problems)" "narratives new \<noteq> []" using sample_sync by blast
  from sync_fixpoint [OF sample_doc(1) new(1)] new show ?thesis by auto
qed

text \<open>C27: the hand-written text is untouched. The document is lines of prose and one block of each
  name between its markers; \<open>sync\<close> returns the same pieces in the same order, every line of
  prose and every marker as it was, and between the markers exactly what the block's renderer
  makes of its old text.\<close>

theorem sync_keeps_prose:
  assumes "sync s f = Inr (new, problems)"
  shows "\<exists>ps qs. doc_of ps s \<and> split_on 10 new = doc_lines qs \<and> list_all2 (regen f) ps qs"
  using sync_parts [OF assms] by metis

lemma sync_keeps_prose_witness:
  "\<exists>ps qs new problems. sync SAMPLE_DOC SAMPLE_FACTS = Inr (new, problems) \<and> doc_of ps SAMPLE_DOC \<and> split_on 10 new = doc_lines qs \<and>
     list_all2 (regen SAMPLE_FACTS) ps qs"
proof -
  obtain new problems where "sync SAMPLE_DOC SAMPLE_FACTS = Inr (new, problems)" using sample_sync by blast
  with sync_keeps_prose [OF this] show ?thesis by blast
qed

text \<open>C28: which documents are refused. For facts that fit on lines \<open>sync\<close> succeeds exactly on
  documents without carriage returns, with one narrative marker, that are prose and one closed
  block of each of the three names, neither nested nor repeated, whose tests table lists no suite
  twice; on every other it raises.\<close>

theorem sync_succeeds:
  assumes "facts_plain f"
  shows "(\<exists>r. sync s f = Inr r) \<longleftrightarrow> 13 \<notin> set s \<and> length (narratives s) = 1 \<and> (\<exists>ps. doc_of ps s \<and> list_all table_ok ps)"
  by (rule sync_result [OF assms])

lemma sync_succeeds_witness: "\<exists>ps. doc_of ps SAMPLE_DOC \<and> list_all table_ok ps"
  using sync_succeeds [OF sample_doc(1), of SAMPLE_DOC] sample_sync by blast

text \<open>C29: the tests table reads back. A rendered table has one row for every suite that was run and
  no other; the rows parse to the suites with their Covers cells, where a suite the old table
  described keeps its description and any other is marked undescribed.\<close>

theorem tests_table_reads_back:
  assumes "facts_plain f" "render_tests f old = Inr r"
  shows "\<exists>covers files. covers_loop (cp_splitlines old) [] = Inr covers \<and>
    covers_loop (cp_splitlines r) [] = Inr (map (\<lambda>file. (file, covers_cell covers file)) files) \<and>
    distinct files \<and> set files = set (map fst (fc_suites f))"
proof -
  from assms(2) obtain covers where c: "covers_loop (cp_splitlines old) [] = Inr covers" "r = nl (tests_lines covers f)"
    by (auto simp: render_lines bindE_Inr_iff)
  from covers_loop_ok [OF c(1) cp_splitlines_plain] have ok: "distinct (map fst covers)" "list_all cover_ok covers" by simp_all
  from assms(1) have s: "suites_plain (fc_suites f)" by (simp add: facts_plain_def)
  have "cp_splitlines r = tests_lines covers f" unfolding c(2) using fresh_lines(3) [OF assms(1) ok(2)]
    by (intro cp_splitlines_nl) (auto simp: list_all_iff fresh_line_def)
  with tests_lines_covers [OF s ok(2,1)]
  have "covers_loop (cp_splitlines r) [] = Inr (map (\<lambda>file. (file, covers_cell covers file)) (suite_files covers (fc_suites f)))" by simp
  moreover have "distinct (suite_files covers (fc_suites f))" using s ok(1) by (simp add: suite_files_distinct suites_plain_def)
  ultimately show ?thesis using c(1) set_suite_files by blast
qed

lemma tests_table_reads_back_witness:
  "\<exists>r covers files. render_tests SAMPLE_FACTS (nl SAMPLE_ROWS) = Inr r \<and>
     covers_loop (cp_splitlines r) [] = Inr (map (\<lambda>file. (file, covers_cell covers file)) files) \<and>
     set files = {ascii ''tests/a.tcyr'', ascii ''tests/b.tcyr''}"
proof -
  obtain r where r: "render_tests SAMPLE_FACTS (nl SAMPLE_ROWS) = Inr r" by (simp add: render_lines sample_doc(6))
  have "set (map fst (fc_suites SAMPLE_FACTS)) = {ascii ''tests/a.tcyr'', ascii ''tests/b.tcyr''}" by (simp add: SAMPLE_FACTS_def)
  with tests_table_reads_back [OF sample_doc(1) r] r show ?thesis by metis
qed

text \<open>A rewrite makes the snapshot current. When a run without \<^verbatim>\<open>--check\<close> writes the document
  and its narrative marker is outside the blocks, then \<^verbatim>\<open>--check\<close> on what was written, with the same
  facts, finds no difference: it ends with the same status, 0 unless a suite is undescribed or
  the narrative is for another version, and prints just those problems.\<close>

theorem rewrite_then_check:
  assumes "facts_plain f" "oc_written (state_run [] (Inr raw) (Inr f) save) = Some new" "narratives new \<noteq> []"
  shows "\<exists>problems. oc_status (state_run [] (Inr raw) (Inr f) save) = (if problems = [] then 0 else 1) \<and>
    state_run [''--check''] (Inr new) (Inr f) save' =
      \<lparr>oc_status = (if problems = [] then 0 else 1), oc_written = None,
       oc_lines = (if problems = [] then [Current] else map Stale problems)\<rparr>"
proof -
  from assms(2) obtain s new' problems where a: "attempt False (Inr raw) (Inr f) save = Inr (s, new', problems)"
    by (cases "attempt False (Inr raw) (Inr f) save") (auto simp: state_run_def)
  with assms(2) have "new' = new" by (auto simp: state_run_def split: if_splits)
  with a have sync: "sync (universal raw) f = Inr (new, problems)"
    by (cases "sync (universal raw) f") (auto simp: attempt_def raise_failure_def sync_failure_def bindE_Inr_iff Let_def split: sum.splits)
  note twice = sync_twice [OF assms(1) sync]
  with assms(3) have "attempt True (Inr new) (Inr f) save' = Inr (new, new, problems)"
    by (simp add: attempt_def raise_failure_def sync_failure_def universal_id)
  then have "state_run [''--check''] (Inr new) (Inr f) save' =
      \<lparr>oc_status = (if problems = [] then 0 else 1), oc_written = None, oc_lines = (if problems = [] then [Current] else map Stale problems)\<rparr>"
    by (simp add: state_run_def)
  moreover have "oc_status (state_run [] (Inr raw) (Inr f) save) = (if problems = [] then 0 else 1)"
    using a by (simp add: state_run_def)
  ultimately show ?thesis by blast
qed

lemma rewrite_then_check_witness:
  "\<exists>new problems save'. state_run [''--check''] (Inr new :: unit + codepoints) (Inr SAMPLE_FACTS) save' =
     \<lparr>oc_status = (if problems = [] then 0 else 1), oc_written = None, oc_lines = (if problems = [] then [Current] else map Stale problems)\<rparr>"
proof -
  obtain new problems where new: "sync SAMPLE_DOC SAMPLE_FACTS = Inr (new, problems)" "narratives new \<noteq> []" "new \<noteq> SAMPLE_DOC" using sample_sync by blast
  let ?save = "(\<lambda>_. Inr ()) :: codepoints \<Rightarrow> unit + unit"
  have "oc_written (state_run [] (Inr SAMPLE_DOC) (Inr SAMPLE_FACTS) ?save) = Some new"
    using new by (simp add: state_run_def attempt_def raise_failure_def sync_failure_def universal_id sample_doc(2))
  from rewrite_then_check [OF sample_doc(1) this new(2)] show ?thesis by blast
qed

text \<open>The refusal of carriage returns is never reached. The document is opened as text, which
  turns every CRLF and CR into LF, so a run cannot tell a CRLF document from the same document
  with LF, and never fails because of carriage returns.\<close>

theorem crlf_unseen:
  "state_run argv (Inr raw) gathered save = state_run argv (Inr (universal raw)) gathered save \<and>
   Failed (SyncError CrLines) \<notin> set (oc_lines (state_run argv (Inr raw) gathered save))"
proof
  show "state_run argv (Inr raw) gathered save = state_run argv (Inr (universal raw)) gathered save"
    by (simp add: state_run_def attempt_def raise_failure_def universal_id universal_no_CR)
  have "attempt check (Inr raw) gathered save \<noteq> Inl (SyncError CrLines)" for check
    using sync_cr [OF universal_no_CR] by (auto simp: attempt_def raise_failure_def sync_failure_def bindE_Inl_iff Let_def split: sum.splits if_splits)
  then show "Failed (SyncError CrLines) \<notin> set (oc_lines (state_run argv (Inr raw) gathered save))"
    by (auto simp: state_run_def split: sum.splits)
qed

end
