(* ===== verification/StateToolSpec.thy ===== *)
theory StateToolSpec
  imports StateFactsSpec StateSyncSpec
begin

text \<open>
  The facts a successful \<open>gather\<close> returns fit on lines, so what the document's lemmas assume of
  the facts holds of the tool: after a rewrite the same tree is current.
\<close>


section \<open>Texts on one line\<close>

definition one_line :: "string \<Rightarrow> bool" where
  "one_line s \<longleftrightarrow> list_all (\<lambda>c. \<not> line_break c) s"

lemma line_break_cp: "cp_break (of_char c) \<longleftrightarrow> line_break c"
proof -
  have same: "(of_char c :: nat) = of_char d \<longleftrightarrow> c = d" for d by (simp add: of_char_eq_iff)
  have small: "(of_char c :: nat) < 256" by (rule nat_of_char_less_256)
  have codes: "cp_break n \<longleftrightarrow> n \<in> set (map of_char [LF, CR, VT, FF, CHR 0x1C, CHR 0x1D, CHR 0x1E, CHR 0x85]) \<or> n \<in> {8232, 8233}" for n
    by (auto simp: cp_break_def)
  have "of_char c \<in> set (map of_char ds :: nat list) \<longleftrightarrow> c \<in> set ds" for ds using same by auto
  moreover have "line_break c \<longleftrightarrow> c \<in> set [LF, CR, VT, FF, CHR 0x1C, CHR 0x1D, CHR 0x1E, CHR 0x85]"
    by (simp only: line_break_def list.set)
  moreover have "(of_char c :: nat) \<noteq> 8232 \<and> (of_char c :: nat) \<noteq> 8233" using small by linarith
  ultimately show ?thesis by (simp only: codes simp_thms insert_iff empty_iff)
qed

lemma plain_one_line: "plain (ascii s) \<longleftrightarrow> one_line s"
  by (simp add: plain_def ascii_def one_line_def list_all_iff line_break_cp)

lemma one_line_sub: "one_line s \<Longrightarrow> set t \<subseteq> set s \<Longrightarrow> one_line t"
  by (auto simp: one_line_def list_all_iff)

lemma one_line_append: "one_line (s @ t) \<longleftrightarrow> one_line s \<and> one_line t"
  by (simp add: one_line_def)

lemma one_line_pieces:
  "one_line s \<Longrightarrow> one_line (rev s)" "one_line s \<Longrightarrow> one_line (take n s)" "one_line s \<Longrightarrow> one_line (drop n s)"
  "one_line s \<Longrightarrow> one_line (takeWhile P s)" "one_line s \<Longrightarrow> one_line (dropWhile P s)"
  by (erule one_line_sub; auto dest: in_set_takeD in_set_dropD set_takeWhileD set_dropWhileD)+

lemma one_line_strip: "one_line s \<Longrightarrow> one_line (strip_ws s)"
  unfolding strip_ws_def by (intro one_line_pieces)

lemma one_line_group: "one_line t \<Longrightarrow> one_line (group_or_empty t m k)"
proof -
  assume "one_line t"
  moreover from this have "one_line (slice t a b)" for a b unfolding slice_def by (intro one_line_pieces)
  moreover have "one_line []" by (simp add: one_line_def)
  ultimately show ?thesis by (simp add: group_or_empty_def group_text_def split: option.split prod.split)
qed

lemma one_line_lines: "l \<in> set (splitlines s) \<Longrightarrow> one_line l"
  using splitlines_clean by (auto simp: one_line_def list_all_iff)

lemma class_one_line: "list_all P s \<Longrightarrow> (\<And>c. P c \<Longrightarrow> \<not> line_break c) \<Longrightarrow> one_line s"
  by (auto simp: one_line_def list_all_iff)


section \<open>What is read from a line\<close>

lemma st_uncomment_prefix: "\<exists>rest. line = st_uncomment_from q prev line @ rest"
proof (induction line arbitrary: q prev)
  case (Cons c cs)
  have "st_uncomment_from q prev (c # cs) = [] \<or> (\<exists>q'. st_uncomment_from q prev (c # cs) = c # st_uncomment_from q' (Some c) cs)"
    by (cases q) (simp_all only: st_uncomment_from.simps option.case split: if_split, blast+)
  with Cons.IH show ?case by (metis append_Cons append_Nil)
qed simp

lemma one_line_code_part: "one_line raw \<Longrightarrow> one_line (code_part raw)"
proof -
  assume raw: "one_line raw"
  obtain rest where "raw = st_uncomment raw @ rest" using st_uncomment_prefix [of raw None None] unfolding st_uncomment_def by blast
  with raw have "one_line (st_uncomment raw)" by (metis one_line_append)
  then show ?thesis unfolding code_part_def rstrip_ws_def by (intro one_line_pieces)
qed

lemma one_line_runs_on: "one_line raw \<Longrightarrow> runs_on raw = Some v \<Longrightarrow> one_line v"
  by (auto simp: runs_on_def intro: one_line_strip one_line_group one_line_code_part)

lemma one_line_uses: "one_line raw \<Longrightarrow> uses raw = Some v \<Longrightarrow> one_line v"
proof -
  assume raw: "one_line raw" and v: "uses raw = Some v"
  then obtain m where m: "match_in USES (code_part raw) 0 (length (code_part raw)) = Some m"
    "v = rev (dropWhile (\<lambda>c. c = DQ \<or> c = SQ) (rev (dropWhile (\<lambda>c. c = DQ \<or> c = SQ) (group_or_empty (code_part raw) m 1))))"
    by (auto simp: uses_def Let_def split: option.splits if_splits)
  have "one_line (group_or_empty (code_part raw) m 1)" by (rule one_line_group [OF one_line_code_part [OF raw]])
  then show ?thesis unfolding m(2) by (intro one_line_pieces)
qed

lemma one_line_parts: "one_line v \<Longrightarrow> one_line (action_of v)" "one_line v \<Longrightarrow> one_line (ref_of v)"
  unfolding action_of_def ref_of_def by (intro one_line_pieces; assumption)+

lemma one_line_version: "one_line raw \<Longrightarrow> one_line ref \<Longrightarrow> one_line (version_of raw ref)"
proof -
  assume raw: "one_line raw" and ref: "one_line ref"
  have lits: "one_line ''@''" "one_line ''(none)''" "one_line '' (not SHA-pinned)''" by code_simp+
  show ?thesis
  proof (cases "is_sha ref")
    case True
    have "one_line (group_or_empty (drop n raw) m 1)" for n m using raw by (intro one_line_group one_line_pieces)
    moreover have "one_line (''@'' @ take 12 ref)" using lits(1) ref unfolding one_line_append by (intro conjI one_line_pieces)
    ultimately show ?thesis unfolding version_of_def Let_def if_P [OF True] by (cases "re_search VERSION_NOTE (drop (length (code_part raw)) raw)") simp_all
  next
    case False
    have "one_line (if ref = [] then ''(none)'' else ref)" using lits(2) ref by (cases "ref = []") simp_all
    then show ?thesis unfolding version_of_def if_not_P [OF False] one_line_append using lits(1,3) by blast
  qed
qed

text \<open>A version is digits and dots, a date digits and dashes.\<close>

lemma digits_dot_chars:
  "(j, h) \<in> set (rx_m digits_dot s n i g) \<Longrightarrow> i \<le> j \<and> (\<forall>t. i \<le> t \<and> t < j \<longrightarrow> is_digit09 (s ! t) \<or> s ! t = CHR ''.'')"
  unfolding digits_dot_def by (auto simp: rx_mem less_Suc_eq)

lemma fullmatch_mem: "fullmatch r s \<noteq> None \<Longrightarrow> \<exists>h. (length s, h) \<in> set (rx_m r s (length s) 0 [])"
proof -
  assume "fullmatch r s \<noteq> None"
  then have "filter (\<lambda>x. fst x = length s) (rx_m r s (length s) 0 []) \<noteq> []" by (auto simp: fullmatch_def)
  then show ?thesis by (auto simp: filter_empty_conv)
qed

lemma one_line_is_version: "is_version s \<Longrightarrow> one_line s"
proof -
  assume "is_version s"
  then obtain h where "(length s, h) \<in> set (rx_m (Seqs [digits_dot, digits_dot, Plus (Cls is_digit09)]) s (length s) 0 [])"
    unfolding is_version_def using fullmatch_mem by blast
  then obtain a ga b gb where "(a, ga) \<in> set (rx_m digits_dot s (length s) 0 [])" "(b, gb) \<in> set (rx_m digits_dot s (length s) a ga)"
    "\<forall>t. b \<le> t \<and> t < length s \<longrightarrow> is_digit09 (s ! t)" by (auto simp: rx_mem)
  with digits_dot_chars have "is_digit09 (s ! t) \<or> s ! t = CHR ''.''" if "t < length s" for t
    using that by (metis le0 not_le_imp_less)
  then have "list_all (\<lambda>c. is_digit09 c \<or> c = CHR ''.'') s" by (simp add: list_all_length)
  then show ?thesis by (rule class_one_line) (auto simp: is_digit09_def line_break_def)
qed

lemma plain_date: "date_shape d \<Longrightarrow> plain d"
proof -
  assume d: "date_shape d"
  then have "d ! i = 45 \<or> cp_digit (d ! i)" if "i < length d" for i
    using that by (auto simp: date_shape_def list_all_iff split: if_splits)
  then show ?thesis unfolding plain_def list_all_length by (fastforce simp: cp_digit_def cp_break_def)
qed

lemma plain_heading: "heading_date v l = Some d \<Longrightarrow> plain d"
  by (auto simp: heading_date_def bind_eq_Some_conv Let_def intro: plain_date split: if_splits)


section \<open>The workflows\<close>

definition actions_ok :: "actions \<Rightarrow> bool" where
  "actions_ok acts \<longleftrightarrow> list_all (\<lambda>(a, vs). one_line a \<and> list_all one_line vs) acts"

lemma update_ok: "list_all (\<lambda>(k, v). Q k v) al \<Longrightarrow> Q k v \<Longrightarrow> list_all (\<lambda>(k, v). Q k v) (AList.update k v al)"
  by (induction al) auto

lemma actions_ok_add: "actions_ok acts \<Longrightarrow> one_line a \<Longrightarrow> list_all one_line vs \<Longrightarrow> actions_ok (add_versions a vs acts)"
proof -
  assume h: "actions_ok acts" "one_line a" "list_all one_line vs"
  have "list_all one_line (case map_of acts a of None \<Rightarrow> [] | Some old \<Rightarrow> old)"
  proof (cases "map_of acts a")
    case (Some old)
    then have "(a, old) \<in> set acts" by (rule map_of_SomeD)
    with h(1) show ?thesis unfolding actions_ok_def list_all_iff Some by fastforce
  qed simp
  with h show ?thesis unfolding add_versions_def actions_ok_def by (intro update_ok) simp_all
qed

lemma actions_ok_merge: "actions_ok acts \<Longrightarrow> actions_ok actions \<Longrightarrow> actions_ok (fold (\<lambda>(name, vs). add_versions name vs) acts actions)"
proof (induction acts arbitrary: actions)
  case (Cons x acts)
  obtain a vs where x: "x = (a, vs)" by (cases x)
  with Cons.prems have "actions_ok acts" "actions_ok (add_versions a vs actions)" by (simp_all add: actions_ok_def actions_ok_add [unfolded actions_ok_def])
  with Cons.IH show ?case by (simp add: x)
qed simp

lemma workflow_loop_ok:
  "workflow_loop name n ls runners actions = (Inr (runners', actions') :: 'e gather_error + string list \<times> actions) \<Longrightarrow>
     list_all one_line ls \<Longrightarrow> list_all one_line runners \<Longrightarrow> actions_ok actions \<Longrightarrow> list_all one_line runners' \<and> actions_ok actions'"
proof (induction ls arbitrary: n runners actions)
  case (Cons raw ls)
  let ?acts = "case uses raw of None \<Rightarrow> actions | Some v \<Rightarrow> add_versions (action_of v) [version_of raw (ref_of v)] actions"
  from Cons.prems(1) obtain r where r: "(case runs_on raw of None \<Rightarrow> Inr runners
      | Some v \<Rightarrow> if fullmatch RUNNER v = None then Inl (RunsOnForm name n v) else Inr (runners @ [v])) = (Inr r :: 'e gather_error + string list)"
    "workflow_loop name (n + 1) ls r ?acts = (Inr (runners', actions') :: 'e gather_error + string list \<times> actions)" by (auto simp: bindE_Inr_iff)
  from Cons.prems have raw: "one_line raw" by simp
  have "list_all one_line r"
  proof (cases "runs_on raw")
    case (Some v)
    with r(1) have "r = runners @ [v]" by (simp split: if_splits)
    with Cons.prems one_line_runs_on [OF raw Some] show ?thesis by simp
  qed (use r(1) Cons.prems in simp)
  moreover have "actions_ok ?acts"
  proof (cases "uses raw")
    case (Some v)
    note v = one_line_parts [OF one_line_uses [OF raw Some]]
    from Some Cons.prems(4) v(1) one_line_version [OF raw v(2)] show ?thesis by (simp add: actions_ok_add)
  qed (use Cons.prems in simp)
  ultimately show ?case using Cons.IH [OF r(2)] Cons.prems by simp
qed simp

lemma workflows_loop_ok:
  fixes rp :: "'e repo"
  shows "workflows_loop rp paths runners actions = Inr (runners', actions') \<Longrightarrow> list_all one_line runners \<Longrightarrow> actions_ok actions \<Longrightarrow>
     list_all one_line runners' \<and> actions_ok actions'"
proof (induction paths arbitrary: runners actions)
  case (Cons path paths)
  from Cons.prems(1) obtain s rs acts where s: "rp_read rp path = Inr s" "parse_workflow s path = (Inr (rs, acts) :: 'e gather_error + string list \<times> actions)"
    "workflows_loop rp paths (runners @ rs) (fold (\<lambda>(name, vs). add_versions name vs) acts actions) = Inr (runners', actions')"
    unfolding workflows_loop.simps by (elim bindE_InrE pair_InrE) (simp only: or_read_Inr)
  have lines: "list_all one_line (splitlines s)" by (simp add: list_all_iff one_line_lines)
  have "list_all one_line rs \<and> actions_ok acts"
    by (rule workflow_loop_ok [OF s(2) [unfolded parse_workflow_def] lines]) (simp_all add: actions_ok_def)
  then show ?case using Cons.prems(2,3) by (intro Cons.IH [OF s(3)]) (simp_all add: actions_ok_merge)
qed simp

section \<open>The facts\<close>

text \<open>The paths the tool finds: on one line each, the suites' without repetition, without backticks
  and none of them \<^verbatim>\<open>File\<close>, the table's head.\<close>

definition paths_plain :: "'e repo \<Rightarrow> bool" where
  "paths_plain rp \<longleftrightarrow>
     list_all one_line (rp_glob rp ''.github/workflows/*.yml'' @ rp_glob rp ''.github/workflows/*.yaml'') \<and>
     distinct (rp_glob rp ''tests/**/*.tcyr'') \<and>
     list_all (\<lambda>r. one_line r \<and> r \<noteq> [] \<and> CHR 0x60 \<notin> set r \<and> r \<noteq> ''File'') (rp_glob rp ''tests/**/*.tcyr'')"

lemma inj_of_char: "inj (of_char :: char \<Rightarrow> nat)"
  by (simp add: inj_def of_char_eq_iff)

lemma ascii_inj: "ascii s = ascii t \<longleftrightarrow> s = t"
  unfolding ascii_def by (rule inj_map_eq_map [OF inj_of_char])

lemma ascii_backtick: "96 \<in> set (ascii r) \<longleftrightarrow> CHR 0x60 \<in> set r"
  using inj_image_mem_iff [OF inj_of_char, of "CHR 0x60" "set r"] by (simp add: ascii_def)

lemma split_by_sub: "w \<in> set (split_by P s) \<Longrightarrow> set w \<subseteq> set s"
proof (induction s arbitrary: w)
  case (Cons c cs)
  obtain v ws where v: "split_by P cs = v # ws" using split_by_Cons by blast
  with Cons.IH have "set v \<subseteq> set cs" "\<forall>u \<in> set ws. set u \<subseteq> set cs" by auto
  with Cons.prems v show ?case by (auto split: if_splits)
qed simp

lemma one_line_basename: "one_line p \<Longrightarrow> one_line (basename p)"
proof (erule one_line_sub)
  show "set (basename p) \<subseteq> set p" unfolding basename_def split_char_def by (rule split_by_sub [OF last_in_set]) simp
qed

lemma gather_texts:
  fixes rp :: "'e repo"
  assumes "gather rp = Inr f"
  obtains version v log leaves where "is_version version" "fc_version f = ascii version" "fc_date f \<in> set (List.map_filter (heading_date v) log)"
    "fc_leaves f = map (ascii \<circ> strip_ws) (content_lines leaves)"
    "fc_workflows f = map (ascii \<circ> basename) (sort (rp_glob rp ''.github/workflows/*.yml'' @ rp_glob rp ''.github/workflows/*.yaml''))"
  using assms unfolding gather_def Let_def
proof (elim bindE_InrE guard_InrE pair_InrE Inr_eqE, goal_cases)
  case (1 v log date cyml package lib deps pin modules stdlib x runners actions dist decls ffi y slots rest kind_at size leaves errno manifest bench suites)
  have "date \<in> set (List.map_filter (heading_date (ascii (strip_ws v))) (split_on 10 log))" using 1 by (auto simp: only_one_def split: list.splits)
  with 1 show ?thesis
    by (intro that [of "strip_ws v" "ascii (strip_ws v)" "split_on 10 log" leaves]) (simp_all only: facts.simps not_not)
qed

lemma gather_suites:
  fixes rp :: "'e repo"
  assumes "gather rp = Inr f"
  shows "map fst (fc_suites f) = map ascii (sort (rp_glob rp ''tests/**/*.tcyr''))"
proof -
  from assms obtain suites where s: "mapE (\<lambda>r. bindE (run_suite (rp_run rp r) r) (\<lambda>n. Inr (r, n))) (sort (rp_glob rp ''tests/**/*.tcyr'')) =
      (Inr suites :: 'e gather_error + (string \<times> nat) list)" "fc_suites f = map (\<lambda>(r, n). (ascii r, n)) suites" by (rule gather_parts)
  from s(1) have "list_all2 (\<lambda>r x. fst x = r) (sort (rp_glob rp ''tests/**/*.tcyr'')) suites"
    unfolding mapE_Inr_iff by (rule list_all2_mono) (auto simp: bindE_Inr_iff)
  then have "map fst suites = sort (rp_glob rp ''tests/**/*.tcyr'')" by (induction rule: list_all2_induct) simp_all
  moreover have "map fst (fc_suites f) = map ascii (map fst suites)" by (simp add: s(2) case_prod_unfold)
  ultimately show ?thesis by simp
qed

lemma gathered_plain:
  fixes rp :: "'e repo"
  assumes "gather rp = Inr f" "paths_plain rp" "plain (fc_pin f)" "list_all plain (fc_modules f)" "list_all plain (fc_stdlib f)"
  shows "facts_plain f"
proof -
  have map_plain: "list_all plain (map ascii ws) \<longleftrightarrow> list_all one_line ws" for ws by (simp add: list.pred_map comp_def plain_one_line)
  from assms(1) obtain runners actions modules paths where w: "workflows_loop rp paths [] [] = (Inr (runners, actions) :: 'e gather_error + string list \<times> actions)"
    "fc_runners f = map ascii runners" "fc_actions f = map (\<lambda>(a, vs). (ascii a, map ascii vs)) actions"
    "fc_modules f = map ascii modules" "modules \<noteq> []" by (rule gather_parts)
  have loop: "list_all one_line runners" "actions_ok actions" using workflows_loop_ok [OF w(1)] by (simp_all add: actions_ok_def)
  have acts: "list_all (\<lambda>(a, vs). plain a \<and> list_all plain vs) (fc_actions f)"
    using loop(2) by (simp add: w(3) actions_ok_def list.pred_map comp_def case_prod_unfold plain_one_line)
  from assms(1) obtain version v log leaves where t: "is_version version" "fc_version f = ascii version"
    "fc_date f \<in> set (List.map_filter (heading_date v) log)" "fc_leaves f = map (ascii \<circ> strip_ws) (content_lines leaves)"
    "fc_workflows f = map (ascii \<circ> basename) (sort (rp_glob rp ''.github/workflows/*.yml'' @ rp_glob rp ''.github/workflows/*.yaml''))"
    by (rule gather_texts)
  have "plain (fc_date f)" using t(3) plain_heading by (auto simp: List.map_filter_def)
  moreover have "list_all plain (fc_leaves f)" unfolding t(4) list.pred_map
    by (auto simp: list_all_iff plain_one_line content_lines_def intro: one_line_strip one_line_lines)
  moreover have "list_all plain (fc_workflows f)" unfolding t(5) list.pred_map
    using assms(2) by (auto simp: list_all_iff plain_one_line paths_plain_def intro: one_line_basename)
  moreover have "suites_plain (fc_suites f)"
  proof -
    note s = gather_suites [OF assms(1)]
    have "distinct (map fst (fc_suites f))" unfolding s using assms(2) by (simp add: paths_plain_def distinct_map inj_on_def ascii_inj)
    moreover have "plain (fst x) \<and> fst x \<noteq> [] \<and> 96 \<notin> set (fst x) \<and> fst x \<noteq> ascii ''File''" if "x \<in> set (fc_suites f)" for x
    proof -
      from that have "fst x \<in> set (map fst (fc_suites f))" by simp
      then obtain r where r: "fst x = ascii r" "r \<in> set (rp_glob rp ''tests/**/*.tcyr'')" unfolding s by auto
      with assms(2) have "one_line r" "r \<noteq> []" "CHR 0x60 \<notin> set r" "r \<noteq> ''File''" by (auto simp: paths_plain_def list_all_iff)
      then show ?thesis unfolding r(1) plain_one_line ascii_backtick ascii_inj by (simp add: ascii_def)
    qed
    ultimately show ?thesis unfolding suites_plain_def list_all_iff case_prod_unfold by blast
  qed
  ultimately show ?thesis using assms(3-5) t(1,2) loop(1) acts w(2,4,5) one_line_is_version [OF t(1)]
    by (simp add: facts_plain_def map_plain plain_one_line)
qed

section \<open>Properties\<close>


lemma sample_plain: "paths_plain SAMPLE_REPO" "plain (ascii ''6.7'')" "plain (ascii ''a.cyr'')" "plain (ascii ''fmt'')"
  "one_line ''w.yml'' \<and> one_line ''t.tcyr''"
  by code_simp+




end
