(* ===== verification/CyrSelfTest.thy ===== *)
theory CyrSelfTest
  imports CyrDecl
begin

text \<open>
  \<^verbatim>\<open>_self_test\<close> of \<^verbatim>\<open>tools/cyr_scan.py\<close>: its checks in order, on
  the same sources, and the proof that all of them hold of the model, so the scanner's own table of
  expected results is met by the definitions the other theories reason about.
\<close>


section \<open>The checks\<close>

text \<open>The names of the declarations (none where the parser refuses, which no check expects), a
  refusal, and a word of a text.\<close>

definition names :: "string \<Rightarrow> (bool \<times> string) list" where
  "names src = (case fn_decls (strip src Cyr False) of Inl e \<Rightarrow> [] | Inr ds \<Rightarrow> map (\<lambda>d. (is_public d, fn_name d)) ds)"

definition refused :: "string \<Rightarrow> bool" where
  "refused src = (case fn_decls (strip src Cyr False) of Inl e \<Rightarrow> True | Inr ds \<Rightarrow> False)"

definition has :: "string \<Rightarrow> string \<Rightarrow> bool" where
  "has w t \<longleftrightarrow> find_at t w 0 \<noteq> None"

text \<open>Declarations on one line, and comments and strings.\<close>

definition basic_checks :: "bool list" where
  "basic_checks = [
     (True, ''evil'') \<in> set (names (''private'' @ [LF] @ ''fn a() { return 0; } public fn evil(x) { return x; }'' @ [LF] @ ''public fn ok() { return 0; }'' @ [LF])),
     (False, ''a'') \<in> set (names (''private'' @ [LF] @ ''fn a() { return 0; } public fn evil(x) { return x; }'' @ [LF] @ ''public fn ok() { return 0; }'' @ [LF])),
     set (map snd (names (''private'' @ [LF] @ ''# public fn ghost(a) { }'' @ [LF] @ ''var s = '' @ [DQ] @ ''public fn str(b) {'' @ [DQ] @ '';'' @ [LF] @ ''fn f() { return 0; } # fn g() trailing'' @ [LF] @ ''public fn ok() { return 0; }'' @ [LF]))) = {''f'', ''ok''}]"

text \<open>Each attribute word before a public fn.\<close>

definition attribute_checks :: "bool list" where
  "attribute_checks = map (\<lambda>attr. (True, ''evil_attr'') \<in> set (names (''private'' @ [LF] @ attr @ '' public fn evil_attr() { return 7; }'' @ [LF])))
     [''#must_use'',
      ''#pure'',
      ''#io'',
      ''#alloc'',
      ''#inline'',
      ''#regalloc'',
      ''#naked'',
      ''#deprecated('' @ [DQ] @ ''x'' @ [DQ] @ '')'',
      ''#deprecated'',
      ''#assert 1 == 1;'',
      ''#assert 1 == 1, '' @ [DQ] @ ''a;b'' @ [DQ] @ '';'',
      ''#pe_import('' @ [DQ] @ ''k32'' @ [DQ] @ '', '' @ [DQ] @ ''x'' @ [DQ] @ '')'',
      ''#assert(1 == 1)'',
      ''#io'' @ [TAB]]"

text \<open>Attributes with messages and arguments, and in the middle of a line.\<close>

definition attribute_argument_checks :: "bool list" where
  "attribute_argument_checks = [
     (True, ''evil_ml'') \<in> set (names (''private'' @ [LF] @ ''#assert 1 == 1, '' @ [DQ] @ ''a'' @ [LF] @ ''b'' @ [DQ] @ ''; pub fn evil_ml() { return 7; }'' @ [LF])),
     (True, ''evil_dep'') \<in> set (names (''private'' @ [LF] @ ''#deprecated('' @ [DQ] @ ''x'' @ [LF] @ '') fn hidden() {'' @ [DQ] @ '') pub fn evil_dep() { return 7; }'' @ [LF])),
     (True, ''evil_mid'') \<in> set (names (''private'' @ [LF] @ ''fn a() { return 0; } #must_use public fn evil_mid() { return 7; }'' @ [LF]))]"

text \<open>Every other word after the sign opens a comment: the next line is code.\<close>

definition comment_checks :: "bool list" where
  "comment_checks = map (\<lambda>opener. (True, ''planted_attr_evil'') \<in> set (names (''private'' @ [LF] @ opener @ [LF] @ ''public fn planted_attr_evil() { return 7; }'' @ [LF] @ ''# '' @ [DQ] @ '')'' @ [LF])))
     [''#io('' @ [DQ] @ ''fd'' @ [DQ] @ '') note: reads one byte, see '' @ [DQ],
      ''#note: the '' @ [DQ],
      ''#must_use('' @ [DQ],
      ''#io('' @ [DQ],
      ''#note('' @ [DQ],
      ''#TODO: handle the '' @ [DQ],
      ''#ioctl '' @ [DQ],
      ''#pure(ly) '' @ [DQ],
      ''#inline(always) '' @ [DQ],
      ''#XXX '' @ [DQ],
      ''#ifdef X '' @ [DQ],
      ''#derive(Serialize) '' @ [DQ],
      ''#@file '' @ [DQ] @ ''x'',
      ''#define N '' @ [DQ],
      ''#ref '' @ [DQ] @ ''a'' @ [DQ] @ '' '' @ [DQ]]"

text \<open>Directives blank the rest of their line.\<close>

definition directive_checks :: "bool list" where
  "directive_checks = map (\<lambda>d. set (map snd (names (''private'' @ [LF] @ d @ '' public fn ghost() { }'' @ [LF] @ ''public fn ok() { return 0; }'' @ [LF]))) = {''ok''})
     [''#ifdef X'',
      ''#ifndef X'',
      ''#if 1'',
      ''#elif 1'',
      ''#else'',
      ''#endif'',
      ''#ifplat x86'',
      ''#endplat'',
      ''#skip-lint'',
      ''#ref '' @ [DQ] @ ''k.txt'' @ [DQ],
      ''#host_only'',
      ''#@file '' @ [DQ] @ ''a'' @ [DQ] @ '' 1'',
      ''#TODO'',
      ''#note:'',
      ''#io(fd)'',
      ''#must_use(result)'',
      ''#ioctl'',
      ''#derive(accessors)'',
      ''#define N 7'']"

text \<open>The bodies of defines, and \<open>directives\<close>.\<close>

definition define_checks :: "bool list" where
  "define_checks = [
     (let c = strip (''#define RUN(q1, q2) sys_execve(q1, q2, 0)'' @ [LF] @ ''#define N 7 sys_fork()'' @ [LF]) Cyr False in has ''sys_execve(q1, q2, 0)'' c \<and> \<not> has ''RUN'' c \<and> \<not> has ''sys_fork'' c),
     (True, ''after_q'') \<in> set (names (''#define Q(a) '' @ [DQ, LF] @ ''public fn after_q() { return 0; }'' @ [LF])),
     (let c = strip (''  #define F(a) sys_execve(a)'' @ [LF] @ ''x = 1; #define G(a) sys_fork(a)'' @ [LF]) Cyr False in has ''sys_execve'' c \<and> \<not> has ''sys_fork'' c),
     map snd (directives (''fn f() { var s = '' @ [DQ] @ ''#ref x'' @ [DQ] @ ''; }'' @ [LF] @ ''#ref '' @ [DQ] @ ''k'' @ [DQ, LF] @ ''#must_use fn g() { }'' @ [LF] @ ''#note: see #ref'' @ [LF])) = [''ref'', ''must_use'', ''note'']]"

text \<open>Char literals: the lexer's and the preprocessor's.\<close>

definition char_checks :: "bool list" where
  "char_checks = [
     (True, ''after_sq'') \<in> set (names (''private'' @ [LF] @ ''#ifdef NOPE'' @ [LF] @ ''x '' @ [SQ] @ '' '' @ [DQ, LF] @ ''#endif'' @ [LF] @ ''public fn after_sq() { return 7; }'' @ [LF] @ ''# '' @ [DQ, LF])),
     (True, ''after_ch'') \<in> set (names (''private'' @ [LF] @ ''fn f() { var a = '' @ [SQ, DQ, SQ] @ ''; var b = '' @ [SQ, BSL, SQ, SQ] @ ''; var c = '' @ [SQ] @ ''#'' @ [SQ] @ ''; return 0; } pub fn after_ch() { }'' @ [LF])),
     hazards (''var q = '' @ [SQ, SQ, SQ] @ '';'' @ [LF]) \<noteq> [],
     hazards (''var q = '' @ [SQ, LF, SQ] @ '';'' @ [LF]) \<noteq> [],
     hazards (''var q = '' @ [SQ, BSL, SQ, SQ] @ '';'' @ [LF] @ ''var r = '' @ [SQ] @ ''a'' @ [SQ] @ '';'' @ [LF]) = []]"

text \<open>Include lines.\<close>

definition include_checks :: "bool list" where
  "include_checks = [
     (True, ''after_inc'') \<in> set (names (''private'' @ [LF] @ ''include '' @ [DQ] @ ''lib/syscalls.cyr'' @ [DQ] @ '' #assert 1 == 1, '' @ [DQ, LF] @ ''public fn after_inc() { return 7; }'' @ [LF] @ ''# '' @ [DQ, LF])),
     literals (''include '' @ [DQ] @ ''src/a'' @ [BSL, DQ] @ '' # .cyr'' @ [DQ, LF]) Cyr = [(8, 16, True)],
     map fst (literals (''  include '' @ [DQ] @ ''x'' @ [DQ, LF]) Cyr) = [10]]"

text \<open>Strings open at the end of the source.\<close>

definition open_string_checks :: "bool list" where
  "open_string_checks = [
     hazards (''fn f() { return 0; }'' @ [LF] @ ''var s = '' @ [DQ, LF]) \<noteq> [],
     hazards (''var s = '' @ [DQ] @ ''a'' @ [BSL, DQ]) \<noteq> [],
     hazards (''var s = '' @ [DQ] @ ''a'' @ [LF] @ ''b'' @ [DQ] @ '';'' @ [LF]) = []]"

text \<open>\<^verbatim>\<open>pub\<close> is \<^verbatim>\<open>public\<close>, and marks nothing but a fn.\<close>

definition public_checks :: "bool list" where
  "public_checks = [
     fn_decls (strip (''private'' @ [LF] @ ''pub fn evil_pub() { return 7; }'' @ [LF]) Cyr False) = Inr [\<lparr>is_public = True, fn_name = ''evil_pub'', fn_args = []\<rparr>],
     refused (''private'' @ [LF] @ ''public var x = 1;'' @ [LF] @ ''public fn ok() { return 0; }'' @ [LF]),
     refused (''private'' @ [LF] @ ''pub var evil_var = 7;'' @ [LF]),
     refused (''private'' @ [LF] @ ''pub var evil_arr[16];'' @ [LF]),
     refused (''private'' @ [LF] @ ''#derive(accessors)'' @ [LF] @ ''pub struct Evil { a; b; }'' @ [LF]),
     refused (''private'' @ [LF] @ ''public struct Evil { a; }'' @ [LF])]"

text \<open>Fn tokens the parser cannot read, and words that are none.\<close>

definition fn_token_checks :: "bool list" where
  "fn_token_checks = [
     refused (''private'' @ [LF] @ ''fn'' @ [LF] @ ''weird() { return 0; }'' @ [LF] @ ''fn (x) { }'' @ [LF]),
     map snd (names (''private'' @ [LF] @ ''fn a() { var p = &fn_x; fncall2(p, 0, 0); return 0; }'' @ [LF])) = [''a'']]"

text \<open>What the bundle may not hold.\<close>

definition bundle_checks :: "bool list" where
  "bundle_checks = [
     bundle_problems (''#derive(Serialize)'' @ [LF] @ ''enum PlantedKind { PK_A; PK_B; }'' @ [LF]) \<noteq> [],
     bundle_problems (''enum PlantedKind { PK_A; }'' @ [LF]) \<noteq> [],
     bundle_problems (''  #derive(accessors)'' @ [LF] @ ''struct S { a; }'' @ [LF]) \<noteq> [],
     bundle_problems (''#define SAMVADA_FLAG 1'' @ [LF]) \<noteq> [],
     bundle_problems (''fn f() { return '' @ [SQ, SQ, SQ] @ ''; }'' @ [LF]) \<noteq> [],
     bundle_problems (''# an enum-style constant, see #derive docs'' @ [LF] @ ''fn samvada_enum_x() { return 1; }'' @ [LF]) = []]"

text \<open>Arity counts parameters, not commas.\<close>

definition arity_checks :: "bool list" where
  "arity_checks = [
     arity [] = 0,
     arity ''a'' = 1,
     arity ''a, b, c'' = 3,
     arity ''x: Result<i64, i64>'' = 1,
     arity ''x = cf(1, 2), y'' = 2,
     arity ''m: Map<i64, Vec<i64, i64>>, z'' = 2,
     arity ''a,'' = 1,
     (case fn_decls (strip (''private'' @ [LF] @ ''public fn take(major: Result<i64, i64>) { return 0; }'' @ [LF]) Cyr False) of Inr ds \<Rightarrow> map (\<lambda>d. (fn_name d, arity (fn_args d))) ds | Inl _ \<Rightarrow> []) = [(''take'', 1)]]"

text \<open>The marker must lead.\<close>

definition marker_checks :: "bool list" where
  "marker_checks = [
     private_first (strip (''fn a() { }'' @ [LF] @ ''private'' @ [LF]) Cyr False) \<noteq> None,
     private_first (strip (''pub fn a() { }'' @ [LF] @ ''private'' @ [LF]) Cyr False) \<noteq> None,
     private_first (strip (''# header'' @ [LF] @ ''private'' @ [LF] @ ''fn a() { }'' @ [LF]) Cyr False) = None]"

text \<open>C comments, splices and line ends.\<close>

definition c_comment_checks :: "bool list" where
  "c_comment_checks = [
     (let c = strip (''/* execve( */ int x; // fork('' @ [LF] @ ''#define RUN execv('' @ [LF]) C False in \<not> has ''execve'' c \<and> \<not> has ''fork'' c \<and> has ''execv('' c),
     (let c = strip (''int a; // c '' @ [BSL, LF] @ ''int hidden_by_splice;'' @ [LF] @ ''int b = exe'' @ [BSL, LF] @ ''cve(0);'' @ [LF]) C False in \<not> has ''hidden_by_splice'' c \<and> has ''execve(0)'' c \<and> length (filter ((=) LF) c) = 4),
     (let c = strip (''int a; // c'' @ [CR] @ ''int evil_cr = execve(0);'' @ [LF]) C False in has ''execve(0)'' c)]"

text \<open>C literals and header names.\<close>

definition c_literal_checks :: "bool list" where
  "c_literal_checks = [
     (let c = strip (''long n = 1'' @ [SQ] @ ''000; int r = execve(0); long m = 2'' @ [SQ] @ ''000;'' @ [LF]) C False in has ''execve(0)'' c),
     (let c = strip (''switch (x) { case'' @ [SQ] @ ''a'' @ [SQ] @ '': break; } int r = execve(0);'' @ [LF]) C False in has ''execve(0)'' c \<and> has (''case'' @ [SQ] @ '' '' @ [SQ]) c),
     (let c = strip (''const char *p = R'' @ [DQ] @ ''x(a'' @ [DQ] @ '' fork( )x'' @ [DQ] @ ''; int r = execve(0);'' @ [LF]) C False in has ''execve(0)'' c \<and> \<not> has ''fork('' c),
     (let c = strip (''#include <it'' @ [SQ] @ ''s.h>'' @ [LF] @ ''int r = execve(0);'' @ [LF]) C False in has ''execve(0)'' c),
     (let c = strip (''char c = '' @ [SQ, LF] @ ''int r = execve(0);'' @ [LF]) C False in has ''execve(0)'' c),
     (let c = strip (''#include <sys/syscall.h>'' @ [LF]) C False in \<not> has ''syscall'' c),
     (let c = strip (''#include <sys/syscall.h>'' @ [LF]) C True in has ''<sys/syscall.h>'' c)]"

text \<open>Strings kept when asked, and the line count.\<close>

definition keep_checks :: "bool list" where
  "keep_checks = [
     (let c = strip (''var p = '' @ [DQ] @ ''/etc/x'' @ [DQ] @ ''; # '' @ [DQ] @ ''/bin/y'' @ [DQ, LF] @ ''fn a() { }'' @ [LF]) Cyr True in has ([DQ] @ ''/etc/x'' @ [DQ]) c \<and> \<not> has ''/bin/y'' c \<and> length (filter ((=) LF) c) = 2)]"

text \<open>The exit status.\<close>

definition cyr_self_test :: nat where
  "cyr_self_test =
     (if list_all (\<lambda>b. b) (basic_checks @
       attribute_checks @
       attribute_argument_checks @
       comment_checks @
       directive_checks @
       define_checks @
       char_checks @
       include_checks @
       open_string_checks @
       public_checks @
       fn_token_checks @
       bundle_checks @
       arity_checks @
       marker_checks @
       c_comment_checks @
       c_literal_checks @
       keep_checks) then 0 else 1)"


section \<open>They hold\<close>

lemma basic_checks_hold: "list_all (\<lambda>b. b) basic_checks"
  unfolding basic_checks_def list.map list.pred_inject by (intro conjI TrueI; code_simp)

lemma attribute_checks_hold: "list_all (\<lambda>b. b) attribute_checks"
  unfolding attribute_checks_def list.map list.pred_inject by (intro conjI TrueI; code_simp)

lemma attribute_argument_checks_hold: "list_all (\<lambda>b. b) attribute_argument_checks"
  unfolding attribute_argument_checks_def list.map list.pred_inject by (intro conjI TrueI; code_simp)

lemma comment_checks_hold: "list_all (\<lambda>b. b) comment_checks"
  unfolding comment_checks_def list.map list.pred_inject by (intro conjI TrueI; code_simp)

lemma directive_checks_hold: "list_all (\<lambda>b. b) directive_checks"
  unfolding directive_checks_def list.map list.pred_inject by (intro conjI TrueI; code_simp)

lemma define_checks_hold: "list_all (\<lambda>b. b) define_checks"
  unfolding define_checks_def list.map list.pred_inject by (intro conjI TrueI; code_simp)

lemma char_checks_hold: "list_all (\<lambda>b. b) char_checks"
  unfolding char_checks_def list.map list.pred_inject by (intro conjI TrueI; code_simp)

lemma include_checks_hold: "list_all (\<lambda>b. b) include_checks"
  unfolding include_checks_def list.map list.pred_inject by (intro conjI TrueI; code_simp)

lemma open_string_checks_hold: "list_all (\<lambda>b. b) open_string_checks"
  unfolding open_string_checks_def list.map list.pred_inject by (intro conjI TrueI; code_simp)

lemma public_checks_hold: "list_all (\<lambda>b. b) public_checks"
  unfolding public_checks_def list.map list.pred_inject by (intro conjI TrueI; code_simp)

lemma fn_token_checks_hold: "list_all (\<lambda>b. b) fn_token_checks"
  unfolding fn_token_checks_def list.map list.pred_inject by (intro conjI TrueI; code_simp)

lemma bundle_checks_hold: "list_all (\<lambda>b. b) bundle_checks"
  unfolding bundle_checks_def list.map list.pred_inject by (intro conjI TrueI; code_simp)

lemma arity_checks_hold: "list_all (\<lambda>b. b) arity_checks"
  unfolding arity_checks_def list.map list.pred_inject by (intro conjI TrueI; code_simp)

lemma marker_checks_hold: "list_all (\<lambda>b. b) marker_checks"
  unfolding marker_checks_def list.map list.pred_inject by (intro conjI TrueI; code_simp)

lemma c_comment_checks_hold: "list_all (\<lambda>b. b) c_comment_checks"
  unfolding c_comment_checks_def list.map list.pred_inject by (intro conjI TrueI; code_simp)

lemma c_literal_checks_hold: "list_all (\<lambda>b. b) c_literal_checks"
  unfolding c_literal_checks_def list.map list.pred_inject by (intro conjI TrueI; code_simp)

lemma keep_checks_hold: "list_all (\<lambda>b. b) keep_checks"
  unfolding keep_checks_def list.map list.pred_inject by (intro conjI TrueI; code_simp)

theorem cyr_self_test_passes: "cyr_self_test = 0"
  unfolding cyr_self_test_def list_all_append
  by (simp only: basic_checks_hold attribute_checks_hold attribute_argument_checks_hold comment_checks_hold directive_checks_hold define_checks_hold char_checks_hold include_checks_hold open_string_checks_hold public_checks_hold fn_token_checks_hold bundle_checks_hold arity_checks_hold marker_checks_hold c_comment_checks_hold c_literal_checks_hold keep_checks_hold simp_thms if_True)

end
