(* ===== verification/StateSelfTest.thy ===== *)
theory StateSelfTest
  imports StateFacts
begin

text \<open>
  The checks of \<^verbatim>\<open>self_test\<close> of \<^verbatim>\<open>tools/state_sync.py\<close> on the
  parsers of the facts, on the same texts, and the proof that they hold of the model. Its checks on
  documents start from the facts of the repository and are not restated: the lemmas on \<open>sync\<close> are
  about all documents.
\<close>


section \<open>The checks\<close>

definition rejected :: "'e gather_error + 'a \<Rightarrow> bool" where
  "rejected r = (case r of Inl e \<Rightarrow> True | Inr x \<Rightarrow> False)"

definition WORKFLOW :: "string list" where
  "WORKFLOW = [
     ''jobs:'',
     ''  a:'',
     ''    runs-on: ubuntu-26.04  # note'',
     ''    steps:'',
     ''      - uses: actions/checkout@'' @ replicate 40 CHR ''a'' @ ''  # v7.0.1'',
     ''      - uses: '' @ [DQ] @ ''q/quoted@'' @ replicate 40 CHR ''b'' @ [DQ] @ ''  # v3'',
     ''      - uses: bare/sha@'' @ replicate 40 CHR ''c'',
     ''      # - uses: evil/commented@v1'',
     ''      - uses: loose/action@v2'',
     ''      - uses: short/sha@abc1234'',
     ''  b:'',
     ''    uses: ./.github/workflows/ci.yml'']"

text \<open>Tallies: the last one counts, and no failure passes.\<close>

definition tally_checks :: "bool list" where
  "tally_checks = [
     parse_tally (''x'' @ [LF] @ ''5 passed, 0 failed (5 total)'' @ [LF]) 0 ''t'' = (Inr 5 :: unit gather_error + nat),
     parse_tally (''2 passed, 0 failed (2 total)'' @ [LF] @ ''5 passed, 0 failed (5 total)'' @ [LF]) 0 ''t'' = (Inr 5 :: unit gather_error + nat),
     rejected (parse_tally (''4 passed, 1 failed (5 total)'' @ [LF]) 1 ''t'' :: unit gather_error + nat),
     rejected (parse_tally (''1 passed, 1 failed (2 total)'' @ [LF] @ ''5 passed, 0 failed (5 total)'' @ [LF]) 0 ''t'' :: unit gather_error + nat),
     rejected (parse_tally (''5 passed, 0 failed (5 total)'' @ [LF]) 1 ''t'' :: unit gather_error + nat),
     rejected (parse_tally (''compile error'' @ [LF]) 1 ''t'' :: unit gather_error + nat)]"

text \<open>Workflows: runners and pins, and the forms that are refused.\<close>

definition workflow_checks :: "bool list" where
  "workflow_checks = [
     (case parse_workflow (concat (map (\<lambda>l. l @ [LF]) WORKFLOW)) ''workflow'' :: unit gather_error + string list \<times> actions of Inl e \<Rightarrow> False
      | Inr (runners, actions) \<Rightarrow> set runners = {''ubuntu-26.04''} \<and> map (\<lambda>(a, vs). (a, set vs)) actions =
          [(''actions/checkout'', {''v7.0.1''}), (''q/quoted'', {''v3''}), (''bare/sha'', {''@cccccccccccc''}),
           (''loose/action'', {''@v2 (not SHA-pinned)''}), (''short/sha'', {''@abc1234 (not SHA-pinned)''})]),
     rejected (parse_workflow (''jobs:'' @ [LF] @ ''  a:'' @ [LF] @ ''    runs-on:'' @ [LF] @ ''      - ubuntu-24.04'' @ [LF]) ''workflow'' :: unit gather_error + string list \<times> actions),
     rejected (parse_workflow (''jobs:'' @ [LF] @ ''  a:'' @ [LF] @ ''    runs-on: [ubuntu-24.04]'' @ [LF]) ''workflow'' :: unit gather_error + string list \<times> actions),
     rejected (parse_workflow (''jobs:'' @ [LF] @ ''  a:'' @ [LF] @ ''    runs-on: ${{ matrix.os }}'' @ [LF]) ''workflow'' :: unit gather_error + string list \<times> actions)]"

text \<open>The FFI table.\<close>

definition ffi_checks :: "bool list" where
  "ffi_checks = [
     parse_ffi (''fn samvada_ffi_size() { return 16; }'' @ [LF] @ ''fn samvada_slot_a() { return 0; }'' @ [LF] @ ''fn samvada_slot_kind(): i64 { return 8; }'' @ [LF]) = (Inr (2, 8, 16) :: unit gather_error + nat \<times> nat \<times> nat),
     rejected (parse_ffi (''fn samvada_ffi_size() { return 16; }'' @ [LF] @ ''fn samvada_slot_a() { return 0; }'' @ [LF] @ ''fn samvada_slot_kind() { return 8; }'' @ [LF] @ ''fn samvada_slot_b() { return 8 + 8; }'' @ [LF]) :: unit gather_error + nat \<times> nat \<times> nat),
     rejected (parse_ffi (''fn samvada_ffi_size() { return 16; }'' @ [LF] @ ''fn samvada_slot_a() { return 0; }'' @ [LF] @ ''fn samvada_slot_kind() { return 8; }'' @ [LF] @ ''fn samvada_slot_b() { return 16; }'' @ [LF]) :: unit gather_error + nat \<times> nat \<times> nat)]"

text \<open>Lists of the manifest.\<close>

definition cyml_checks :: "bool list" where
  "cyml_checks = [
     (case map_of (cyml_sections (''[lib]'' @ [LF] @ ''modules = ['' @ [LF] @ ''    '' @ [DQ] @ ''a.cyr'' @ [DQ] @ '',   # first [really]'' @ [LF] @ ''#   '' @ [DQ] @ ''x.cyr'' @ [DQ] @ '','' @ [LF] @ ''    '' @ [DQ] @ ''b.cyr'' @ [DQ] @ '','' @ [LF] @ '']'' @ [LF])) ''lib'' of None \<Rightarrow> False
      | Some body \<Rightarrow> st_cyml_list body ''modules'' ''t'' = (Inr [''a.cyr'', ''b.cyr''] :: unit gather_error + string list))]"


section \<open>They hold\<close>

lemma tally_checks_hold: "list_all (\<lambda>b. b) tally_checks"
  unfolding tally_checks_def list.pred_inject by (intro conjI TrueI; code_simp)

lemma workflow_checks_hold: "list_all (\<lambda>b. b) workflow_checks"
  unfolding workflow_checks_def list.pred_inject by (intro conjI TrueI; code_simp)

lemma ffi_checks_hold: "list_all (\<lambda>b. b) ffi_checks"
  unfolding ffi_checks_def list.pred_inject by (intro conjI TrueI; code_simp)

lemma cyml_checks_hold: "list_all (\<lambda>b. b) cyml_checks"
  unfolding cyml_checks_def list.pred_inject by (intro conjI TrueI; code_simp)

end
