(* ===== verification/Spec2Isabelle.thy ===== *)
theory Spec2Isabelle
  imports BoundaryCheck DbusTapSpec SecManifestSpec SecBufferSpec SecSelfTest StateToolSpec CyrSelfTest StateSelfTest
begin

text \<open>
  A verification of the Python tools of samvada, the gates and inspectors under
  \<^verbatim>\<open>src/tools\<close>. The D-Bus client they guard is written in Cyrius, which is
  compiled by another project; these tools decide whether its sources, its bundle, its public
  surface and its captures are what the project says they are.

  \<^bold>\<open>The program.\<close> \<^verbatim>\<open>cyr_scan.py\<close> is a scanner for Cyrius and C that the
  gates share: it blanks comments and literals without moving any offset, and parses the fn
  declarations. \<^verbatim>\<open>surface_check.py\<close> compares the bundle's public functions with a
  manifest, \<^verbatim>\<open>boundary_check.py\<close> compiles two consumers of the bundle,
  \<^verbatim>\<open>security_scan.py\<close> searches the tree for spawns, executable memory, system paths
  and files the build could pull in unseen, \<^verbatim>\<open>state_sync.py\<close> regenerates the factual
  blocks of \<^verbatim>\<open>docs/development/state.md\<close>. \<^verbatim>\<open>dbus_tap.py\<close> relays
  between D-Bus clients and the bus and records the traffic, \<^verbatim>\<open>dbus_decode.py\<close> prints
  the messages of a capture.

  \<^bold>\<open>The theories\<close>, from the ground up.
  \<^item> \<open>Prelude\<close>, \<open>PyStr\<close>, \<open>PyRe\<close>, \<open>PyReLang\<close>: the result type \<open>'e + 'a\<close> of code that may raise
    (\<open>bindE\<close>, \<open>mapE\<close>), slices, Python's string methods, and its regular expressions as a datatype
    with a backtracking matcher that lists the ways to match in the engine's order; \<open>PyReLang\<close>
    relates patterns to the words they accept.
  \<^item> \<open>CyrLex\<close> (\<open>_walk\<close>, \<open>_rec\<close>, \<open>strip\<close>, \<open>literals\<close>, \<open>directives\<close>, \<open>hazards\<close>): one definition for each
    kind of turn of the walk, and the walk over the record \<open>scan_rec\<close>. \<open>CyrLexSpec\<close>: every turn covers
    what it consumes, so the result has the source's offsets and lines and no token of its own; a
    source without hazards has its literals closed; the walk makes at most one turn for each character.
  \<^item> \<open>CyrDecl\<close> (\<open>fn_decls\<close>, \<open>private_first\<close>, \<open>bundle_problems\<close>, \<open>arity\<close>) and \<open>CyrDeclSpec\<close>: a parse that
    succeeds accounts for every fn and every public token of the code. \<open>CyrSelfTest\<close>: the scanner's
    own table of sources and expected results holds of the model.
  \<^item> \<open>SurfaceCheck\<close>, \<open>BoundaryCheck\<close>: the two gates, with what a pass means. The second makes a work
    directory of the copied library and bundle and compiles its two consumers there; that the compiler
    answers honestly is a named hypothesis, the compiler itself is not modelled.
  \<^item> \<open>SecText\<close>, \<open>SecScan\<close>, \<open>SecManifest\<close> (the literals' values and system paths, the scan of one file,
    the manifest, the walk over the tree and \<open>main\<close>) and their \<open>Spec\<close> theories: a literal's value is
    what its escapes spell, a system path is one that enters a system directory, and a file, a
    manifest or a tree without findings has none of what the scan looks for. \<open>SecBufferSpec\<close>: an array
    declaration of a clean file is below the limit. \<open>SecSelfTest\<close>: the scan's own table of sources with
    findings, and its integers.
  \<^item> \<open>StateSync\<close> (renderers, markers, \<open>blocks\<close>, \<open>sync\<close>, \<open>run\<close>), \<open>StateSyncSpec\<close>: the document as pieces of
    prose and blocks; \<open>sync\<close> refines the regeneration piece by piece, keeps the prose and is a fixed
    point. \<open>StateFacts\<close> (\<open>gather\<close> and its parsers), \<open>StateFactsSpec\<close>, \<open>StateToolSpec\<close>: what the facts of a
    successful \<open>gather\<close> are, and the composition: after a rewrite \<^verbatim>\<open>--check\<close> is content.
    \<open>StateSelfTest\<close>: the tool's checks of its parsers.
  \<^item> \<open>DbusDecode\<close>, \<open>DbusDecodeSpec\<close>: the reader over bytes and words with its alignment and exceptions,
    one message, the stream and the report; encoding by the D-Bus specification and decoding is the
    identity, and a read holds at most one message for each sixteen bytes. \<open>DbusTap\<close>, \<open>DbusTapSpec\<close>: the relay as one function for each kind of event over the record
    of connections, registrations, files, sent data and descriptors; its runs are an inductive
    relation, its invariants are proved by rule induction. This theory joins the two, and the two gates.

  \<^bold>\<open>Conventions.\<close> A raise, an early return and an exit status is a value. A dict is an association
  list in insertion order, a set that is only tested or sorted is the list of its elements. The
  messages that are printed are constructors that carry what the text names; their layout is not
  modelled. Definitions compute; the samples that show the hypotheses can hold are evaluated.

  \<^bold>\<open>Termination.\<close> No fuel bounds the tools: the walk, the regular expression searches, the decoder's
  loop and the parsers are functions with a measure, the distance to the end of the text, and each
  comes with the lemma that a turn moves forward. The one counter is inside the matcher, where a
  repetition is unrolled at most once for each remaining character, which is enough since a round
  that consumes nothing is never repeated.

  \<^bold>\<open>Bounds of the model.\<close> Texts that the patterns read are lists of characters U+0000 to U+00FF; the
  code points of the generated document and of the values of literals are natural numbers without
  that bound. Of the digits that \<^verbatim>\<open>\d\<close> matches in a change log's dates only 0 to 9 are
  modelled, and Python's limit of 4300 digits for reading an integer is not.

  \<^bold>\<open>Parameters.\<close> What the source does not contain is an argument: the file system (reading, kinds of
  files, walks and glob results), the answers of the Cyrius compiler, and the kernel's answers to the
  tap's socket calls, which arrive as events.

  \<^bold>\<open>Not modelled.\<close> Argument parsing and the layout of what is printed; the name and the removal of the
  boundary gate's work directory; \<open>spawn_number\<close> of the security scan, which nothing calls and which
  would raise; in the self-test of the security scan the sources without findings and the throwaway
  trees, and the part of the state tool's self-test that starts from the repository's own facts
  (evaluating them in the kernel takes longer than the rest of the development); the Cyrius library and
  the C programs, which are in other languages.
\<close>


section \<open>The two gates\<close>

text \<open>C40: the two gates together make the manifest the surface. When both pass on one tree and one
  manifest, and the compiler answers honestly about the two consumers, a function declared in the bundle
  can be reached by a consumer exactly when the manifest has a row of its name, and every row's name
  and arity belong to a public declaration.\<close>

theorem gates_make_manifest_the_surface:
  assumes "surface_main read [root, mp] = Inr (out, 0)"
    "boundary_main read listdir load has_cycc cycc [root, mp] = Inr (out', 0)"
    "read (bundle_path root) = Some src" "fn_decls (strip src Cyr False) = Inr ds" "stage listdir load root = Inr work"
    "honest reach (fn_table is_public ds) (cycc (ok_dir work ds) (consumer (fn_table is_public ds)))"
    "honest reach (fn_table (\<lambda>d. \<not> is_public d) ds) (cycc (bad_dir work ds) (consumer (fn_table (\<lambda>d. \<not> is_public d) ds)))"
  shows "\<exists>want. parse_manifest read mp = Inr want \<and>
    (\<forall>d \<in> set ds. reach (fn_name d) \<longleftrightarrow> fn_name d \<in> key_name ` fst ` set want) \<and>
    (\<forall>row \<in> set want. \<exists>d \<in> set ds. is_public d \<and> fst row = export_key d)"
proof -
  obtain want where want: "parse_manifest read mp = Inr want" "fst ` set want = export_key ` {d \<in> set ds. is_public d}"
    using assms(1,3,4) surface_main_pass [of read root mp] by auto
  obtain tx where mp: "read mp = Some tx" "set (manifest_names tx) = fn_name ` {d \<in> set ds. is_public d}"
    using assms(2,3,4) boundary_main_pass [of read listdir load has_cycc cycc root mp] by auto
  note names = manifest_names_agree [OF mp(1) want(1)]
  have reach: "reach (fn_name d) \<longleftrightarrow> is_public d" if "d \<in> set ds" for d
    using boundary_reach [OF assms(2-7) that] by blast
  have "reach (fn_name d) \<longleftrightarrow> fn_name d \<in> key_name ` fst ` set want" if "d \<in> set ds" for d
  proof
    assume "reach (fn_name d)"
    with reach [OF that] that mp(2) names show "fn_name d \<in> key_name ` fst ` set want" by auto
  next
    assume "fn_name d \<in> key_name ` fst ` set want"
    then have "fn_name d \<in> fn_name ` {d \<in> set ds. is_public d}" by (simp only: mp(2) [symmetric] names)
    then obtain d' where "d' \<in> set ds" "is_public d'" "fn_name d' = fn_name d" by auto
    with reach [of d'] show "reach (fn_name d)" by simp
  qed
  moreover have "\<exists>d \<in> set ds. is_public d \<and> fst row = export_key d" if "row \<in> set want" for row
  proof -
    from that want(2) have "fst row \<in> export_key ` {d \<in> set ds. is_public d}" by force
    then show ?thesis by blast
  qed
  ultimately show ?thesis using want(1) by blast
qed

lemma gates_make_manifest_the_surface_witness:
  "\<exists>want. parse_manifest sample_read ''m'' = Inr want \<and> \<not> (''g'' \<in> key_name ` fst ` set want)"
proof -
  obtain out where run: "boundary_main sample_read sample_listdir sample_load True sample_cycc [''r'', ''m''] = Inr (out, 0)"
    using sample_boundary by blast
  have src: "sample_read (bundle_path ''r'') = Some sample_bundle" by (simp only: sample_reads)
  from gates_make_manifest_the_surface [OF sample_run run src sample_decls(3) sample_stage sample_honest]
  show ?thesis by auto
qed


section \<open>The tap and the decoder\<close>



end
